(* ===== verification/FN_Prelude.thy ===== *)
theory FN_Prelude
  imports Main "HOL-Library.Word"
begin

text \<open>
  Shared vocabulary of the FastNet development: the machine types the C++ code works on,
  the parts of the C and C++ standard libraries it calls (\<open>ctype\<close> classification in the
  default "C" locale, \<open>std::string_view::find\<close> and \<open>substr\<close>), and the list and word lemmas
  that several component theories use.

  Conventions of the whole development:
  \<^item> a C++ \<open>std::string\<close> or \<open>std::string_view\<close> that holds text is a \<^typ>\<open>string\<close>, a raw
    byte buffer (\<open>Buffer\<close>, \<open>uint8_t*\<close>) is a list of 8-bit words;
  \<^item> \<open>size_t\<close> is 64 bits wide. Positions and lengths of existing objects are \<^typ>\<open>nat\<close>;
    where a value read from the wire enters size arithmetic, the wrap-around of the
    64-bit addition is written out (\<open>wrap64\<close>);
  \<^item> \<open>npos\<close> results are \<^term>\<open>None\<close>.
\<close>

unbundle bit_operations_syntax

subsection \<open>Machine types\<close>

type_synonym byte = "8 word"
type_synonym bytes = "byte list"
type_synonym u16 = "16 word"
type_synonym u32 = "32 word"
type_synonym u64 = "64 word"

definition size_max :: nat where
  "size_max = 2 ^ 64 - 1"

definition wrap64 :: "nat \<Rightarrow> nat" where
  "wrap64 n = n mod 2 ^ 64"

lemma wrap64_small [simp]: "n \<le> size_max \<Longrightarrow> wrap64 n = n"
  by (simp add: wrap64_def size_max_def)

text \<open>Bytes are equal when their eight bits are; with the bits above gone, \<open>bit_simps\<close>
  evaluates every shift-and-mask expression over bytes.\<close>

lemma byte_bit_high [simp]: "8 \<le> n \<Longrightarrow> \<not> bit (b :: byte) n"
  using bit_imp_le_length [of b n] by auto

lemma byte_bits_eqI:
  assumes "bit a 0 = bit b 0" "bit a 1 = bit b 1" "bit a 2 = bit b 2" "bit a 3 = bit b 3"
    "bit a 4 = bit b 4" "bit a 5 = bit b 5" "bit a 6 = bit b 6" "bit a 7 = bit b 7"
  shows "a = (b :: byte)"
proof (rule bit_word_eqI)
  fix n
  assume "n < LENGTH(8)"
  then consider "n = 0" | "n = 1" | "n = 2" | "n = 3" | "n = 4" | "n = 5" | "n = 6" | "n = 7"
    by fastforce
  then show "bit a n = bit b n" by cases (use assms in simp_all)
qed

text \<open>Big-endian integers, read off their values.\<close>

definition be_split :: "nat \<Rightarrow> 'a::len word \<Rightarrow> bytes" where
  "be_split n w = map (\<lambda>i. of_nat (unat w div 256 ^ i mod 256)) (rev [0..<n])"

definition be_join :: "bytes \<Rightarrow> 'a::len word" where
  "be_join bs = foldl (\<lambda>acc b. acc * 256 + ucast b) 0 bs"

lemma be_byte: "ucast (drop_bit (i * 8) w AND 0xFF) = (of_nat (unat w div 256 ^ i mod 256) :: byte)"
  for w :: "'a::len word"
proof -
  have "unat w div 256 ^ i mod 256 = take_bit 8 (drop_bit (i * 8) (unat w))"
    using power_mult [of "2::nat" 8 i] by (simp add: take_bit_eq_mod drop_bit_eq_div mult.commute)
  moreover have "ucast (drop_bit (i * 8) w AND 0xFF) = (ucast (drop_bit (i * 8) w) :: byte)"
    by (rule byte_bits_eqI) (auto simp: bit_simps dest: bit_imp_le_length)
  moreover have "(of_nat (take_bit 8 (drop_bit (i * 8) (unat w))) :: byte) = ucast (drop_bit (i * 8) w)"
    by (rule bit_word_eqI) (auto simp: bit_simps)
  ultimately show ?thesis by simp
qed

lemma push_bit_8_add: "push_bit 8 w + ucast b = push_bit 8 w OR ucast (b :: byte)"
  by (rule disjunctive_add) (auto simp: bit_simps)

lemma be_join_snoc: "be_join (bs @ [b]) = (push_bit 8 (be_join bs) OR ucast b :: 'a::len word)"
proof -
  have "be_join (bs @ [b]) = (push_bit 8 (be_join bs) + ucast b :: 'a word)"
    by (simp add: be_join_def push_bit_eq_mult)
  then show ?thesis by (simp only: push_bit_8_add)
qed

lemma be_split_0 [simp]: "be_split 0 w = []"
  by (simp add: be_split_def)

lemma byte_mask: "ucast (w AND 0xFF) = (ucast w :: byte)" for w :: "'a::len word"
  by (rule byte_bits_eqI) (auto simp: bit_simps dest: bit_imp_le_length)

lemma be_split_bits: "be_split n w = map (\<lambda>i. ucast (drop_bit (i * 8) w)) (rev [0..<n])"
  by (simp add: be_split_def be_byte [symmetric] byte_mask)

lemma be_split_Suc: "be_split (Suc n) w = be_split n (drop_bit 8 w) @ [ucast w]"
proof -
  have "rev [0..<Suc n] = map Suc (rev [0..<n]) @ [0]"
    by (simp add: upt_conv_Cons rev_map [symmetric] map_Suc_upt del: upt_Suc)
  then show ?thesis
    unfolding be_split_bits by (simp del: upt_Suc add: comp_def add.commute)
qed

lemma be_join_Nil [simp]: "be_join [] = 0"
  by (simp add: be_join_def)

lemma length_be_split [simp]: "length (be_split n w) = n"
  by (simp add: be_split_def)

lemma be_join_bit: "bit (be_join bs :: 'a::len word) i \<Longrightarrow> i < 8 * length bs"
proof (induction bs arbitrary: i rule: rev_induct)
  case Nil
  then show ?case by (simp add: be_join_def)
next
  case (snoc b bs)
  from snoc.prems consider "8 \<le> i" "bit (be_join bs :: 'a word) (i - 8)" | "bit b i"
    by (auto simp: be_join_snoc bit_simps)
  then show ?case
    by cases (use snoc.IH bit_imp_le_length [of b i] in force)+
qed

lemma be_split_join:
  "8 * length bs \<le> LENGTH('a) \<Longrightarrow> be_split (length bs) (be_join bs :: 'a::len word) = bs"
proof (induction bs rule: rev_induct)
  case Nil
  then show ?case by simp
next
  case (snoc b bs)
  have "drop_bit 8 (be_join (bs @ [b]) :: 'a word) = be_join bs"
  proof (rule bit_word_eqI)
    fix n
    assume "n < LENGTH('a)"
    show "bit (drop_bit 8 (be_join (bs @ [b]) :: 'a word)) n = bit (be_join bs :: 'a word) n"
      using snoc.prems be_join_bit [of bs n, where 'a = 'a]
      by (auto simp: be_join_snoc bit_simps)
  qed
  moreover have "ucast (be_join (bs @ [b]) :: 'a word) = b"
    using snoc.prems by (intro byte_bits_eqI) (simp_all add: be_join_snoc bit_simps)
  ultimately show ?case using snoc by (simp add: be_split_Suc)
qed

lemma be_join_split: "be_join (be_split n w) = (take_bit (8 * n) w :: 'a::len word)"
proof (induction n arbitrary: w)
  case 0
  then show ?case by simp
next
  case (Suc n)
  show ?case
    by (rule bit_word_eqI) (auto simp: be_split_Suc be_join_snoc Suc bit_simps)
qed

named_theorems ctype_simps \<open>unfolds the character classes\<close>
named_theorems view_simps \<open>evaluates searches and substrings\<close>

subsection \<open>Characters: \<open>ctype\<close> in the "C" locale\<close>

abbreviation code_of :: "char \<Rightarrow> nat" where
  "code_of c \<equiv> of_char c"

definition isspace :: "char \<Rightarrow> bool" where
  "isspace c \<longleftrightarrow> (9 \<le> code_of c \<and> code_of c \<le> 13) \<or> code_of c = 32"

definition isdigit :: "char \<Rightarrow> bool" where
  "isdigit c \<longleftrightarrow> 48 \<le> code_of c \<and> code_of c \<le> 57"

definition isupper :: "char \<Rightarrow> bool" where
  "isupper c \<longleftrightarrow> 65 \<le> code_of c \<and> code_of c \<le> 90"

definition islower :: "char \<Rightarrow> bool" where
  "islower c \<longleftrightarrow> 97 \<le> code_of c \<and> code_of c \<le> 122"

definition isalnum :: "char \<Rightarrow> bool" where
  "isalnum c \<longleftrightarrow> isdigit c \<or> isupper c \<or> islower c"

definition tolower :: "char \<Rightarrow> char" where
  "tolower c = (if isupper c then char_of (code_of c + 32) else c)"

definition toupper :: "char \<Rightarrow> char" where
  "toupper c = (if islower c then char_of (code_of c - 32) else c)"

lemmas [ctype_simps] =
  isspace_def isdigit_def isupper_def islower_def isalnum_def tolower_def toupper_def

definition CR :: char where "CR = CHR 0x0D"
definition LF :: char where "LF = CHR 0x0A"
abbreviation CRLF :: string where "CRLF \<equiv> [CR, LF]"

lemma CR_LF_neq [simp]: "CR \<noteq> LF" "LF \<noteq> CR"
  by (simp_all add: CR_def LF_def)

lemma code_of_inject: "code_of c = code_of d \<longleftrightarrow> c = d"
  by (metis char_of_char)

lemma code_of_less: "code_of c < 256"
  by (metis of_char_of char_of_char mod_less_divisor zero_less_numeral)

lemma tolower_idem [simp]: "tolower (tolower c) = tolower c"
  by (auto simp: ctype_simps)

text \<open>Text and raw bytes: \<open>reinterpret_cast\<close> between \<open>char*\<close> and \<open>uint8_t*\<close>.\<close>

definition byte_of_char :: "char \<Rightarrow> byte" where
  "byte_of_char c = of_nat (code_of c)"

definition char_of_byte :: "byte \<Rightarrow> char" where
  "char_of_byte b = char_of (unat b)"

definition bytes_of_string :: "string \<Rightarrow> bytes" where
  "bytes_of_string s = map byte_of_char s"

definition string_of_bytes :: "bytes \<Rightarrow> string" where
  "string_of_bytes bs = map char_of_byte bs"

lemma char_of_byte_of_char [simp]: "char_of_byte (byte_of_char c) = c"
  by (simp add: char_of_byte_def byte_of_char_def unat_of_nat)

lemma byte_of_char_of_byte [simp]: "byte_of_char (char_of_byte b) = b"
proof -
  have "unat b < 2 ^ LENGTH(8)" by (rule unsigned_less)
  then show ?thesis by (simp add: char_of_byte_def byte_of_char_def)
qed

lemma string_of_bytes_of_string [simp]: "string_of_bytes (bytes_of_string s) = s"
  by (simp add: string_of_bytes_def bytes_of_string_def comp_def)

lemma bytes_of_string_of_bytes [simp]: "bytes_of_string (string_of_bytes bs) = bs"
  by (simp add: string_of_bytes_def bytes_of_string_def comp_def)

subsection \<open>Searching: \<open>find\<close> with \<open>npos\<close> as \<^term>\<open>None\<close>\<close>

fun find_pred :: "('a \<Rightarrow> bool) \<Rightarrow> 'a list \<Rightarrow> nat option" where
  "find_pred P [] = None"
| "find_pred P (x # xs) = (if P x then Some 0 else map_option Suc (find_pred P xs))"

abbreviation find_char :: "'a \<Rightarrow> 'a list \<Rightarrow> nat option" where
  "find_char c \<equiv> find_pred (\<lambda>x. x = c)"

fun find_str :: "'a list \<Rightarrow> 'a list \<Rightarrow> nat option" where
  "find_str pat [] = (if pat = [] then Some 0 else None)"
| "find_str pat (x # xs) =
     (if take (length pat) (x # xs) = pat then Some 0 else map_option Suc (find_str pat xs))"

definition find_str_from :: "'a list \<Rightarrow> nat \<Rightarrow> 'a list \<Rightarrow> nat option" where
  "find_str_from pat pos xs =
     (if pos > length xs then None else map_option ((+) pos) (find_str pat (drop pos xs)))"

definition find_char_from :: "'a \<Rightarrow> nat \<Rightarrow> 'a list \<Rightarrow> nat option" where
  "find_char_from c pos xs =
     (if pos > length xs then None else map_option ((+) pos) (find_char c (drop pos xs)))"

definition substr :: "'a list \<Rightarrow> nat \<Rightarrow> nat \<Rightarrow> 'a list" where
  "substr xs pos n = take n (drop pos xs)"

lemma find_pred_None: "find_pred P xs = None \<longleftrightarrow> (\<forall>x\<in>set xs. \<not> P x)"
  by (induction xs) auto

lemma find_pred_Some:
  "find_pred P xs = Some i \<longleftrightarrow> i < length xs \<and> P (xs ! i) \<and> (\<forall>j<i. \<not> P (xs ! j))"
proof (induction xs arbitrary: i)
  case Nil
  then show ?case by simp
next
  case (Cons x xs)
  show ?case
    by (cases i) (auto simp: Cons.IH All_less_Suc2)
qed

lemma find_pred_append_hit [view_simps]:
  "\<forall>x\<in>set xs. \<not> P x \<Longrightarrow> P y \<Longrightarrow> find_pred P (xs @ y # ys) = Some (length xs)"
  by (induction xs) auto

lemma find_pred_append_miss:
  "\<forall>x\<in>set xs. \<not> P x \<Longrightarrow> find_pred P (xs @ ys) = map_option ((+) (length xs)) (find_pred P ys)"
  by (induction xs) (cases "find_pred P ys"; auto)+

lemma find_pred_less: "find_pred P xs = Some i \<Longrightarrow> i < length xs"
  by (simp add: find_pred_Some)

lemma find_str_Some_take:
  "find_str pat xs = Some i \<Longrightarrow> take (length pat) (drop i xs) = pat"
  by (induction xs arbitrary: i) (auto split: if_splits)

lemma find_str_Some_le:
  assumes "find_str pat xs = Some i"
  shows "i + length pat \<le> length xs"
proof (cases "i \<le> length xs")
  case True
  have "length (take (length pat) (drop i xs)) = length pat"
    using find_str_Some_take [OF assms] by simp
  with True show ?thesis by simp
next
  case False
  have "i \<le> length xs"
    using assms by (induction xs arbitrary: i) (auto split: if_splits)
  with False show ?thesis by simp
qed

lemma find_str_Some_split:
  assumes "find_str pat xs = Some i"
  shows "xs = take i xs @ pat @ drop (i + length pat) xs"
  using find_str_Some_take [OF assms]
  by (metis append_take_drop_id drop_drop add.commute)

lemma find_str_Some_min:
  "find_str pat xs = Some i \<Longrightarrow> j < i \<Longrightarrow> take (length pat) (drop j xs) \<noteq> pat"
proof (induction xs arbitrary: i j)
  case Nil
  then show ?case by (simp split: if_splits)
next
  case (Cons x xs)
  then show ?case by (cases j) (auto split: if_splits)
qed

lemma find_str_hit [view_simps]:
  assumes "pat \<noteq> []" and "hd pat \<notin> set xs"
  shows "find_str pat (xs @ pat @ ys) = Some (length xs)"
  using assms(2)
proof (induction xs)
  case Nil
  show ?case using assms(1) by (cases pat) simp_all
next
  case (Cons x xs)
  then have "take (length pat) (x # xs @ pat @ ys) \<noteq> pat"
    using assms(1) by (cases pat) auto
  with Cons show ?case by simp
qed

lemma find_str_miss [view_simps]:
  assumes "pat \<noteq> []" and "hd pat \<notin> set xs"
  shows "find_str pat xs = None"
  using assms(2)
proof (induction xs)
  case Nil
  with assms(1) show ?case by simp
next
  case (Cons x xs)
  then have "take (length pat) (x # xs) \<noteq> pat"
    using assms(1) by (cases pat) auto
  with Cons show ?case by simp
qed

lemma find_char_from_less: "find_char_from c p xs = Some i \<Longrightarrow> p \<le> i \<and> i < length xs"
  by (auto simp: find_char_from_def find_pred_Some split: if_splits)

lemma find_str_from_le:
  assumes "find_str_from pat p xs = Some i"
  shows "p \<le> i \<and> i + length pat \<le> length xs"
proof -
  from assms obtain k where k: "find_str pat (drop p xs) = Some k" "i = p + k" "p \<le> length xs"
    by (auto simp: find_str_from_def split: if_splits)
  with find_str_Some_le [OF k(1)] show ?thesis by simp
qed

lemma substr_append_left [view_simps]: "substr (xs @ ys) 0 (length xs) = xs"
  by (simp add: substr_def)

lemma length_substr_le: "length (substr xs p n) \<le> n"
  by (simp add: substr_def)

text \<open>\<open>memcpy\<close> into the middle of a buffer.\<close>

definition write_at :: "nat \<Rightarrow> 'a list \<Rightarrow> 'a list \<Rightarrow> 'a list" where
  "write_at pos src dest = take pos dest @ src @ drop (pos + length src) dest"

lemma length_write_at: "pos + length src \<le> length dest \<Longrightarrow> length (write_at pos src dest) = length dest"
  by (simp add: write_at_def)

subsection \<open>Codecs\<close>

text \<open>The contract of an encoder and its decoder: admissible values survive the round trip.\<close>

locale codec =
  fixes ok :: "'a \<Rightarrow> bool" and enc :: "'a \<Rightarrow> 'b" and dec :: "'b \<Rightarrow> 'a option"
  assumes dec_enc: "ok x \<Longrightarrow> dec (enc x) = Some x"
begin

lemma enc_inject: "ok x \<Longrightarrow> ok y \<Longrightarrow> enc x = enc y \<longleftrightarrow> x = y"
  using dec_enc by (metis option.inject)

end

text \<open>The contract of a framing on a byte stream: the encoder may choose a key (a mask), the
  decoder reads one value off the front of the stream and reports only values that are there.\<close>

locale stream_codec =
  fixes key_ok :: "'k \<Rightarrow> bool" and ok :: "'a \<Rightarrow> bool"
    and enc :: "'k \<Rightarrow> 'a \<Rightarrow> 'b list" and dec :: "'b list \<Rightarrow> 'a option"
  assumes dec_enc_append: "key_ok k \<Longrightarrow> ok x \<Longrightarrow> dec (enc k x @ rest) = Some x"
    and dec_sound: "dec bs = Some x \<Longrightarrow> ok x \<and> (\<exists>k rest. key_ok k \<and> bs = enc k x @ rest)"
    and enc_length: "key_ok k \<Longrightarrow> key_ok k' \<Longrightarrow> length (enc k x) = length (enc k' x)"
begin

lemma dec_stable: "dec bs = Some x \<Longrightarrow> dec (bs @ more) = Some x"
  using dec_enc_append dec_sound by (metis append_assoc)

lemma dec_incomplete:
  assumes "key_ok k" "ok x" "bs @ missing = enc k x" "missing \<noteq> []"
  shows "dec bs = None"
proof (rule ccontr)
  assume "dec bs \<noteq> None"
  then obtain y where y: "dec bs = Some y" by auto
  have "dec (bs @ missing) = Some x"
    using dec_enc_append [of k x "[]"] assms by simp
  with dec_stable [OF y, of missing] have "y = x" by simp
  with y dec_sound obtain k' rest where "key_ok k'" "bs = enc k' x @ rest" by blast
  then have "length (enc k x) = length (enc k x) + length rest + length missing"
    using arg_cong [OF assms(3), of length] enc_length [of k' k x] assms(1) by simp
  with assms(4) show False by simp
qed

end

subsection \<open>Time\<close>

text \<open>Time points of the steady clock in nanoseconds, and durations given in milliseconds.\<close>

type_synonym clock = int

definition in_ticks :: "int \<Rightarrow> clock" where
  "in_ticks milliseconds = milliseconds * 1000000"

subsection \<open>Systems with an invariant\<close>

text \<open>The states a component can reach: it starts in an initial state and each operation is one step.\<close>

inductive reach :: "('s \<Rightarrow> bool) \<Rightarrow> ('s \<Rightarrow> 's \<Rightarrow> bool) \<Rightarrow> 's \<Rightarrow> bool" for init step where
  reach_init: "init s \<Longrightarrow> reach init step s"
| reach_step: "reach init step s \<Longrightarrow> step s s' \<Longrightarrow> reach init step s'"

text \<open>The contract of an invariant: it holds initially and every step keeps it.\<close>

locale invariant_system =
  fixes init :: "'s \<Rightarrow> bool" and step :: "'s \<Rightarrow> 's \<Rightarrow> bool" and good :: "'s \<Rightarrow> bool"
  assumes good_init: "init s \<Longrightarrow> good s" and good_step: "good s \<Longrightarrow> step s s' \<Longrightarrow> good s'"
begin

lemma reach_good: "reach init step s \<Longrightarrow> good s"
  by (induction rule: reach.induct) (blast intro: good_init good_step)+

end

end
