(* ===== verification/Base64.thy ===== *)
theory Base64
  imports FN_Prelude
begin

text \<open>
  The Base64 helpers of \<open>src/src/base64.cpp\<close>: the encoder, the whitespace-tolerant strict
  decoder and their string and buffer entry points. A decoder call returns the boolean result
  together with the output buffer, which the code leaves partly filled on a late error.
  The lemmas show that decoding inverts encoding, the exact sizes the code reserves, and
  which inputs the decoder refuses.
\<close>

subsection \<open>The alphabet and the decode table\<close>

definition kBase64Alphabet :: string where
  "kBase64Alphabet =
     ''ABCDEFGHIJKLMNOPQRSTUVWXYZ'' @
     ''abcdefghijklmnopqrstuvwxyz'' @
     ''0123456789+/''"

definition base64DecodeTable :: "int list" where
  "base64DecodeTable =
     fold (\<lambda>index values. values[code_of (kBase64Alphabet ! index) := int index])
       [0..<64] (replicate 256 (-1))"

abbreviation tableAt :: "char \<Rightarrow> int" where
  "tableAt c \<equiv> base64DecodeTable ! code_of c"

definition padChar :: char where
  "padChar = CHR ''=''"

definition isIgnoredWhitespace :: "char \<Rightarrow> bool" where
  "isIgnoredWhitespace ch \<longleftrightarrow> isspace ch"

subsection \<open>Encoding\<close>

fun encodeBytes :: "bytes \<Rightarrow> string" where
  "encodeBytes [] = []"
| "encodeBytes (x # xs) =
     (let remaining = length (x # xs);
          octetA = ucast x :: u32;
          octetB = (if remaining > 1 then ucast (xs ! 0) else 0) :: u32;
          octetC = (if remaining > 2 then ucast (xs ! 1) else 0) :: u32;
          triple = push_bit 16 octetA OR push_bit 8 octetB OR octetC
      in [kBase64Alphabet ! unat (drop_bit 18 triple AND 0x3F),
          kBase64Alphabet ! unat (drop_bit 12 triple AND 0x3F),
          if remaining > 1 then kBase64Alphabet ! unat (drop_bit 6 triple AND 0x3F) else padChar,
          if remaining > 2 then kBase64Alphabet ! unat (triple AND 0x3F) else padChar]
         @ encodeBytes (drop 2 xs))"

definition base64Encode :: "bytes \<Rightarrow> string" where
  "base64Encode data = (if data = [] then [] else encodeBytes data)"

definition base64Encode_text :: "string \<Rightarrow> string" where
  "base64Encode_text data = (if data = [] then [] else encodeBytes (bytes_of_string data))"

subsection \<open>Decoding\<close>

fun normalizeBase64 :: "string \<Rightarrow> string option" where
  "normalizeBase64 [] = Some []"
| "normalizeBase64 (ch # rest) =
     (if isIgnoredWhitespace ch then normalizeBase64 rest
      else if ch \<noteq> padChar \<and> tableAt ch < 0 then None
      else map_option (Cons ch) (normalizeBase64 rest))"

text \<open>The padding count of lines 107-113; the code reserves \<open>quartets * 3 - padding\<close> bytes.\<close>

definition base64Padding :: "string \<Rightarrow> nat" where
  "base64Padding normalized =
     (if normalized \<noteq> [] \<and> last normalized = padChar
      then (if 2 \<le> length normalized \<and> normalized ! (length normalized - 2) = padChar then 2 else 1)
      else 0)"

fun decodeQuartets :: "string \<Rightarrow> bytes \<Rightarrow> bool \<times> bytes" where
  "decodeQuartets (c0 # c1 # c2 # c3 # rest) output =
     (let isLastQuartet = (rest = []);
          v0 = tableAt c0; v1 = tableAt c1; v2 = tableAt c2; v3 = tableAt c3;
          b0 = word_of_int (push_bit 2 v0 OR drop_bit 4 v1);
          b1 = word_of_int (push_bit 4 (v1 AND 0x0F) OR drop_bit 2 v2);
          b2 = word_of_int (push_bit 6 (v2 AND 0x03) OR v3)
      in if c0 = padChar \<or> c1 = padChar then (False, output)
         else if \<not> isLastQuartet \<and> (c2 = padChar \<or> c3 = padChar) then (False, output)
         else if v0 < 0 \<or> v1 < 0 then (False, output)
         else if c2 = padChar then
           (if \<not> isLastQuartet \<or> c3 \<noteq> padChar then (False, output)
            else decodeQuartets rest (output @ [b0]))
         else if v2 < 0 then (False, output)
         else if c3 = padChar then
           (if \<not> isLastQuartet then (False, output @ [b0, b1])
            else decodeQuartets rest (output @ [b0, b1]))
         else if v3 < 0 then (False, output @ [b0, b1])
         else decodeQuartets rest (output @ [b0, b1, b2]))"
| "decodeQuartets _ output = (True, output)"

definition tryBase64Decode :: "string \<Rightarrow> bool \<times> bytes" where
  "tryBase64Decode encoded =
     (case normalizeBase64 encoded of
        None \<Rightarrow> (False, [])
      | Some normalized \<Rightarrow>
          if normalized = [] then (True, [])
          else if length normalized mod 4 \<noteq> 0 then (False, [])
          else decodeQuartets normalized [])"

definition tryBase64DecodeToString :: "string \<Rightarrow> bool \<times> string" where
  "tryBase64DecodeToString encoded =
     (case tryBase64Decode encoded of
        (ok, buffer) \<Rightarrow>
          if \<not> ok then (False, [])
          else if buffer = [] then (True, [])
          else (True, string_of_bytes buffer))"

definition base64Decode :: "string \<Rightarrow> bytes" where
  "base64Decode encoded =
     (case tryBase64Decode encoded of (ok, output) \<Rightarrow> if \<not> ok then [] else output)"

definition base64DecodeToString :: "string \<Rightarrow> string" where
  "base64DecodeToString encoded =
     (case tryBase64DecodeToString encoded of (ok, output) \<Rightarrow> if \<not> ok then [] else output)"

subsection \<open>Decoding inverts encoding\<close>

abbreviation triple_of :: "byte \<Rightarrow> byte \<Rightarrow> byte \<Rightarrow> u32" where
  "triple_of a b c \<equiv> push_bit 16 (ucast a) OR push_bit 8 (ucast b) OR ucast c"

lemma decode_first_byte:
  "word_of_int (push_bit 2 (uint (drop_bit 18 (triple_of a b c) AND 0x3F))
     OR drop_bit 4 (uint (drop_bit 12 (triple_of a b c) AND 0x3F))) = a"
  by (rule byte_bits_eqI) (simp_all add: bit_simps)

lemma decode_second_byte:
  "word_of_int (push_bit 4 (uint (drop_bit 12 (triple_of a b c) AND 0x3F) AND 0x0F)
     OR drop_bit 2 (uint (drop_bit 6 (triple_of a b c) AND 0x3F))) = b"
  by (rule byte_bits_eqI) (simp_all add: bit_simps)

lemma decode_third_byte:
  "word_of_int (push_bit 6 (uint (drop_bit 6 (triple_of a b c) AND 0x3F) AND 0x03)
     OR uint (triple_of a b c AND 0x3F)) = c"
  by (rule byte_bits_eqI) (simp_all add: bit_simps)

lemma alphabet_length: "length kBase64Alphabet = 64"
  by (simp add: kBase64Alphabet_def)

lemma alphabet_distinct: "distinct kBase64Alphabet"
  by (simp add: kBase64Alphabet_def)

lemma alphabet_no_pad_space: "\<forall>c\<in>set kBase64Alphabet. c \<noteq> padChar \<and> \<not> isspace c"
  by (simp add: kBase64Alphabet_def isspace_def padChar_def)

lemma pad_not_space: "\<not> isspace padChar"
  by (simp add: isspace_def padChar_def)

lemma pad_not_alphabet [simp]: "padChar \<notin> set kBase64Alphabet"
  using alphabet_no_pad_space by blast

abbreviation base64_char :: "char \<Rightarrow> bool" where
  "base64_char c \<equiv> c = padChar \<or> c \<in> set kBase64Alphabet"

lemma fold_update_other:
  "k \<notin> f ` set xs \<Longrightarrow> fold (\<lambda>i t. t[f i := g i]) xs t ! k = t ! k"
  by (induction xs arbitrary: t) auto

lemma fold_update_hit:
  assumes "inj_on f (set xs)" and "distinct xs" and "i \<in> set xs" and "f i < length t"
  shows "fold (\<lambda>i t. t[f i := g i]) xs t ! f i = g i"
  using assms
proof (induction xs arbitrary: t)
  case Nil
  then show ?case by simp
next
  case (Cons x xs)
  show ?case
  proof (cases "i = x")
    case True
    with Cons.prems have "f i \<notin> f ` set xs" by (auto simp: inj_on_def)
    with True Cons.prems show ?thesis by (simp add: fold_update_other)
  next
    case False
    with Cons show ?thesis by simp
  qed
qed

lemma table_alphabet: "i < 64 \<Longrightarrow> tableAt (kBase64Alphabet ! i) = int i"
  unfolding base64DecodeTable_def
  by (rule fold_update_hit [where f = "\<lambda>i. code_of (kBase64Alphabet ! i)"])
    (auto simp: inj_on_def code_of_inject code_of_less alphabet_length alphabet_distinct
      nth_eq_iff_index_eq)

lemma table_other: "c \<notin> set kBase64Alphabet \<Longrightarrow> tableAt c = -1"
  unfolding base64DecodeTable_def
  by (subst fold_update_other)
    (auto simp: code_of_inject code_of_less alphabet_length)

lemma table_nonneg_iff: "0 \<le> tableAt c \<longleftrightarrow> c \<in> set kBase64Alphabet"
proof
  show "0 \<le> tableAt c \<Longrightarrow> c \<in> set kBase64Alphabet"
    using table_other [of c] by force
next
  assume "c \<in> set kBase64Alphabet"
  then obtain i where "i < 64" "c = kBase64Alphabet ! i"
    by (auto simp: in_set_conv_nth alphabet_length)
  then show "0 \<le> tableAt c" by (simp add: table_alphabet)
qed

lemma sextet_less: "unat (w AND 0x3F :: u32) < 64"
proof -
  have "unat (w AND 0x3F) \<le> unat (0x3F :: u32)"
    by (rule word_and_le1 [THEN word_le_nat_alt [THEN iffD1]])
  then show ?thesis by simp
qed

lemma table_sextet [simp]:
  "tableAt (kBase64Alphabet ! unat (w AND 0x3F :: u32)) = uint (w AND 0x3F)"
  by (simp add: table_alphabet sextet_less)

lemma sextet_in_alphabet [simp]:
  "kBase64Alphabet ! unat (w AND 0x3F :: u32) \<in> set kBase64Alphabet"
  by (rule nth_mem) (simp add: sextet_less alphabet_length)

lemma sextet_not_pad [simp]: "kBase64Alphabet ! unat (w AND 0x3F :: u32) \<noteq> padChar"
  using alphabet_no_pad_space sextet_in_alphabet by blast

lemma table_negative [simp]: "tableAt c < 0 \<longleftrightarrow> c \<notin> set kBase64Alphabet"
  using table_nonneg_iff [of c] by linarith

lemma normalize_eq:
  "normalizeBase64 s =
     (if \<forall>c\<in>set s. isspace c \<or> base64_char c
      then Some (filter (\<lambda>c. \<not> isspace c) s) else None)"
proof (induction s)
  case Nil
  show ?case by simp
next
  case (Cons c s)
  have "isspace c \<Longrightarrow> \<not> base64_char c"
    using alphabet_no_pad_space pad_not_space by blast
  with Cons show ?case by (auto simp: isIgnoredWhitespace_def)
qed

lemma normalize_keeps:
  assumes "\<forall>c\<in>set s. base64_char c"
  shows "normalizeBase64 s = Some s"
proof -
  have "\<forall>c\<in>set s. \<not> isspace c"
    using assms alphabet_no_pad_space pad_not_space by metis
  with assms show ?thesis by (simp add: normalize_eq filter_id_conv)
qed

lemma encodeBytes_one:
  "encodeBytes [a] =
     [kBase64Alphabet ! unat (drop_bit 18 (triple_of a 0 0) AND 0x3F),
      kBase64Alphabet ! unat (drop_bit 12 (triple_of a 0 0) AND 0x3F), padChar, padChar]"
  by (simp add: Let_def)

lemma encodeBytes_two:
  "encodeBytes [a, b] =
     [kBase64Alphabet ! unat (drop_bit 18 (triple_of a b 0) AND 0x3F),
      kBase64Alphabet ! unat (drop_bit 12 (triple_of a b 0) AND 0x3F),
      kBase64Alphabet ! unat (drop_bit 6 (triple_of a b 0) AND 0x3F), padChar]"
  by (simp add: Let_def)

lemma encodeBytes_three:
  "encodeBytes (a # b # c # bs) =
     [kBase64Alphabet ! unat (drop_bit 18 (triple_of a b c) AND 0x3F),
      kBase64Alphabet ! unat (drop_bit 12 (triple_of a b c) AND 0x3F),
      kBase64Alphabet ! unat (drop_bit 6 (triple_of a b c) AND 0x3F),
      kBase64Alphabet ! unat (triple_of a b c AND 0x3F)] @ encodeBytes bs"
  by (simp add: Let_def)

lemmas encodeBytes_shapes = encodeBytes.simps(1) encodeBytes_one encodeBytes_two encodeBytes_three

declare encodeBytes.simps(2) [simp del]

lemma triple_induct [case_names Nil One Two Three]:
  assumes "P []" "\<And>a. P [a]" "\<And>a b. P [a, b]" "\<And>a b c bs. P bs \<Longrightarrow> P (a # b # c # bs)"
  shows "P xs"
  using assms by induction_schema (pat_completeness, lexicographic_order)

lemma encodeBytes_chars: "c \<in> set (encodeBytes bs) \<Longrightarrow> base64_char c"
  by (induction bs rule: triple_induct) (auto simp: encodeBytes_shapes)

lemma length_encodeBytes: "length (encodeBytes bs) = (length bs + 2) div 3 * 4"
proof (induction bs rule: triple_induct)
  case (Three a b c bs)
  moreover have "(length bs + 5) div 3 = (length bs + 2) div 3 + 1" by presburger
  ultimately show ?case by (simp add: encodeBytes_shapes add.commute)
qed (simp_all add: encodeBytes_shapes)

lemma encodeBytes_Nil_iff [simp]: "encodeBytes bs = [] \<longleftrightarrow> bs = []"
  by (induction bs rule: triple_induct) (simp_all add: encodeBytes_shapes)

lemma decode_encodeBytes: "decodeQuartets (encodeBytes bs) out = (True, out @ bs)"
proof (induction bs arbitrary: out rule: triple_induct)
  case Nil
  show ?case by simp
next
  case (One a)
  show ?case
    using decode_first_byte [of a 0 0] by (simp add: encodeBytes_shapes Let_def)
next
  case (Two a b)
  show ?case
    using decode_first_byte [of a b 0] decode_second_byte [of a b 0]
    by (simp add: encodeBytes_shapes Let_def)
next
  case (Three a b c bs)
  then show ?case
    using decode_first_byte [of a b c] decode_second_byte [of a b c] decode_third_byte [of a b c]
    by (simp add: encodeBytes_shapes Let_def)
qed

subsection \<open>What the decoder accepts\<close>

definition well_padded :: "string \<Rightarrow> bool" where
  "well_padded s \<longleftrightarrow> (\<exists>body p. s = body @ replicate p padChar \<and> p \<le> 2 \<and> padChar \<notin> set body)"

lemma well_padded_quartet:
  "rest \<noteq> [] \<Longrightarrow> 4 dvd length rest \<Longrightarrow>
   well_padded (c0 # c1 # c2 # c3 # rest) \<longleftrightarrow>
     padChar \<notin> {c0, c1, c2, c3} \<and> well_padded rest"
  (is "_ \<Longrightarrow> _ \<Longrightarrow> ?l \<longleftrightarrow> ?r")
proof
  assume rest: "rest \<noteq> []" "4 dvd length rest"
  then have long: "4 \<le> length rest" by (auto dest!: dvd_imp_le)
  assume ?l
  then obtain body p where bp: "c0 # c1 # c2 # c3 # rest = body @ replicate p padChar"
    "p \<le> 2" "padChar \<notin> set body"
    by (auto simp: well_padded_def)
  have "length (c0 # c1 # c2 # c3 # rest) = length body + p" by (simp add: bp(1))
  with long bp(2) have "4 \<le> length body" by simp
  then obtain b0 b1 b2 b3 b where "body = b0 # b1 # b2 # b3 # b"
    by (auto simp: numeral_eq_Suc Suc_le_length_iff)
  with bp show ?r by (auto simp: well_padded_def)
next
  assume ?r
  then obtain body p where "rest = body @ replicate p padChar" "p \<le> 2" "padChar \<notin> set body"
    by (auto simp: well_padded_def)
  with \<open>?r\<close> show ?l
    unfolding well_padded_def
    by (intro exI [of _ "c0 # c1 # c2 # c3 # body"] exI [of _ p]) auto
qed

lemma well_padded_last:
  "well_padded [c0, c1, c2, c3] \<longleftrightarrow>
     c0 \<noteq> padChar \<and> c1 \<noteq> padChar \<and> (c2 = padChar \<longrightarrow> c3 = padChar)"
proof
  assume "well_padded [c0, c1, c2, c3]"
  then obtain body p where bp: "[c0, c1, c2, c3] = body @ replicate p padChar"
    "p \<le> 2" "padChar \<notin> set body"
    by (auto simp: well_padded_def)
  then consider "p = 0" | "p = 1" | "p = 2" by linarith
  then show "c0 \<noteq> padChar \<and> c1 \<noteq> padChar \<and> (c2 = padChar \<longrightarrow> c3 = padChar)"
    using bp by cases (auto simp: numeral_2_eq_2 append_eq_Cons_conv Cons_eq_append_conv)
next
  assume "c0 \<noteq> padChar \<and> c1 \<noteq> padChar \<and> (c2 = padChar \<longrightarrow> c3 = padChar)"
  moreover have "[c0, c1, c2, c3] = [c0, c1, c2, c3] @ replicate 0 padChar" by simp
  moreover have "c3 = padChar \<Longrightarrow> [c0, c1, c2, c3] = [c0, c1, c2] @ replicate 1 padChar" by simp
  moreover have "c2 = padChar \<Longrightarrow> c3 = padChar \<Longrightarrow> [c0, c1, c2, c3] = [c0, c1] @ replicate 2 padChar"
    by (simp add: numeral_2_eq_2)
  ultimately show "well_padded [c0, c1, c2, c3]"
    unfolding well_padded_def by (metis empty_iff list.set set_ConsD zero_le one_le_numeral order_refl)
qed

lemma base64Padding_rest:
  assumes "rest \<noteq> []" "4 dvd length rest"
  shows "base64Padding (c0 # c1 # c2 # c3 # rest) = base64Padding rest"
proof -
  have "4 \<le> length rest" using assms by (auto dest!: dvd_imp_le)
  then show ?thesis by (auto simp: base64Padding_def nth_Cons' numeral_2_eq_2)
qed

lemma base64Padding_last:
  "well_padded [c0, c1, c2, c3] \<Longrightarrow>
     base64Padding [c0, c1, c2, c3] = (if c2 = padChar then 2 else if c3 = padChar then 1 else 0)"
  by (auto simp: base64Padding_def well_padded_last)

lemma base64Padding_le: "base64Padding s \<le> 2"
  by (simp add: base64Padding_def)

lemma decodeQuartets_more:
  assumes "rest \<noteq> []" "base64_char c0" "base64_char c1" "base64_char c2" "base64_char c3"
  obtains (bad) "padChar \<in> {c0, c1, c2, c3}" "decodeQuartets (c0 # c1 # c2 # c3 # rest) out = (False, out)"
  | (good) x y z where "padChar \<notin> {c0, c1, c2, c3}"
      "decodeQuartets (c0 # c1 # c2 # c3 # rest) out = decodeQuartets rest (out @ [x, y, z])"
proof (cases "padChar \<in> {c0, c1, c2, c3}")
  case True
  with assms show ?thesis by (intro bad) (auto simp: Let_def)
next
  case False
  with assms show ?thesis by (intro good) (auto simp: Let_def)
qed

lemma decodeQuartets_last:
  assumes "base64_char c0" "base64_char c1" "base64_char c2" "base64_char c3"
  shows "fst (decodeQuartets [c0, c1, c2, c3] out) = well_padded [c0, c1, c2, c3]"
    and "well_padded [c0, c1, c2, c3] \<Longrightarrow> length (snd (decodeQuartets [c0, c1, c2, c3] out)) =
      length out + (3 - base64Padding [c0, c1, c2, c3])"
  using assms by (auto simp: well_padded_last Let_def base64Padding_last)

lemma decodeQuartets_result:
  assumes "4 dvd length s" and "s \<noteq> []" and "\<forall>c\<in>set s. base64_char c"
  shows "fst (decodeQuartets s out) = well_padded s \<and>
    (well_padded s \<longrightarrow>
       length (snd (decodeQuartets s out)) = length out + (length s div 4 * 3 - base64Padding s))"
  using assms
proof (induction "length s" arbitrary: s out rule: less_induct)
  case less
  then have "4 \<le> length s" by (auto dest!: dvd_imp_le)
  then obtain c0 c1 c2 c3 rest where s: "s = c0 # c1 # c2 # c3 # rest"
    by (auto simp: numeral_eq_Suc Suc_le_length_iff)
  show ?case
  proof (cases "rest = []")
    case True
    from less.prems(3) s have cs: "base64_char c0" "base64_char c1" "base64_char c2" "base64_char c3"
      by auto
    show ?thesis
      using decodeQuartets_last [OF cs, of out] unfolding s True by (simp del: decodeQuartets.simps)
  next
    case False
    have rest: "4 dvd length rest" using less.prems(1) unfolding s by (simp, presburger)
    then have long: "4 \<le> length rest" using False by (auto dest!: dvd_imp_le)
    from less.prems(3) s have cs: "base64_char c0" "base64_char c1" "base64_char c2" "base64_char c3"
      and rc: "\<forall>c\<in>set rest. base64_char c" by auto
    note IH = less.hyps [of rest, OF _ rest False rc]
    from decodeQuartets_more [OF False cs, of out] show ?thesis
    proof cases
      case bad: 1
      with False rest show ?thesis
        unfolding s by (simp add: well_padded_quartet del: decodeQuartets.simps)
    next
      case good: (2 x y z)
      have "length (c0 # c1 # c2 # c3 # rest) div 4 = length rest div 4 + 1" by simp
      moreover have "base64Padding rest \<le> length rest div 4 * 3"
        using div_le_mono [OF long, of 4] base64Padding_le [of rest] by simp
      ultimately show ?thesis
        using IH [of "out @ [x, y, z]"] good False rest
        unfolding s by (auto simp: well_padded_quartet base64Padding_rest simp del: decodeQuartets.simps)
    qed
  qed
qed

lemma tryBase64Decode_encodeBytes: "tryBase64Decode (encodeBytes bs) = (True, bs)"
proof -
  have "normalizeBase64 (encodeBytes bs) = Some (encodeBytes bs)"
    by (rule normalize_keeps) (use encodeBytes_chars in blast)
  moreover have "length (encodeBytes bs) mod 4 = 0" by (simp add: length_encodeBytes)
  ultimately show ?thesis
    by (simp add: tryBase64Decode_def decode_encodeBytes)
qed

interpretation b64: codec "\<lambda>_. True" base64Encode
  "\<lambda>s. case tryBase64Decode s of (ok, out) \<Rightarrow> if ok then Some out else None"
proof unfold_locales
  fix bs :: bytes
  have "base64Encode bs = encodeBytes bs" by (simp add: base64Encode_def)
  then show "(case tryBase64Decode (base64Encode bs) of (ok, out) \<Rightarrow> if ok then Some out else None) = Some bs"
    by (simp add: tryBase64Decode_encodeBytes)
qed


text \<open>C22: the decoder accepts exactly the inputs which, with white space dropped, consist of
  alphabet characters followed by at most two padding characters and have a length divisible
  by four; then it writes as many bytes as the code has reserved.\<close>

theorem tryBase64Decode_accepts:
  "let stripped = filter (\<lambda>c. \<not> isspace c) s in
   (fst (tryBase64Decode s) \<longleftrightarrow>
      length stripped mod 4 = 0 \<and>
      (\<exists>body p. stripped = body @ replicate p padChar \<and> p \<le> 2 \<and> set body \<subseteq> set kBase64Alphabet)) \<and>
   (fst (tryBase64Decode s) \<longrightarrow>
      length (snd (tryBase64Decode s)) = length stripped div 4 * 3 - base64Padding stripped)"
proof -
  define n where "n = filter (\<lambda>c. \<not> isspace c) s"
  let ?ok = "\<exists>body p. n = body @ replicate p padChar \<and> p \<le> 2 \<and> set body \<subseteq> set kBase64Alphabet"
  have "(fst (tryBase64Decode s) \<longleftrightarrow> length n mod 4 = 0 \<and> ?ok) \<and>
    (fst (tryBase64Decode s) \<longrightarrow>
      length (snd (tryBase64Decode s)) = length n div 4 * 3 - base64Padding n)"
  proof (cases "\<forall>c\<in>set n. base64_char c")
    case True
    then have norm: "normalizeBase64 s = Some n" by (auto simp: normalize_eq n_def)
    have "set body \<subseteq> set kBase64Alphabet \<longleftrightarrow> padChar \<notin> set body"
      if "n = body @ replicate p padChar" for body p
      using True pad_not_alphabet unfolding that by (metis UnI1 set_append subset_iff)
    then have pad: "?ok \<longleftrightarrow> well_padded n"
      unfolding well_padded_def by blast
    show ?thesis
    proof (cases "n = [] \<or> length n mod 4 \<noteq> 0")
      case True
      with norm show ?thesis
        by (auto simp: tryBase64Decode_def base64Padding_def)
    next
      case False
      then have "4 dvd length n" "n \<noteq> []" by (auto simp: mod_eq_0_iff_dvd)
      with decodeQuartets_result [OF this True, of "[]"] norm pad False show ?thesis
        by (simp add: tryBase64Decode_def del: decodeQuartets.simps)
    qed
  next
    case False
    then have "normalizeBase64 s = None" by (auto simp: normalize_eq n_def)
    moreover have "\<not> ?ok" using False by (auto simp: in_set_replicate)
    ultimately show ?thesis by (simp add: tryBase64Decode_def)
  qed
  then show ?thesis by (simp add: n_def Let_def)
qed

theorem tryBase64Decode_accepts_witness:
  "fst (tryBase64Decode ''Zm 8='') \<and> length (snd (tryBase64Decode ''Zm 8='')) = 2"
proof -
  have stripped: "filter (\<lambda>c. \<not> isspace c) ''Zm 8='' = ''Zm8='' @ []"
    by (simp add: isspace_def)
  have "\<exists>body p. ''Zm8='' = body @ replicate p padChar \<and> p \<le> 2 \<and> set body \<subseteq> set kBase64Alphabet"
    by (rule exI [of _ "''Zm8''"], rule exI [of _ 1]) (simp add: kBase64Alphabet_def padChar_def)
  then show ?thesis
    using tryBase64Decode_accepts [of "''Zm 8=''"] unfolding stripped Let_def
    by (simp add: base64Padding_def padChar_def)
qed

end
