(* ===== verification/Sha1.thy ===== *)
theory Sha1
  imports FN_Prelude
begin

text \<open>
  The \<open>Sha1\<close> class at the top of \<open>src/src/WebSocketProtocol.cpp\<close>: the streaming digest behind
  the WebSocket handshake key. The object is a record with the class's four fields; \<open>update\<close>
  is the buffering loop, \<open>processBlock\<close> the compression function, \<open>finalize\<close> the padding.
  The second half states SHA-1 as FIPS 180-4 does, on the padded message, and shows that
  the buffered implementation computes it.
\<close>

subsection \<open>The class\<close>

record sha1 =
  sha_state :: "u32 list"
  sha_block :: bytes
  blockLength :: nat
  totalBits :: u64

definition sha1_reset :: sha1 where
  "sha1_reset =
     \<lparr>sha_state = [0x67452301, 0xEFCDAB89, 0x98BADCFE, 0x10325476, 0xC3D2E1F0],
      sha_block = replicate 64 0, blockLength = 0, totalBits = 0\<rparr>"

definition leftRotate :: "u32 \<Rightarrow> nat \<Rightarrow> u32" where
  "leftRotate value bits = push_bit bits value OR drop_bit (32 - bits) value"

definition schedule_load :: "bytes \<Rightarrow> u32 list" where
  "schedule_load block =
     fold (\<lambda>i schedule. schedule[i :=
         push_bit 24 (ucast (block ! (i * 4))) OR
         push_bit 16 (ucast (block ! (i * 4 + 1))) OR
         push_bit 8 (ucast (block ! (i * 4 + 2))) OR
         ucast (block ! (i * 4 + 3))])
       [0..<16] (replicate 80 0)"

definition schedule_expand :: "u32 list \<Rightarrow> u32 list" where
  "schedule_expand schedule =
     fold (\<lambda>i schedule. schedule[i :=
         leftRotate (schedule ! (i - 3) XOR schedule ! (i - 8) XOR
                     schedule ! (i - 14) XOR schedule ! (i - 16)) 1])
       [16..<80] schedule"

definition round_f :: "nat \<Rightarrow> u32 \<Rightarrow> u32 \<Rightarrow> u32 \<Rightarrow> u32" where
  "round_f i b c d =
     (if i < 20 then (b AND c) OR (NOT b AND d)
      else if i < 40 then b XOR c XOR d
      else if i < 60 then (b AND c) OR (b AND d) OR (c AND d)
      else b XOR c XOR d)"

definition round_k :: "nat \<Rightarrow> u32" where
  "round_k i =
     (if i < 20 then 0x5A827999
      else if i < 40 then 0x6ED9EBA1
      else if i < 60 then 0x8F1BBCDC
      else 0xCA62C1D6)"

type_synonym regs = "u32 \<times> u32 \<times> u32 \<times> u32 \<times> u32"

fun sha1_round :: "u32 list \<Rightarrow> nat \<Rightarrow> regs \<Rightarrow> regs" where
  "sha1_round schedule i (a, b, c, d, e) =
     (leftRotate a 5 + round_f i b c d + e + round_k i + schedule ! i, a, leftRotate b 30, c, d)"

definition processBlock :: "sha1 \<Rightarrow> bytes \<Rightarrow> sha1" where
  "processBlock s block =
     (let schedule = schedule_expand (schedule_load block);
          st = sha_state s
      in case fold (sha1_round schedule) [0..<80] (st ! 0, st ! 1, st ! 2, st ! 3, st ! 4) of
           (a, b, c, d, e) \<Rightarrow>
             s\<lparr>sha_state := [st ! 0 + a, st ! 1 + b, st ! 2 + c, st ! 3 + d, st ! 4 + e]\<rparr>)"

partial_function (option) sha1_update_loop :: "sha1 \<Rightarrow> bytes \<Rightarrow> sha1 option" where
  "sha1_update_loop s data =
     (if data = [] then Some s
      else let copyLength = min (length data) (64 - blockLength s);
               s1 = s\<lparr>sha_block := write_at (blockLength s) (take copyLength data) (sha_block s),
                      blockLength := blockLength s + copyLength\<rparr>;
               s2 = (if blockLength s1 = 64 then (processBlock s1 (sha_block s1))\<lparr>blockLength := 0\<rparr> else s1)
           in sha1_update_loop s2 (drop copyLength data))"

definition sha1_update :: "sha1 \<Rightarrow> bytes \<Rightarrow> sha1 option" where
  "sha1_update s data =
     sha1_update_loop (s\<lparr>totalBits := totalBits s + of_nat (length data) * 8\<rparr>) data"

definition append_block :: "bytes \<Rightarrow> sha1 \<Rightarrow> sha1" where
  "append_block bs s =
     s\<lparr>sha_block := write_at (blockLength s) bs (sha_block s),
       blockLength := blockLength s + length bs\<rparr>"

definition be_bytes64 :: "u64 \<Rightarrow> bytes" where
  "be_bytes64 w = map (\<lambda>i. ucast (drop_bit (i * 8) w AND 0xFF)) [7, 6, 5, 4, 3, 2, 1, 0]"

definition be_bytes32 :: "u32 \<Rightarrow> bytes" where
  "be_bytes32 w =
     [ucast (drop_bit 24 w AND 0xFF), ucast (drop_bit 16 w AND 0xFF),
      ucast (drop_bit 8 w AND 0xFF), ucast (w AND 0xFF)]"

definition sha1_finalize :: "sha1 \<Rightarrow> bytes" where
  "sha1_finalize s =
     (let s1 = append_block [0x80] s;
          s2 = (if blockLength s1 > 56
                then let t = append_block (replicate (64 - blockLength s1) 0) s1
                     in (processBlock t (sha_block t))\<lparr>blockLength := 0\<rparr>
                else s1);
          s3 = append_block (replicate (56 - blockLength s2) 0) s2;
          s4 = append_block (be_bytes64 (totalBits s3)) s3;
          s5 = processBlock s4 (sha_block s4)
      in concat (map be_bytes32 (sha_state s5)))"

definition sha1Digest :: "string \<Rightarrow> string option" where
  "sha1Digest input =
     map_option (\<lambda>s. string_of_bytes (sha1_finalize s)) (sha1_update sha1_reset (bytes_of_string input))"

subsection \<open>SHA-1 as FIPS 180-4 states it\<close>

function fips_W :: "bytes \<Rightarrow> nat \<Rightarrow> u32" where
  "fips_W M t =
     (if t < 16 then be_join (take 4 (drop (4 * t) M))
      else word_rotl 1 (fips_W M (t - 3) XOR fips_W M (t - 8) XOR fips_W M (t - 14) XOR fips_W M (t - 16)))"
  by pat_completeness auto
termination
  by (relation "measure snd") auto

definition fips_f :: "nat \<Rightarrow> u32 \<Rightarrow> u32 \<Rightarrow> u32 \<Rightarrow> u32" where
  "fips_f t x y z =
     (if t < 20 then (x AND y) XOR (NOT x AND z)
      else if 40 \<le> t \<and> t < 60 then (x AND y) XOR (x AND z) XOR (y AND z)
      else x XOR y XOR z)"

definition fips_K :: "nat \<Rightarrow> u32" where
  "fips_K t = [0x5A827999, 0x6ED9EBA1, 0x8F1BBCDC, 0xCA62C1D6] ! (t div 20)"

fun fips_round :: "bytes \<Rightarrow> nat \<Rightarrow> regs \<Rightarrow> regs" where
  "fips_round M t (a, b, c, d, e) =
     (word_rotl 5 a + fips_f t b c d + e + fips_K t + fips_W M t, a, word_rotl 30 b, c, d)"

fun fips_rounds :: "bytes \<Rightarrow> nat \<Rightarrow> regs \<Rightarrow> regs" where
  "fips_rounds M 0 r = r"
| "fips_rounds M (Suc t) r = fips_round M t (fips_rounds M t r)"

fun fips_compress :: "bytes \<Rightarrow> regs \<Rightarrow> regs" where
  "fips_compress M (h0, h1, h2, h3, h4) =
     (case fips_rounds M 80 (h0, h1, h2, h3, h4) of
        (a, b, c, d, e) \<Rightarrow> (h0 + a, h1 + b, h2 + c, h3 + d, h4 + e))"

fun fips_blocks :: "bytes \<Rightarrow> bytes list" where
  "fips_blocks bs = (if bs = [] then [] else take 64 bs # fips_blocks (drop 64 bs))"

declare fips_W.simps [simp del] fips_blocks.simps [simp del]

definition fips_pad :: "bytes \<Rightarrow> bytes" where
  "fips_pad msg =
     msg @ 0x80 # replicate ((119 - length msg mod 64) mod 64) 0
         @ be_split 8 (of_nat (8 * length msg) :: u64)"

definition fips_init :: regs where
  "fips_init = (0x67452301, 0xEFCDAB89, 0x98BADCFE, 0x10325476, 0xC3D2E1F0)"

fun fips_digest :: "regs \<Rightarrow> bytes" where
  "fips_digest (a, b, c, d, e) =
     be_split 4 a @ be_split 4 b @ be_split 4 c @ be_split 4 d @ be_split 4 e"

definition fips_sha1 :: "bytes \<Rightarrow> bytes" where
  "fips_sha1 msg = fips_digest (fold fips_compress (fips_blocks (fips_pad msg)) fips_init)"

subsection \<open>The compression function\<close>

lemma u32_bit_high [simp]: "32 \<le> n \<Longrightarrow> \<not> bit (w :: u32) n"
  using bit_imp_le_length [of w n] by auto

lemma leftRotate_rotl:
  assumes "0 < k" "k < 32"
  shows "leftRotate w k = word_rotl k w"
proof (rule bit_word_eqI)
  fix n
  assume n: "n < LENGTH(32)"
  have r: "(n + (32 - k)) mod 32 = (if k \<le> n then n - k else 32 - k + n)"
    using assms n by (auto simp: mod_if)
  have "bit (word_rotl k w) n = bit w ((n + (32 - k)) mod 32)"
    using assms n by (simp only: bit_word_rotl_iff) simp
  also have "\<dots> = bit (leftRotate w k) n"
    using assms n unfolding r by (auto simp: leftRotate_def bit_simps)
  finally show "bit (leftRotate w k) n = bit (word_rotl k w) n" ..
qed

lemma round_f_fips: "round_f i b c d = fips_f i b c d"
  by (rule bit_word_eqI) (auto simp: round_f_def fips_f_def bit_simps)

lemma round_k_fips: "t < 80 \<Longrightarrow> round_k t = fips_K t"
proof -
  assume "t < 80"
  then consider "t < 20" | "20 \<le> t" "t < 40" | "40 \<le> t" "t < 60" | "60 \<le> t" "t < 80" by force
  then show ?thesis by cases (simp_all add: round_k_def fips_K_def div_if)
qed

lemma be_bytes64_split: "be_bytes64 w = be_split 8 w"
  by (simp add: be_bytes64_def be_split_def be_byte [symmetric] upt_rec)

lemma be_bytes32_split: "be_bytes32 w = be_split 4 w"
  using be_byte [of 3 w] be_byte [of 2 w] be_byte [of 1 w] be_byte [of 0 w]
  by (simp add: be_bytes32_def be_split_def upt_rec)

lemma be_join4: "be_join [a, b, c, d] =
   (push_bit 24 (ucast a) OR push_bit 16 (ucast b) OR push_bit 8 (ucast c) OR ucast d :: u32)"
proof -
  show ?thesis
    using be_join_snoc [of "[a, b, c]" d, where 'a = 32] be_join_snoc [of "[a, b]" c, where 'a = 32]
      be_join_snoc [of "[a]" b, where 'a = 32] be_join_snoc [of "[]" a, where 'a = 32]
    by (simp add: or.assoc)
qed

text \<open>The in-place array loops of \<open>processBlock\<close>: a pass that writes slot after slot.\<close>

lemma schedule_load_nth:
  assumes "length block = 64" "m \<le> 16"
  defines "step \<equiv> \<lambda>i schedule. schedule[i :=
         push_bit 24 (ucast (block ! (i * 4))) OR
         push_bit 16 (ucast (block ! (i * 4 + 1))) OR
         push_bit 8 (ucast (block ! (i * 4 + 2))) OR
         ucast (block ! (i * 4 + 3)) :: u32]"
  shows "length (fold step [0..<m] (replicate 80 0)) = 80 \<and>
    (\<forall>t<m. fold step [0..<m] (replicate 80 0) ! t = fips_W block t)"
  using assms(2)
proof (induction m)
  case 0
  then show ?case by simp
next
  case (Suc m)
  have "take 4 (drop (4 * m) block) =
      [block ! (m * 4), block ! (m * 4 + 1), block ! (m * 4 + 2), block ! (m * 4 + 3)]"
    using assms(1) Suc.prems
    by (intro nth_equalityI) (auto simp: less_Suc_eq numeral_eq_Suc mult.commute)
  then have "step m xs = xs[m := fips_W block m]" for xs
    using Suc.prems by (simp add: step_def fips_W.simps [of block m] be_join4)
  with Suc show ?case by (auto simp: nth_list_update less_Suc_eq)
qed

lemma schedule_expand_nth:
  assumes "m \<le> 64" "length sch = 80" "\<forall>t<16. sch ! t = fips_W block t"
  defines "step \<equiv> \<lambda>i schedule. schedule[i :=
         leftRotate (schedule ! (i - 3) XOR schedule ! (i - 8) XOR
                     schedule ! (i - 14) XOR schedule ! (i - 16)) 1]"
  shows "length (fold step [16..<16 + m] sch) = 80 \<and>
    (\<forall>t<16 + m. fold step [16..<16 + m] sch ! t = fips_W block t)"
  using assms(1)
proof (induction m)
  case 0
  then show ?case using assms by simp
next
  case (Suc m)
  let ?xs = "fold step [16..<16 + m] sch"
  have "step (16 + m) ?xs = ?xs[16 + m := fips_W block (16 + m)]"
    using Suc unfolding step_def fips_W.simps [of block "16 + m"] by (simp add: leftRotate_rotl)
  moreover have "fold step [16..<16 + Suc m] sch = step (16 + m) ?xs"
    by (simp only: add_Suc_right upt_Suc_append le_add1 fold_append fold_simps comp_apply)
  ultimately show ?case using Suc by (auto simp: nth_list_update less_Suc_eq)
qed

lemma schedule_fips:
  assumes "length block = 64" "t < 80"
  shows "schedule_expand (schedule_load block) ! t = fips_W block t"
  using schedule_expand_nth [of 64 "schedule_load block" block]
    schedule_load_nth [of block 16] assms
  by (simp add: schedule_expand_def schedule_load_def del: upt_rec_numeral)

lemma rounds_fips:
  assumes "\<forall>t<n. sch ! t = fips_W M t" "n \<le> 80"
  shows "fold (sha1_round sch) [0..<n] r = fips_rounds M n r"
  using assms
proof (induction n)
  case 0
  then show ?case by simp
next
  case (Suc n)
  then show ?case
    by (cases "fips_rounds M n r") (simp add: leftRotate_rotl round_f_fips round_k_fips)
qed

fun list_of_regs :: "regs \<Rightarrow> u32 list" where
  "list_of_regs (a, b, c, d, e) = [a, b, c, d, e]"

lemma processBlock_fips:
  assumes "length block = 64" "sha_state s = list_of_regs r"
  shows "processBlock s block = s\<lparr>sha_state := list_of_regs (fips_compress block r)\<rparr>"
proof -
  obtain a b c d e where r: "r = (a, b, c, d, e)" by (cases r)
  have "fold (sha1_round (schedule_expand (schedule_load block))) [0..<80] r = fips_rounds block 80 r"
    by (rule rounds_fips) (simp_all add: schedule_fips assms)
  then show ?thesis
    using assms by (simp add: processBlock_def r Let_def split: prod.splits del: upt_rec_numeral)
qed

subsection \<open>Buffering\<close>

lemma fips_blocks_append:
  "64 dvd length xs \<Longrightarrow> fips_blocks (xs @ ys) = fips_blocks xs @ fips_blocks ys"
proof (induction xs rule: fips_blocks.induct)
  case (1 xs)
  show ?case
  proof (cases "xs = []")
    case True
    then show ?thesis by (simp add: fips_blocks.simps)
  next
    case False
    with 1(2) have "64 \<le> length xs" by (auto dest: dvd_imp_le)
    with False 1 show ?thesis
      by (simp add: fips_blocks.simps [of "xs @ ys"] fips_blocks.simps [of xs])
  qed
qed

lemma fips_blocks_single: "length b = 64 \<Longrightarrow> fips_blocks b = [b]"
  by (auto simp: fips_blocks.simps)

definition fips_chain :: "bytes \<Rightarrow> regs" where
  "fips_chain p = fold fips_compress (fips_blocks p) fips_init"

lemma fips_chain_snoc:
  "64 dvd length p \<Longrightarrow> length b = 64 \<Longrightarrow> fips_chain (p @ b) = fips_compress b (fips_chain p)"
  by (simp add: fips_chain_def fips_blocks_append fips_blocks_single)

text \<open>The object has taken in the bytes \<open>p\<close>: its full blocks are in the chaining value, the
  rest is the used part of the buffer.\<close>

definition absorbed :: "sha1 \<Rightarrow> bytes \<Rightarrow> bool" where
  "absorbed s p \<longleftrightarrow>
     (\<exists>full. p = full @ take (blockLength s) (sha_block s) \<and> 64 dvd length full \<and>
        sha_state s = list_of_regs (fips_chain full)) \<and>
     blockLength s < 64 \<and> length (sha_block s) = 64"

lemma absorbed_reset: "absorbed sha1_reset []"
  by (auto simp: absorbed_def sha1_reset_def fips_chain_def fips_blocks.simps fips_init_def)

lemma absorbed_mod: "absorbed s p \<Longrightarrow> length p mod 64 = blockLength s"
  by (auto simp: absorbed_def elim!: dvdE)

definition absorb :: "bytes \<Rightarrow> sha1 \<Rightarrow> sha1" where
  "absorb bs s =
     (let s1 = append_block bs s
      in if blockLength s1 = 64 then (processBlock s1 (sha_block s1))\<lparr>blockLength := 0\<rparr> else s1)"

lemma absorbed_absorb:
  assumes "absorbed s p" "length bs \<le> 64 - blockLength s"
  shows "absorbed (absorb bs s) (p @ bs)" "totalBits (absorb bs s) = totalBits s"
proof -
  let ?s = "append_block bs s"
  from assms obtain full where full: "p = full @ take (blockLength s) (sha_block s)" "64 dvd length full"
      "sha_state s = list_of_regs (fips_chain full)" "blockLength s < 64" "length (sha_block s) = 64"
    by (auto simp: absorbed_def)
  have blk: "take (blockLength ?s) (sha_block ?s) = take (blockLength s) (sha_block s) @ bs"
      "length (sha_block ?s) = 64" "sha_state ?s = sha_state s" "totalBits ?s = totalBits s"
      "blockLength ?s \<le> 64"
    using full assms(2) by (simp_all add: append_block_def write_at_def)
  have pB: "processBlock ?s (sha_block ?s) =
      ?s\<lparr>sha_state := list_of_regs (fips_compress (sha_block ?s) (fips_chain full))\<rparr>"
    using blk full by (intro processBlock_fips) simp_all
  show "totalBits (absorb bs s) = totalBits s"
    using pB blk by (simp add: absorb_def Let_def)
  show "absorbed (absorb bs s) (p @ bs)"
  proof (cases "blockLength ?s = 64")
    case True
    with blk have "sha_block ?s = take (blockLength s) (sha_block s) @ bs" by simp
    with True pB blk full show ?thesis
      by (auto simp: absorb_def absorbed_def fips_chain_snoc intro!: exI [of _ "p @ bs"])
  next
    case False
    with blk full show ?thesis
      by (auto simp: absorb_def absorbed_def)
  qed
qed

lemma sha1_update_loop_absorb:
  "sha1_update_loop s data =
     (if data = [] then Some s
      else let n = min (length data) (64 - blockLength s)
           in sha1_update_loop (absorb (take n data) s) (drop n data))"
  by (subst sha1_update_loop.simps) (simp add: absorb_def append_block_def Let_def min_def)

lemma sha1_update_loop_absorbed:
  assumes "absorbed s p"
  shows "\<exists>s'. sha1_update_loop s data = Some s' \<and> absorbed s' (p @ data) \<and> totalBits s' = totalBits s"
  using assms
proof (induction "length data" arbitrary: s p data rule: less_induct)
  case less
  show ?case
  proof (cases "data = []")
    case True
    with less.prems show ?thesis by (simp add: sha1_update_loop_absorb)
  next
    case False
    define n where "n = min (length data) (64 - blockLength s)"
    have n: "0 < n" "n \<le> 64 - blockLength s"
      using False less.prems by (auto simp: n_def absorbed_def)
    with less.prems have abs: "absorbed (absorb (take n data) s) (p @ take n data)"
        "totalBits (absorb (take n data) s) = totalBits s"
      by (auto intro!: absorbed_absorb)
    from less.hyps [OF _ abs(1), of "drop n data"] abs(2) n False show ?thesis
      by (simp add: sha1_update_loop_absorb [of s data] n_def [symmetric] Let_def)
  qed
qed

lemma append_block_append:
  "blockLength s + length a + length b \<le> 64 \<Longrightarrow> length (sha_block s) = 64 \<Longrightarrow>
   append_block b (append_block a s) = append_block (a @ b) s"
  by (simp add: append_block_def write_at_def ac_simps)

lemma append_block_fields [simp]:
  "blockLength (append_block bs s) = blockLength s + length bs"
  "totalBits (append_block bs s) = totalBits s"
  by (simp_all add: append_block_def)

lemma absorb_full:
  "blockLength s + length bs = 64 \<Longrightarrow>
   absorb bs s = (processBlock (append_block bs s) (sha_block (append_block bs s)))\<lparr>blockLength := 0\<rparr>"
  by (simp add: absorb_def Let_def)

lemma absorbed_aligned: "absorbed s p \<Longrightarrow> blockLength s = 0 \<Longrightarrow> sha_state s = list_of_regs (fips_chain p)"
  by (auto simp: absorbed_def)

lemma digest_bytes: "concat (map be_bytes32 (list_of_regs r)) = fips_digest r"
  by (cases r) (simp add: be_bytes32_split)

text \<open>Padding: the second half of \<open>finalize\<close>, from a buffer with at most 56 bytes used.\<close>

lemma finalize_tail:
  assumes "absorbed s p" "blockLength s + length z + 8 = 64" "length l = 8"
  shows "concat (map be_bytes32 (sha_state (let s4 = append_block l (append_block z s) in processBlock s4 (sha_block s4))))
       = fips_digest (fips_chain (p @ z @ l))"
proof -
  have app: "append_block l (append_block z s) = append_block (z @ l) s"
    using assms by (intro append_block_append) (auto simp: absorbed_def)
  have "absorbed (absorb (z @ l) s) (p @ z @ l)"
    using assms by (intro absorbed_absorb) auto
  then have "sha_state (absorb (z @ l) s) = list_of_regs (fips_chain (p @ z @ l))"
    by (rule absorbed_aligned) (use assms in \<open>simp add: absorb_full\<close>)
  then show ?thesis
    using assms by (simp add: app Let_def digest_bytes absorb_full)
qed

lemma sha1_finalize_fips:
  assumes "absorbed s msg" "totalBits s = of_nat (8 * length msg)"
  shows "sha1_finalize s = fips_sha1 msg"
proof -
  let ?l = "be_bytes64 (totalBits s)" and ?b = "blockLength s"
  have b: "?b < 64" "length (sha_block s) = 64" using assms by (auto simp: absorbed_def)
  have l: "length ?l = 8" by (simp add: be_bytes64_split)
  have pad: "fips_sha1 msg = fips_digest (fips_chain (msg @ 0x80 # replicate ((119 - ?b) mod 64) 0 @ ?l))"
    using assms absorbed_mod [OF assms(1)]
    by (simp add: fips_sha1_def fips_chain_def fips_pad_def be_bytes64_split)
  show ?thesis
  proof (cases "?b < 56")
    case True
    let ?s1 = "append_block [0x80] s"
    have s1: "absorb [0x80] s = ?s1" using True by (simp add: absorb_def)
    have "absorbed ?s1 (msg @ [0x80])" "totalBits ?s1 = totalBits s"
      using absorbed_absorb [OF assms(1), of "[0x80]"] b by (auto simp: s1)
    with finalize_tail [of ?s1 "msg @ [0x80]" "replicate (55 - ?b) 0" ?l] True l
    show ?thesis by (simp add: sha1_finalize_def pad Let_def mod_if)
  next
    case False
    let ?z = "0x80 # replicate (63 - ?b) 0"
    have "absorb ?z s = (processBlock (append_block ?z s) (sha_block (append_block ?z s)))\<lparr>blockLength := 0\<rparr>"
      using b by (intro absorb_full) simp
    moreover have "append_block (replicate (63 - ?b) 0) (append_block [0x80] s) = append_block ?z s"
      using b by (simp add: append_block_append)
    moreover have "absorbed (absorb ?z s) (msg @ ?z)" "totalBits (absorb ?z s) = totalBits s"
      using absorbed_absorb [OF assms(1), of ?z] b by auto
    moreover have "fips_sha1 msg = fips_digest (fips_chain ((msg @ ?z) @ replicate 56 0 @ ?l))"
    proof -
      have "replicate ((119 - ?b) mod 64) (0 :: byte) = replicate (63 - ?b) 0 @ replicate 56 0"
        using b False by (simp only: replicate_add [symmetric]) simp
      then show ?thesis unfolding pad by (simp only: append_assoc append_Cons)
    qed
    ultimately show ?thesis
      using finalize_tail [of "absorb ?z s" "msg @ ?z" "replicate 56 0" ?l] False l b
      by (simp add: sha1_finalize_def Let_def)
  qed
qed

lemma length_fips_sha1: "length (fips_sha1 msg) = 20"
proof -
  have "length (fips_digest r) = 20" for r by (cases r) simp
  then show ?thesis by (simp add: fips_sha1_def)
qed

lemma sha1Digest_correct: "sha1Digest input = Some (string_of_bytes (fips_sha1 (bytes_of_string input)))"
proof -
  let ?data = "bytes_of_string input"
  have "absorbed (sha1_reset\<lparr>totalBits := n\<rparr>) []" for n
    using absorbed_reset by (simp add: absorbed_def)
  from sha1_update_loop_absorbed [OF this, of "of_nat (length ?data) * 8" ?data]
  obtain s where "sha1_update sha1_reset ?data = Some s" "absorbed s ?data"
      "totalBits s = of_nat (8 * length ?data)"
    by (auto simp: sha1_update_def sha1_reset_def)
  then show ?thesis by (simp add: sha1Digest_def sha1_finalize_fips)
qed

text \<open>C15: SHA-1. For every input text, of any length, \<open>sha1Digest\<close> returns, and its twenty bytes
  are the FIPS 180-4 digest of the input: the buffering in \<open>update\<close>, the two padding branches
  of \<open>finalize\<close> and the unrolled compression function together compute the digest of the
  padded message.\<close>

theorem sha1Digest_fips:
  "sha1Digest input = Some (string_of_bytes (fips_sha1 (bytes_of_string input))) \<and>
   length (fips_sha1 (bytes_of_string input)) = 20"
  by (simp add: sha1Digest_correct length_fips_sha1)

end
