(* ===== verification/WS_Frames.thy ===== *)
theory WS_Frames
  imports Base64 Sha1
begin

text \<open>
  The WebSocket helpers of \<open>src/src/WebSocketProtocol.cpp\<close>: opcodes, the frame encoder, the
  three decoder overloads, close-code validation and the opening handshake.

  The random generator behind mask keys and handshake keys (a \<open>std::mt19937_64\<close> seeded from
  \<open>std::random_device\<close>) is an argument: a function \<open>engine\<close> from a generator state to its next
  64-bit output and the next state. Every result holds for every generator.

  A decoder has the Boolean result and both output parameters as its value; \<open>metadata\<close> is
  also an argument because the decoder leaves it alone when fewer than two bytes are given.
\<close>

subsection \<open>Frame types and opcodes\<close>

datatype WSFrameType = Text | Binary | Close | Ping | Pong

record WSFrameMetadata =
  md_type :: WSFrameType
  md_final :: bool
  md_masked :: bool

definition WSFrameMetadata_init :: WSFrameMetadata where
  "WSFrameMetadata_init = \<lparr>md_type = Text, md_final = True, md_masked = False\<rparr>"

fun opcodeForType :: "WSFrameType \<Rightarrow> byte" where
  "opcodeForType Text = 0x01"
| "opcodeForType Binary = 0x02"
| "opcodeForType Close = 0x08"
| "opcodeForType Ping = 0x09"
| "opcodeForType Pong = 0x0A"

definition frameTypeFromOpcode :: "byte \<Rightarrow> WSFrameType option" where
  "frameTypeFromOpcode opcode =
     (if opcode = 0x01 then Some Text
      else if opcode = 0x02 then Some Binary
      else if opcode = 0x08 then Some Close
      else if opcode = 0x09 then Some Ping
      else if opcode = 0x0A then Some Pong
      else None)"

definition isControlOpcode :: "byte \<Rightarrow> bool" where
  "isControlOpcode opcode \<longleftrightarrow> opcode = 0x08 \<or> opcode = 0x09 \<or> opcode = 0x0A"

definition isControlFrame :: "WSFrameType \<Rightarrow> bool" where
  "isControlFrame type \<longleftrightarrow> type = Close \<or> type = Ping \<or> type = Pong"

subsection \<open>Random bytes\<close>

type_synonym 'g engine = "'g \<Rightarrow> u64 \<times> 'g"

text \<open>\<open>memcpy\<close> out of a \<open>uint64_t\<close> on the little-endian targets of the library.\<close>

definition le_bytes64 :: "u64 \<Rightarrow> bytes" where
  "le_bytes64 w = map (\<lambda>i. ucast (drop_bit (8 * i) w)) [0..<8]"

fun fillRandomBytes :: "'g engine \<Rightarrow> 'g \<Rightarrow> nat \<Rightarrow> bytes \<times> 'g" where
  "fillRandomBytes engine g len =
     (if len \<ge> 8
      then let (value, g1) = engine g; (rest, g2) = fillRandomBytes engine g1 (len - 8)
           in (le_bytes64 value @ rest, g2)
      else if len > 0
      then let (value, g1) = engine g in (take len (le_bytes64 value), g1)
      else ([], g))"

definition generateMaskKey :: "'g engine \<Rightarrow> 'g \<Rightarrow> bytes \<times> 'g" where
  "generateMaskKey engine g = fillRandomBytes engine g 4"

subsection \<open>Encoding\<close>

definition frameHeaderSize :: "u64 \<Rightarrow> bool \<Rightarrow> nat" where
  "frameHeaderSize payloadLength masked =
     2 + (if payloadLength \<ge> 126 \<and> payloadLength \<le> 0xFFFF then 2
          else if payloadLength > 0xFFFF then 8 else 0)
       + (if masked then 4 else 0)"

definition writePayloadLength :: "u64 \<Rightarrow> bool \<Rightarrow> bytes" where
  "writePayloadLength payloadLength masked =
     (let maskBit = (if masked then 0x80 else 0x00)
      in if payloadLength < 126 then [ucast (maskBit OR payloadLength)]
         else if payloadLength \<le> 0xFFFF
         then [ucast (maskBit OR 126 :: u64), ucast (drop_bit 8 payloadLength AND 0xFF),
               ucast (payloadLength AND 0xFF)]
         else ucast (maskBit OR 127 :: u64) #
              map (\<lambda>shift. ucast (drop_bit shift payloadLength AND 0xFF)) [56, 48, 40, 32, 24, 16, 8, 0])"

definition xor_mask :: "bytes \<Rightarrow> bytes \<Rightarrow> bytes" where
  "xor_mask maskKey bs = map (\<lambda>i. bs ! i XOR maskKey ! (i AND 0x03)) [0..<length bs]"

text \<open>The frame is written in place into a string of \<open>headerSize + data.size()\<close> zero bytes.\<close>

definition encodeFrame :: "'g engine \<Rightarrow> 'g \<Rightarrow> string \<Rightarrow> WSFrameType \<Rightarrow> bool \<Rightarrow> string \<times> 'g" where
  "encodeFrame engine g data type maskPayload =
     (let bytes = bytes_of_string data;
          payloadLength = of_nat (length data);
          headerSize = frameHeaderSize payloadLength maskPayload;
          frame0 = replicate (headerSize + length data) 0;
          frame1 = write_at 0 [0x80 OR opcodeForType type] frame0;
          lengthField = writePayloadLength payloadLength maskPayload;
          frame2 = write_at 1 lengthField frame1;
          offset = 1 + length lengthField
      in if \<not> maskPayload then (string_of_bytes (write_at offset bytes frame2), g)
         else let (maskKey, g1) = generateMaskKey engine g;
                  frame3 = write_at offset maskKey frame2
              in (string_of_bytes (write_at (offset + length maskKey) (xor_mask maskKey bytes) frame3), g1))"

definition encodeFrame_buffer :: "'g engine \<Rightarrow> 'g \<Rightarrow> bytes \<Rightarrow> WSFrameType \<Rightarrow> bool \<Rightarrow> string \<times> 'g" where
  "encodeFrame_buffer engine g data type maskPayload =
     encodeFrame engine g (string_of_bytes data) type maskPayload"

subsection \<open>Decoding\<close>

definition isValidClosePayload :: "string \<Rightarrow> bool" where
  "isValidClosePayload payload =
     (if payload = [] then True
      else if length payload = 1 then False
      else let code = push_bit 8 (ucast (byte_of_char (payload ! 0))) OR
                      ucast (byte_of_char (payload ! 1)) :: u16
           in if code < 1000 then False
              else if code = 1004 \<or> code = 1005 \<or> code = 1006 \<or> code = 1015 then False
              else if (code \<ge> 1016 \<and> code \<le> 1999) \<or> (code \<ge> 2000 \<and> code \<le> 2999) then False
              else True)"

text \<open>The length field, with the offset just behind it; the two wider encodings must be minimal.\<close>

definition readPayloadLength :: "bytes \<Rightarrow> byte \<Rightarrow> nat \<Rightarrow> (u64 \<times> nat) option" where
  "readPayloadLength bytes secondByte offset =
     (let payloadLength = ucast (secondByte AND 0x7F)
      in if payloadLength = 126 then
           (if offset + 2 > length bytes then None
            else let payloadLength = push_bit 8 (ucast (bytes ! offset)) OR ucast (bytes ! (offset + 1))
                 in if payloadLength < 126 then None else Some (payloadLength, offset + 2))
         else if payloadLength = 127 then
           (if offset + 8 > length bytes then None
            else let payloadLength =
                       foldl (\<lambda>n b. push_bit 8 n OR ucast b) 0 (take 8 (drop offset bytes))
                 in if payloadLength \<le> 0xFFFF \<or> payloadLength AND push_bit 63 1 \<noteq> 0 then None
                    else Some (payloadLength, offset + 8))
         else Some (payloadLength, offset))"

definition decodeFrame :: "string \<Rightarrow> WSFrameMetadata \<Rightarrow> bool \<times> string \<times> WSFrameMetadata" where
  "decodeFrame data metadata =
     (if length data < 2 then (False, [], metadata)
      else
        let bytes = bytes_of_string data;
            firstByte = bytes ! 0;
            secondByte = bytes ! 1;
            fin = (firstByte AND 0x80 \<noteq> 0);
            reservedBits = firstByte AND 0x70;
            opcode = firstByte AND 0x0F
        in if reservedBits \<noteq> 0 then (False, [], WSFrameMetadata_init)
           else case frameTypeFromOpcode opcode of
             None \<Rightarrow> (False, [], WSFrameMetadata_init)
           | Some type \<Rightarrow>
             (let metadata = WSFrameMetadata_init\<lparr>md_type := type\<rparr>
              in case readPayloadLength bytes secondByte 2 of
                None \<Rightarrow> (False, [], metadata)
              | Some (payloadLength, offset) \<Rightarrow>
                (let metadata = metadata\<lparr>md_final := fin, md_masked := (secondByte AND 0x80 \<noteq> 0)\<rparr>
                 in if isControlOpcode opcode \<and> (\<not> fin \<or> payloadLength > 125) then (False, [], metadata)
                    else if unat payloadLength > size_max then (False, [], metadata)
                    else if md_masked metadata \<and> offset + 4 > length data then (False, [], metadata)
                    else
                      let maskKey = (if md_masked metadata then take 4 (drop offset bytes) else replicate 4 0);
                          offset = (if md_masked metadata then offset + length maskKey else offset)
                      in if offset > length data \<or> unat payloadLength > length data - offset
                         then (False, [], metadata)
                         else
                           let payloadSize = unat payloadLength;
                               payload =
                                 (if \<not> md_masked metadata then substr data offset payloadSize
                                  else map (\<lambda>i. char_of_byte (bytes ! (offset + i) XOR maskKey ! (i AND 0x03)))
                                         [0..<payloadSize])
                           in if md_type metadata = Close \<and> \<not> isValidClosePayload payload
                              then (False, payload, metadata)
                              else (True, payload, metadata))))"

definition decodeFrame_buffer ::
  "string \<Rightarrow> WSFrameMetadata \<Rightarrow> bool \<times> bytes \<times> WSFrameMetadata" where
  "decodeFrame_buffer data metadata =
     (if length data < 2 then (False, [], metadata)
      else
        let bytes = bytes_of_string data;
            firstByte = bytes ! 0;
            secondByte = bytes ! 1;
            fin = (firstByte AND 0x80 \<noteq> 0);
            reservedBits = firstByte AND 0x70;
            opcode = firstByte AND 0x0F
        in if reservedBits \<noteq> 0 then (False, [], WSFrameMetadata_init)
           else case frameTypeFromOpcode opcode of
             None \<Rightarrow> (False, [], WSFrameMetadata_init)
           | Some type \<Rightarrow>
             (let metadata = WSFrameMetadata_init\<lparr>md_type := type\<rparr>
              in case readPayloadLength bytes secondByte 2 of
                None \<Rightarrow> (False, [], metadata)
              | Some (payloadLength, offset) \<Rightarrow>
                (let metadata = metadata\<lparr>md_final := fin, md_masked := (secondByte AND 0x80 \<noteq> 0)\<rparr>
                 in if isControlOpcode opcode \<and> (\<not> fin \<or> payloadLength > 125) then (False, [], metadata)
                    else if unat payloadLength > size_max then (False, [], metadata)
                    else if md_masked metadata \<and> offset + 4 > length data then (False, [], metadata)
                    else
                      let maskKey = (if md_masked metadata then take 4 (drop offset bytes) else replicate 4 0);
                          offset = (if md_masked metadata then offset + length maskKey else offset)
                      in if offset > length data \<or> unat payloadLength > length data - offset
                         then (False, [], metadata)
                         else
                           let payloadSize = unat payloadLength;
                               payload0 = replicate payloadSize 0;
                               payload =
                                 (if \<not> md_masked metadata
                                  then if payloadSize \<noteq> 0
                                       then write_at 0 (substr bytes offset payloadSize) payload0
                                       else payload0
                                  else map (\<lambda>i. bytes ! (offset + i) XOR maskKey ! (i AND 0x03))
                                         [0..<payloadSize])
                           in if md_type metadata = Close \<and>
                                 \<not> isValidClosePayload (string_of_bytes payload)
                              then (False, payload, metadata)
                              else (True, payload, metadata))))"

text \<open>The overload for complete messages: only \<open>FIN\<close> frames, and \<open>type\<close> untouched on failure.\<close>

definition decodeFrame_fin :: "bytes \<Rightarrow> WSFrameType \<Rightarrow> bool \<times> string \<times> WSFrameType" where
  "decodeFrame_fin data type =
     (case decodeFrame (string_of_bytes data) WSFrameMetadata_init of
        (ok, payload, metadata) \<Rightarrow>
          if \<not> ok then (False, payload, type)
          else if \<not> md_final metadata then (False, payload, type)
          else (True, payload, md_type metadata))"

subsection \<open>The opening handshake\<close>

definition createHandshakeKey :: "'g engine \<Rightarrow> 'g \<Rightarrow> string \<times> 'g" where
  "createHandshakeKey engine g =
     (let (entropy, g1) = fillRandomBytes engine g 16
      in (base64Encode_text (string_of_bytes entropy), g1))"

definition kGuid :: string where
  "kGuid = ''258EAFA5-E914-47DA-95CA-C5AB0DC85B11''"

definition createAcceptKey :: "string \<Rightarrow> string option" where
  "createAcceptKey key = map_option base64Encode_text (sha1Digest (key @ kGuid))"

definition createHandshakeResponse :: "string \<Rightarrow> string option" where
  "createHandshakeResponse key =
     map_option (\<lambda>acceptKey.
       ''HTTP/1.1 101 Switching Protocols'' @ CRLF @
       ''Upgrade: websocket'' @ CRLF @
       ''Connection: Upgrade'' @ CRLF @
       ''Sec-WebSocket-Accept: '' @ acceptKey @ CRLF @ CRLF) (createAcceptKey key)"

subsection \<open>The wire format\<close>

text \<open>RFC 6455, section 5.2, with the shortest length field.\<close>

definition len_field :: "u64 \<Rightarrow> bytes" where
  "len_field w =
     (if w < 126 then [ucast w]
      else if w \<le> 0xFFFF then 126 # be_split 2 w
      else 127 # be_split 8 w)"

definition ws_frame :: "WSFrameMetadata \<Rightarrow> bytes \<Rightarrow> bytes \<Rightarrow> bytes" where
  "ws_frame m key p =
     ((if md_final m then 0x80 else 0) OR opcodeForType (md_type m)) #
     ((if md_masked m then 0x80 else 0) OR hd (len_field (of_nat (length p)))) #
     tl (len_field (of_nat (length p))) @
     (if md_masked m then key @ xor_mask key p else p)"

definition ws_frame_ok :: "WSFrameMetadata \<Rightarrow> bytes \<Rightarrow> bool" where
  "ws_frame_ok m p \<longleftrightarrow>
     length p < 2 ^ 63 \<and>
     (if isControlFrame (md_type m) then md_final m \<and> length p \<le> 125 else True) \<and>
     (if md_type m = Close then isValidClosePayload (string_of_bytes p) else True)"

lemma be_join_unat: "unat (be_join bs :: 'a::len word) < 2 ^ (8 * length bs)"
proof -
  have "take_bit (8 * length bs) (be_join bs :: 'a word) = be_join bs"
    by (rule bit_word_eqI) (auto simp: bit_simps dest: be_join_bit)
  then show ?thesis by (metis take_bit_nat_less_exp unsigned_take_bit_eq)
qed

lemma be_join_foldl: "be_join bs = (foldl (\<lambda>n b. push_bit 8 n OR ucast b) 0 bs :: 'a::len word)"
  by (induction bs rule: rev_induct) (simp_all add: be_join_snoc)

declare fillRandomBytes.simps [simp del]

lemma fillRandomBytes_length: "length (fst (fillRandomBytes engine g n)) = n"
proof (induction engine g n rule: fillRandomBytes.induct)
  case (1 engine g n)
  then show ?case
    by (subst fillRandomBytes.simps) (auto simp: le_bytes64_def Let_def split: prod.splits)
qed

lemma opcode_roundtrip [simp]: "frameTypeFromOpcode (opcodeForType type) = Some type"
  by (cases type) (simp_all add: frameTypeFromOpcode_def)

lemma opcode_Some: "frameTypeFromOpcode op = Some type \<longleftrightarrow> op = opcodeForType type"
  by (cases type) (auto simp: frameTypeFromOpcode_def)

lemma control_opcode [simp]: "isControlOpcode (opcodeForType type) = isControlFrame type"
  by (cases type) (simp_all add: isControlOpcode_def isControlFrame_def)

lemma opcode_bits [simp]:
  "(a OR opcodeForType type) AND 0x70 = a AND 0x70"
  "(a OR opcodeForType type) AND 0x80 = a AND 0x80"
  "opcodeForType type AND 0x0F = opcodeForType type"
  by (cases type; rule byte_bits_eqI; simp add: bit_simps)+

lemma high_bit: "b AND 0x80 = (if b AND 0x80 \<noteq> 0 then 0x80 else (0 :: byte))"
  by (cases "bit b 7") (auto intro!: byte_bits_eqI simp: bit_simps dest: arg_cong [of _ _ "\<lambda>x. bit x 7"])

lemma first_byte:
  assumes "b AND 0x70 = 0" "frameTypeFromOpcode (b AND 0x0F) = Some type"
  shows "b = (if b AND 0x80 \<noteq> 0 then 0x80 else 0) OR opcodeForType type"
proof -
  have "b = (b AND 0x80) OR (b AND 0x70) OR (b AND 0x0F)"
    by (rule byte_bits_eqI) (simp_all add: bit_simps)
  with assms high_bit [of b] show ?thesis by (simp add: opcode_Some)
qed

lemma second_byte: "b = (if b AND 0x80 \<noteq> 0 then 0x80 else 0) OR (b AND 0x7F :: byte)"
proof -
  have "b = (b AND 0x80) OR (b AND 0x7F)"
    by (rule byte_bits_eqI) (simp_all add: bit_simps)
  with high_bit [of b] show ?thesis by simp
qed

lemma u64_msb: "bit (w :: u64) 63 \<longleftrightarrow> 2 ^ 63 \<le> unat w"
proof -
  have "unat w < 2 ^ LENGTH(64)" by (rule unsigned_less)
  then have "unat w div 2 ^ 63 = (if 2 ^ 63 \<le> unat w then 1 else 0)"
    by (auto intro!: div_nat_eqI)
  moreover have "bit w 63 \<longleftrightarrow> odd (unat w div 2 ^ 63)"
    by (simp only: bit_iff_odd [symmetric]) (simp add: bit_simps)
  ultimately show ?thesis by simp
qed

lemma msb_set: "w AND push_bit 63 1 \<noteq> (0 :: u64) \<longleftrightarrow> 2 ^ 63 \<le> unat w"
  by (simp only: bit_iff_and_push_bit_not_eq_0 [symmetric] u64_msb)

lemma take2: "2 \<le> length xs \<Longrightarrow> take 2 xs = [xs ! 0, xs ! 1]"
  by (cases xs; cases "tl xs") auto

lemma length_byte_le: "unat (b AND 0x7F :: byte) \<le> 127"
proof -
  have "b AND 0x7F = take_bit 7 b" by (rule byte_bits_eqI) (simp_all add: bit_simps)
  moreover have "unat (take_bit 7 b) < 2 ^ 7" unfolding unsigned_take_bit_eq by (rule take_bit_nat_less_exp)
  ultimately show ?thesis by simp
qed

lemma length_byte_u64: "unat (ucast (b AND 0x7F :: byte) :: u64) = unat (b AND 0x7F)"
  using length_byte_le [of b] by (simp add: unsigned_ucast_eq take_bit_nat_eq_self)

lemma ucast_byte_u64: "ucast (ucast (b :: byte) :: u64) = b"
  by (rule byte_bits_eqI) (simp_all add: bit_simps)

lemma readPayloadLength_sound:
  assumes "readPayloadLength (b0 # b1 # rest) b1 2 = Some (w, off)"
  shows "\<exists>ext tail. rest = ext @ tail \<and> (b1 AND 0x7F) # ext = len_field w \<and> off = 2 + length ext \<and> unat w < 2 ^ 63"
proof -
  let ?n = "ucast (b1 AND 0x7F) :: u64"
  consider (s) "?n \<noteq> 126" "?n \<noteq> 127" | (m) "?n = 126" | (l) "?n = 127" by blast
  then show ?thesis
  proof cases
    case s
    with assms have "w = ?n" "off = 2" by (auto simp: readPayloadLength_def Let_def)
    moreover have "unat ?n < 126"
    proof -
      have "unat ?n \<noteq> 126" "unat ?n \<noteq> 127" using s by (simp_all add: word_unat_eq_iff)
      then show ?thesis using length_byte_le [of b1] length_byte_u64 [of b1] by linarith
    qed
    ultimately show ?thesis
      by (auto simp: len_field_def word_less_nat_alt ucast_byte_u64)
  next
    case m
    then have bm: "b1 AND 0x7F = 126"
      using ucast_byte_u64 [of "b1 AND 0x7F"] by simp
    from m assms have w: "2 \<le> length rest" "w = be_join (take 2 rest)" "\<not> w < 126" "off = 4"
      by (auto simp: readPayloadLength_def Let_def take2 be_join_foldl split: if_splits)
    have "be_split 2 w = take 2 rest"
      using be_split_join [of "take 2 rest", where 'a = 64] w(1,2) by (simp add: min_absorb2)
    moreover have "unat w < 2 ^ 16"
      using be_join_unat [of "take 2 rest", where 'a = 64] w(1,2) by simp
    ultimately show ?thesis using w bm
      by - (rule exI [of _ "take 2 rest"], rule exI [of _ "drop 2 rest"],
        auto simp: len_field_def word_less_nat_alt word_le_nat_alt)
  next
    case l
    then have bm: "b1 AND 0x7F = 127"
      using ucast_byte_u64 [of "b1 AND 0x7F"] by simp
    from l assms have w: "8 \<le> length rest" "w = be_join (take 8 rest)" "\<not> w \<le> 0xFFFF" "off = 10" "\<not> 2 ^ 63 \<le> unat w"
      by (auto simp: readPayloadLength_def Let_def be_join_foldl msb_set [simplified] split: if_splits)
    have "be_split 8 w = take 8 rest"
      using be_split_join [of "take 8 rest", where 'a = 64] w(1,2) by (simp add: min_absorb2)
    then show ?thesis using w bm
      by - (rule exI [of _ "take 8 rest"], rule exI [of _ "drop 8 rest"],
        auto simp: len_field_def word_less_nat_alt word_le_nat_alt)
  qed
qed


lemma readPayloadLength_complete:
  assumes "(b1 AND 0x7F) # ext = len_field w" "unat w < 2 ^ 63"
  shows "readPayloadLength (b0 # b1 # ext @ tail) b1 2 = Some (w, 2 + length ext)"
proof -
  consider (s) "w < 126" | (m) "126 \<le> w" "w \<le> 0xFFFF" | (l) "0xFFFF < w" by force
  then show ?thesis
  proof cases
    case s
    then have "unat w < 126" by (simp add: word_less_nat_alt)
    then have "ucast (ucast w :: byte) = w"
      by (simp add: word_unat_eq_iff unsigned_ucast_eq unsigned_take_bit_eq take_bit_nat_eq_self)
    moreover have "ext = []" "b1 AND 0x7F = ucast w" using s assms by (simp_all add: len_field_def)
    moreover have "w \<noteq> 126" "w \<noteq> 127" using s by auto
    ultimately show ?thesis by (simp add: readPayloadLength_def)
  next
    case m
    then have e: "b1 AND 0x7F = 126" "ext = be_split 2 w"
      using assms by (auto simp: len_field_def split: if_splits)
    have "be_join ext = take_bit 16 w" using be_join_split [of 2 w] e by simp
    also have "\<dots> = w" using m by (simp add: word_unat_eq_iff unsigned_take_bit_eq word_le_nat_alt take_bit_nat_eq_self)
    finally have j: "be_join ext = w" .
    obtain x y where "ext = [x, y]" using e(2) by (auto simp: be_split_bits upt_rec)
    with j m show ?thesis
      by (auto simp: readPayloadLength_def e(1) be_join_foldl)
  next
    case l
    then have e: "b1 AND 0x7F = 127" "ext = be_split 8 w"
      using assms by (auto simp: len_field_def word_less_nat_alt word_le_nat_alt split: if_splits)
    have j: "be_join ext = w" using be_join_split [of 8 w] e by (simp add: take_bit_word_eq_self)
    have "length ext = 8" using e by simp
    with j l assms(2) show ?thesis
      by (auto simp: readPayloadLength_def e(1) be_join_foldl [symmetric] msb_set [simplified])
  qed
qed

lemma xor_mask_length [simp]: "length (xor_mask key bs) = length bs"
  by (simp add: xor_mask_def)

lemma xor_mask_invol [simp]: "xor_mask key (xor_mask key bs) = bs"
  by (rule nth_equalityI) (simp_all add: xor_mask_def xor.assoc)

lemma unmask_eq:
  "off + n \<le> length bs \<Longrightarrow>
   map (\<lambda>i. bs ! (off + i) XOR key ! (i AND 0x03)) [0..<n] = xor_mask key (take n (drop off bs))"
  by (simp add: xor_mask_def)

lemma length_bytes_of_string [simp]: "length (bytes_of_string s) = length s"
  by (simp add: bytes_of_string_def)

lemma length_string_of_bytes [simp]: "length (string_of_bytes s) = length s"
  by (simp add: string_of_bytes_def)

lemma unmask_string:
  "off + n \<le> length bs \<Longrightarrow>
   map (\<lambda>i. char_of_byte (bs ! (off + i) XOR key ! (i AND 0x03))) [0..<n]
     = string_of_bytes (xor_mask key (take n (drop off bs)))"
  by (simp add: unmask_eq [symmetric] string_of_bytes_def comp_def)

lemma substr_string: "string_of_bytes (substr (bytes_of_string s) off n) = substr s off n"
  by (simp add: substr_def string_of_bytes_def bytes_of_string_def take_map drop_map comp_def)

lemma write_all: "length src = length dest \<Longrightarrow> write_at 0 src dest = src"
  by (simp add: write_at_def)

lemma u64_fits: "\<not> size_max < unat (w :: u64)"
  using unsigned_less [of w, where 'a = nat] by (simp add: size_max_def)

text \<open>The decoder with its nested early returns flattened.\<close>

definition decode_flat :: "bytes \<Rightarrow> (bool \<times> string \<times> WSFrameMetadata)" where
  "decode_flat bs =
    (if bs ! 0 AND 0x70 \<noteq> 0 then (False, [], WSFrameMetadata_init)
     else case frameTypeFromOpcode (bs ! 0 AND 0x0F) of
       None \<Rightarrow> (False, [], WSFrameMetadata_init)
     | Some type \<Rightarrow>
       (case readPayloadLength bs (bs ! 1) 2 of
          None \<Rightarrow> (False, [], WSFrameMetadata_init\<lparr>md_type := type\<rparr>)
        | Some (w, off) \<Rightarrow>
          (let fin = (bs ! 0 AND 0x80 \<noteq> 0); masked = (bs ! 1 AND 0x80 \<noteq> 0);
               m = \<lparr>md_type = type, md_final = fin, md_masked = masked\<rparr>;
               off2 = (if masked then off + 4 else off);
               body = take (unat w) (drop off2 bs);
               p = string_of_bytes (if masked then xor_mask (take 4 (drop off bs)) body else body)
           in if isControlFrame type \<and> (\<not> fin \<or> w > 125) \<or> off2 + unat w > length bs
              then (False, [], m)
              else (\<not> (type = Close \<and> \<not> isValidClosePayload p), p, m))))"

lemma decode_cases:
  obtains (res) "bs ! 0 AND 0x70 \<noteq> 0"
    | (op) "bs ! 0 AND 0x70 = 0" "frameTypeFromOpcode (bs ! 0 AND 0x0F) = None"
    | (len) type where "bs ! 0 AND 0x70 = 0" "frameTypeFromOpcode (bs ! 0 AND 0x0F) = Some type"
        "readPayloadLength bs (bs ! 1) 2 = None"
    | (ok) type w off where "bs ! 0 AND 0x70 = 0" "bs ! 0 AND 0x0F = opcodeForType type"
        "readPayloadLength bs (bs ! 1) 2 = Some (w, off)"
  by (metis not_None_eq opcode_Some surj_pair)

lemma decode_flat_eq:
  assumes "bytes_of_string data = bs" "2 \<le> length bs"
  shows "decodeFrame data m0 = decode_flat bs"
proof -
  have len: "length data = length bs" using assms by auto
  have sub: "substr data off n = string_of_bytes (take n (drop off bs))" for off n
    by (simp only: substr_string [symmetric] assms substr_def)
  show ?thesis
  proof (cases rule: decode_cases [of bs])
    case (ok type w off)
    show ?thesis
      using assms(2) unfolding decodeFrame_def decode_flat_def len assms(1) Let_def
      by (cases "bs ! 1 AND 0x80 \<noteq> 0"; simp add: ok u64_fits WSFrameMetadata_init_def sub unmask_string del: One_nat_def cong: if_cong split del: if_split)
        (auto simp: unmask_string)
  qed (use assms(2) in \<open>simp_all add: decodeFrame_def decode_flat_def len assms(1) Let_def del: One_nat_def split del: if_split\<close>)
qed


lemma bytes_of_string_Nil [simp]: "bytes_of_string [] = []"
  by (simp add: bytes_of_string_def)

lemma decode_buffer_eq:
  assumes "bytes_of_string data = bs" "2 \<le> length bs"
  shows "decodeFrame_buffer data m0 = (case decode_flat bs of (ok, p, m) \<Rightarrow> (ok, bytes_of_string p, m))"
proof -
  have len: "length data = length bs" using assms by auto
  have copy: "(if 0 < n then write_at 0 (take n (drop off bs)) (replicate n 0) else replicate n 0)
      = take n (drop off bs)" if "\<not> (length bs < off \<or> length bs - off < n)" for off n
    using that by (auto intro!: write_all)
  have room: "length bs < off \<or> length bs - off < n \<longleftrightarrow> length bs < off + n" for off n
    by auto
  show ?thesis
  proof (cases rule: decode_cases [of bs])
    case (ok type w off)
    show ?thesis
      using assms(2) unfolding decodeFrame_buffer_def decode_flat_def len assms(1) Let_def
      by (cases "bs ! 1 AND 0x80 \<noteq> 0"; simp add: ok u64_fits WSFrameMetadata_init_def substr_def copy unmask_eq
            del: One_nat_def cong: if_cong split del: if_split)
        (auto simp: unmask_eq room)
  qed (use assms(2) in \<open>simp_all add: decodeFrame_buffer_def decode_flat_def len assms(1) Let_def
          del: One_nat_def split del: if_split\<close>)
qed

subsection \<open>Frames decoded and encoded\<close>

lemma decode_short: "length data < 2 \<Longrightarrow> decodeFrame data m0 = (False, [], m0)"
  by (simp add: decodeFrame_def)

lemma decode_sound:
  assumes "decode_flat (b0 # b1 # rest) = (True, s, m)"
  shows "\<exists>key tail. b0 # b1 # rest = ws_frame m key (bytes_of_string s) @ tail \<and> length key = 4 \<and>
    ws_frame_ok m (bytes_of_string s)"
  using assms
proof (cases "b0 # b1 # rest" rule: decode_cases)
  case (ok type w off)
  let ?bs = "b0 # b1 # rest" and ?masked = "b1 AND 0x80 \<noteq> 0"
  from ok(3) obtain ext tail where e: "rest = ext @ tail" "(b1 AND 0x7F) # ext = len_field w"
      "off = 2 + length ext" "unat w < 2 ^ 63"
    using readPayloadLength_sound [of b0 b1 rest w off] by auto
  have b1: "b1 = (if ?masked then 0x80 else 0) OR (b1 AND 0x7F)" by (rule second_byte)
  have b0: "b0 = (if b0 AND 0x80 \<noteq> 0 then 0x80 else 0) OR opcodeForType type"
    using ok by (intro first_byte) (simp_all add: opcode_Some)
  define key where "key = (if ?masked then take 4 tail else replicate 4 0)"
  define body where "body = (if ?masked then drop 4 tail else tail)"
  define p where "p = (if ?masked then xor_mask key (take (unat w) body) else take (unat w) body)"
  have skip: "drop (6 + length ext) (b0 # b1 # ext @ tail) = drop 4 tail"
    using drop_drop [of 4 "2 + length ext" "b0 # b1 # ext @ tail"] by simp
  have m: "m = \<lparr>md_type = type, md_final = (b0 AND 0x80 \<noteq> 0), md_masked = ?masked\<rparr>" "s = string_of_bytes p"
      "\<not> (isControlFrame type \<and> (b0 AND 0x80 = 0 \<or> w > 125))" "type = Close \<longrightarrow> isValidClosePayload s"
      "(if ?masked then off + 4 else off) + unat w \<le> length ?bs"
    using assms ok e(1,3)
    by (auto simp: decode_flat_def Let_def p_def body_def key_def skip split: if_splits)
  have len: "length p = unat w" "length key = 4"
    using m(5) e by (auto simp: p_def body_def key_def split: if_splits)
  have hd_tl: "hd (len_field w) = b1 AND 0x7F" "tl (len_field w) = ext"
    using e(2) by (metis list.sel)+
  have "?bs = ws_frame m key p @ drop (unat w) body"
  proof -
    have "(if md_masked m then key @ xor_mask key p else p) @ drop (unat w) body = tail"
      by (simp add: m p_def body_def key_def del: drop_drop)
    then show ?thesis
      using b0 b1 hd_tl by (simp add: ws_frame_def len m e(1))
  qed
  moreover have "ws_frame_ok m p"
    using m e(4) len by (auto simp: ws_frame_ok_def word_less_nat_alt not_less)
  ultimately show ?thesis using len m(2) by auto
qed (simp_all add: decode_flat_def)


lemma opcode_high:
  "opcodeForType type AND 0x80 = 0" "opcodeForType type AND 0x70 = 0"
  by (cases type; simp)+

lemma len_field_hd: "hd (len_field w) AND 0x80 = 0" "hd (len_field w) AND 0x7F = hd (len_field w)"
proof -
  have "(ucast w :: byte) AND 0x80 = 0" "(ucast w :: byte) AND 0x7F = ucast w" if "w < 126"
  proof -
    from that have "unat w < 2 ^ 7" by (simp add: word_less_nat_alt)
    then have "take_bit 7 w = w"
      by (simp add: word_unat_eq_iff unsigned_take_bit_eq take_bit_nat_eq_self)
    then have "\<not> bit w 7" by (metis bit_take_bit_iff less_irrefl)
    then show "(ucast w :: byte) AND 0x80 = 0" "(ucast w :: byte) AND 0x7F = ucast w"
      by (auto intro!: byte_bits_eqI simp: bit_simps)
  qed
  then show "hd (len_field w) AND 0x80 = 0" "hd (len_field w) AND 0x7F = hd (len_field w)"
    by (auto simp: len_field_def)
qed

lemma decode_complete:
  assumes "ws_frame_ok m p" "length key = 4"
  shows "decode_flat (ws_frame m key p @ tail) = (True, string_of_bytes p, m)"
proof -
  let ?w = "of_nat (length p) :: u64"
  have w: "unat ?w = length p" using assms(1) by (simp add: ws_frame_ok_def unat_of_nat)
  define ext where "ext = tl (len_field ?w)"
  define b0 :: byte where "b0 = (if md_final m then 0x80 else 0) OR opcodeForType (md_type m)"
  define b1 :: byte where "b1 = (if md_masked m then 0x80 else 0) OR hd (len_field ?w)"
  define body where "body = (if md_masked m then key @ xor_mask key p else p)"
  have fr: "ws_frame m key p @ tail = b0 # b1 # ext @ body @ tail"
    by (simp add: ws_frame_def b0_def b1_def ext_def body_def)
  note hd = len_field_hd [of ?w]
  have "b1 AND 0x7F = hd (len_field ?w)"
    using hd(2) by (simp add: b1_def bit.conj_disj_distrib2)
  moreover have "hd (len_field ?w) # ext = len_field ?w" by (simp add: ext_def len_field_def)
  ultimately have rd: "readPayloadLength (b0 # b1 # ext @ body @ tail) b1 2 = Some (?w, 2 + length ext)"
    using assms(1) w by (intro readPayloadLength_complete) (simp_all add: ws_frame_ok_def)
  have masked: "b1 AND 0x80 \<noteq> 0 \<longleftrightarrow> md_masked m"
    using hd(1) by (simp add: b1_def bit.conj_disj_distrib2)
  have fin: "b0 AND 0x80 \<noteq> 0 \<longleftrightarrow> md_final m" "b0 AND 0x70 = 0" "b0 AND 0x0F = opcodeForType (md_type m)"
    by (simp_all add: b0_def bit.conj_disj_distrib2 opcode_high)
  have skip: "drop (6 + length ext) (b0 # b1 # ext @ xs) = drop 4 xs" for xs
    using drop_drop [of 4 "2 + length ext" "b0 # b1 # ext @ xs"] by simp
  show ?thesis
    unfolding fr decode_flat_def
    by (simp add: rd masked fin w)
      (use assms in \<open>cases "md_masked m"; auto simp: Let_def skip body_def ws_frame_ok_def word_less_nat_alt w\<close>)
qed

lemma writePayloadLength_eq:
  "writePayloadLength w masked =
     ((if masked then 0x80 else 0) OR hd (len_field w)) # tl (len_field w)"
proof -
  have "ucast ((if masked then 0x80 else 0) OR w) = ((if masked then 0x80 else 0) OR ucast w :: byte)"
    by (rule byte_bits_eqI) (simp_all add: bit_simps)
  moreover have "[ucast (drop_bit 8 w AND 0xFF), ucast (w AND 0xFF)] = be_split 2 w"
    using be_split_bits [of 2 w] by (simp add: byte_mask upt_rec)
  moreover have "map (\<lambda>shift. ucast (drop_bit shift w AND 0xFF)) [56, 48, 40, 32, 24, 16, 8, 0] = be_split 8 w"
    using be_split_bits [of 8 w] by (simp add: byte_mask upt_rec)
  ultimately show ?thesis by (auto simp: writePayloadLength_def len_field_def Let_def)
qed

lemma frameHeaderSize_eq: "frameHeaderSize w masked = 1 + length (len_field w) + (if masked then 4 else 0)"
proof -
  have "w \<ge> 126 \<longleftrightarrow> \<not> w < 126" "w > 0xFFFF \<longleftrightarrow> \<not> w \<le> 0xFFFF" by auto
  moreover have "w < 126 \<Longrightarrow> w \<le> 0xFFFF" by (simp add: word_less_nat_alt word_le_nat_alt)
  ultimately show ?thesis by (auto simp: frameHeaderSize_def len_field_def)
qed

lemma write_append:
  "length a = n \<Longrightarrow> write_at n b (a @ replicate (length b + k) x) = a @ b @ replicate k x"
  by (simp add: write_at_def)

lemma encodeFrame_bytes:
  fixes type mask defines "m \<equiv> \<lparr>md_type = type, md_final = True, md_masked = mask\<rparr>"
  shows "encodeFrame engine g data type mask =
     (string_of_bytes (ws_frame m (fst (generateMaskKey engine g)) (bytes_of_string data)),
      if mask then snd (generateMaskKey engine g) else g)"
proof -
  let ?w = "of_nat (length data) :: u64" and ?p = "bytes_of_string data"
  let ?b0 = "0x80 OR opcodeForType type" and ?l = "writePayloadLength ?w mask"
  let ?k = "(if mask then 4 else 0) + length data"
  have len: "length ?l = length (len_field ?w)" "0 < length (len_field ?w)"
    by (simp_all add: writePayloadLength_eq len_field_def)
  have "replicate (frameHeaderSize ?w mask + length data) 0 =
      [] @ replicate (length [?b0] + (length ?l + ?k)) (0 :: byte)"
    by (simp add: frameHeaderSize_eq len)
  then have f: "write_at 1 ?l (write_at 0 [?b0] (replicate (frameHeaderSize ?w mask + length data) 0))
      = (?b0 # ?l) @ replicate ?k 0"
    using write_append [of "[]" 0 "[?b0]" "length ?l + ?k" 0] write_append [of "[?b0]" 1 ?l ?k 0]
    by simp
  show ?thesis
  proof (cases mask)
    case False
    have "write_at (1 + length ?l) ?p ((?b0 # ?l) @ replicate ?k 0) = (?b0 # ?l) @ ?p"
      using write_append [of "?b0 # ?l" "1 + length ?l" ?p 0 0] False by simp
    then show ?thesis
      using False f by (simp add: encodeFrame_def Let_def m_def ws_frame_def writePayloadLength_eq)
  next
    case True
    obtain key g1 where key: "generateMaskKey engine g = (key, g1)" by fastforce
    then have 4: "length key = 4"
      using fillRandomBytes_length [of engine g 4] by (simp add: generateMaskKey_def)
    have "write_at (1 + length ?l) key ((?b0 # ?l) @ replicate ?k 0) = (?b0 # ?l @ key) @ replicate (length data) 0"
      using write_append [of "?b0 # ?l" "1 + length ?l" key "length data" 0] 4 True by simp
    moreover have "write_at (1 + length ?l + length key) (xor_mask key ?p) \<dots> = (?b0 # ?l @ key) @ xor_mask key ?p"
      using write_append [of "?b0 # ?l @ key" "1 + length ?l + length key" "xor_mask key ?p" 0 0] by simp
    ultimately show ?thesis
      using True f by (simp add: encodeFrame_def Let_def key m_def ws_frame_def writePayloadLength_eq)
  qed
qed

lemma length_ws_frame:
  "length key = 4 \<Longrightarrow> length (ws_frame m key p) =
     1 + length (len_field (of_nat (length p))) + (if md_masked m then 4 else 0) + length p"
  by (simp add: ws_frame_def len_field_def)

lemma ws_frame_shape: obtains b0 b1 rest where "ws_frame m key p = b0 # b1 # rest"
  by (simp add: ws_frame_def)

lemma decodeFrame_ws_frame:
  assumes "ws_frame_ok m p" "length key = 4"
  shows "decodeFrame (string_of_bytes (ws_frame m key p @ tail)) m0 = (True, string_of_bytes p, m)"
proof -
  have "2 \<le> length (ws_frame m key p @ tail)" by (rule ws_frame_shape [of m key p]) simp
  then show ?thesis
    using decode_flat_eq [OF bytes_of_string_of_bytes] decode_complete [OF assms] by metis
qed

lemma string_of_bytes_append [simp]: "string_of_bytes (a @ b) = string_of_bytes a @ string_of_bytes b"
  by (simp add: string_of_bytes_def)

lemma bytes_of_string_append [simp]: "bytes_of_string (a @ b) = bytes_of_string a @ bytes_of_string b"
  by (simp add: bytes_of_string_def)

lemma decodeFrame_buffer_case:
  "decodeFrame_buffer data m0 = (case decodeFrame data m0 of (ok, p, m) \<Rightarrow> (ok, bytes_of_string p, m))"
proof (cases "length data < 2")
  case True
  then show ?thesis by (simp add: decodeFrame_def decodeFrame_buffer_def)
next
  case False
  then have "2 \<le> length (bytes_of_string data)" by simp
  then show ?thesis by (simp add: decode_flat_eq [OF refl] decode_buffer_eq [OF refl])
qed

lemma decodeFrame_iff:
  "decodeFrame data m0 = (True, p, m) \<longleftrightarrow>
     ws_frame_ok m (bytes_of_string p) \<and>
     (\<exists>key tail. length key = 4 \<and>
        bytes_of_string data = ws_frame m key (bytes_of_string p) @ tail)" (is "?L \<longleftrightarrow> ?R")
proof
  assume ?L
  show ?R
  proof (cases "length data < 2")
    case True
    with \<open>?L\<close> show ?thesis by (simp add: decode_short)
  next
    case False
    then obtain b0 b1 rest where bs: "bytes_of_string data = b0 # b1 # rest"
      by (metis length_bytes_of_string One_nat_def Suc_1 Suc_leI Suc_le_length_iff not_less)
    then have "decodeFrame data m0 = decode_flat (b0 # b1 # rest)" by (intro decode_flat_eq) simp_all
    with \<open>?L\<close> decode_sound [of b0 b1 rest p m] bs show ?thesis by auto
  qed
next
  assume ?R
  then obtain key tail where "length key = 4" "bytes_of_string data = ws_frame m key (bytes_of_string p) @ tail"
    by auto
  with \<open>?R\<close> decodeFrame_ws_frame [of m "bytes_of_string p" key tail m0] show ?L
    by (metis string_of_bytes_of_string)
qed

lemma base64Encode_text_eq: "base64Encode_text s = encodeBytes (bytes_of_string s)"
  by (simp add: base64Encode_text_def)

lemma generateMaskKey_length: "length (fst (generateMaskKey engine g)) = 4"
  by (simp add: generateMaskKey_def fillRandomBytes_length)

text \<open>Frames are a framing of a byte stream in the sense of \<open>stream_codec\<close>.\<close>

definition frame_enc :: "bytes \<Rightarrow> WSFrameMetadata \<times> string \<Rightarrow> string" where
  "frame_enc key mp = string_of_bytes (ws_frame (fst mp) key (bytes_of_string (snd mp)))"

definition frame_dec :: "string \<Rightarrow> (WSFrameMetadata \<times> string) option" where
  "frame_dec data =
     (case decodeFrame data WSFrameMetadata_init of (ok, p, m) \<Rightarrow> if ok then Some (m, p) else None)"

interpretation frames: stream_codec
  "\<lambda>key. length key = 4" "\<lambda>(m, p). ws_frame_ok m (bytes_of_string p)" frame_enc frame_dec
proof unfold_locales
  fix k :: bytes and x rest
  assume "length k = 4" and "case x of (m, p) \<Rightarrow> ws_frame_ok m (bytes_of_string p)"
  then have "decodeFrame (frame_enc k x @ rest) WSFrameMetadata_init = (True, snd x, fst x)"
    by (auto simp: decodeFrame_iff frame_enc_def split: prod.splits)
  then show "frame_dec (frame_enc k x @ rest) = Some x" by (simp add: frame_dec_def)
next
  fix bs x
  assume "frame_dec bs = Some x"
  then have "decodeFrame bs WSFrameMetadata_init = (True, snd x, fst x)"
    by (auto simp: frame_dec_def split: prod.splits if_splits)
  then obtain key tail where "length key = 4" "ws_frame_ok (fst x) (bytes_of_string (snd x))"
      "bytes_of_string bs = ws_frame (fst x) key (bytes_of_string (snd x)) @ tail"
    by (auto simp: decodeFrame_iff)
  moreover from this(3) have "bs = frame_enc key x @ string_of_bytes tail"
    unfolding frame_enc_def by (metis string_of_bytes_of_string string_of_bytes_append)
  ultimately show "(case x of (m, p) \<Rightarrow> ws_frame_ok m (bytes_of_string p)) \<and>
      (\<exists>k rest. length k = 4 \<and> bs = frame_enc k x @ rest)"
    by (auto split: prod.splits)
next
  fix k k' :: bytes and x
  assume "length k = 4" "length k' = 4"
  then show "length (frame_enc k x) = length (frame_enc k' x)"
    by (simp add: frame_enc_def length_ws_frame)
qed

text \<open>C9: Frame round trip. A message below \<open>2\<^sup>6\<^sup>3\<close> bytes (at most 125 bytes with a valid close
  code where the type demands it) is returned unchanged by every decoder overload, with its type,
  the \<open>FIN\<close> bit and the mask bit, for every mask key the generator yields and whatever bytes
  follow the frame in the buffer.\<close>

theorem frame_roundtrip:
  assumes "length data < 2 ^ 63"
    and "isControlFrame type \<Longrightarrow> length data \<le> 125"
    and "type = Close \<Longrightarrow> isValidClosePayload data"
  shows "decodeFrame (fst (encodeFrame engine g data type maskPayload) @ rest) m0 =
           (True, data, \<lparr>md_type = type, md_final = True, md_masked = maskPayload\<rparr>) \<and>
         decodeFrame_buffer (fst (encodeFrame engine g data type maskPayload) @ rest) m0 =
           (True, bytes_of_string data, \<lparr>md_type = type, md_final = True, md_masked = maskPayload\<rparr>) \<and>
         decodeFrame_fin (bytes_of_string (fst (encodeFrame engine g data type maskPayload) @ rest)) t0 =
           (True, data, type)"
proof -
  let ?m = "\<lparr>md_type = type, md_final = True, md_masked = maskPayload\<rparr>"
  have "ws_frame_ok ?m (bytes_of_string data)" using assms by (simp add: ws_frame_ok_def)
  then have "decodeFrame (fst (encodeFrame engine g data type maskPayload) @ rest) m = (True, data, ?m)" for m
    using decodeFrame_ws_frame [OF _ generateMaskKey_length, of ?m "bytes_of_string data" engine g
        "bytes_of_string rest" m]
    by (simp add: encodeFrame_bytes)
  then show ?thesis by (simp add: decodeFrame_buffer_case decodeFrame_fin_def)
qed

theorem frame_roundtrip_witness:
  "decodeFrame_fin (bytes_of_string (fst (encodeFrame (\<lambda>n :: nat. (of_nat n, Suc n)) 7 ''hello'' Ping True) @ [])) Text =
     (True, ''hello'', Ping)"
  using frame_roundtrip [of "''hello''" Ping "\<lambda>n :: nat. (of_nat n, Suc n)" 7 True "[]" WSFrameMetadata_init Text]
  by simp

text \<open>C4: Accepted frames. The decoder accepts a buffer exactly when the buffer starts with the RFC 6455
  encoding, with the shortest length field, of an admissible message: the reported
  payload and metadata are those of that encoding. Frames with reserved bits, unknown opcodes,
  padded length fields, long or fragmented control frames and bad close codes are all refused.\<close>

theorem decodeFrame_accepts:
  "decodeFrame data m0 = (True, p, m) \<longleftrightarrow>
     ws_frame_ok m (bytes_of_string p) \<and>
     (\<exists>key tail. length key = 4 \<and>
        bytes_of_string data = ws_frame m key (bytes_of_string p) @ tail)"
  by (rule decodeFrame_iff)

text \<open>The overloads agree. The hand-duplicated decoder that fills a byte buffer returns on
  every input, accepted or refused, the same verdict, payload bytes and metadata as the one
  that fills a string.\<close>

theorem decode_overloads_agree:
  "decodeFrame_buffer data m0 = (case decodeFrame data m0 of (ok, p, m) \<Rightarrow> (ok, bytes_of_string p, m))"
  by (rule decodeFrame_buffer_case)

text \<open>Incomplete frames. While a frame has not arrived in full, the decoder refuses it: no
  strict prefix of a frame is taken for a frame.\<close>

theorem incomplete_frame_refused:
  assumes "ws_frame_ok m p" "length key = 4"
    and "data @ missing = string_of_bytes (ws_frame m key p)" "missing \<noteq> []"
  shows "\<not> fst (decodeFrame data m0)"
proof -
  have "frame_dec data = None"
    using frames.dec_incomplete [of key "(m, string_of_bytes p)" data missing] assms
    by (simp add: frame_enc_def)
  then have "decodeFrame data WSFrameMetadata_init \<noteq> (True, q, n)" for q n
    by (auto simp: frame_dec_def split: prod.splits if_splits)
  then have "decodeFrame data m0 \<noteq> (True, q, n)" for q n
    unfolding decodeFrame_iff .
  then show ?thesis by (metis prod.collapse)
qed

theorem incomplete_frame_refused_witness:
  "\<not> fst (decodeFrame (string_of_bytes [0x81, 0x03, 0x61]) WSFrameMetadata_init)"
proof (rule incomplete_frame_refused)
  show "ws_frame_ok \<lparr>md_type = Text, md_final = True, md_masked = False\<rparr> [0x61, 0x62, 0x63]"
    by (simp add: ws_frame_ok_def isControlFrame_def)
  show "length (replicate 4 (0 :: byte)) = 4" by simp
  show "string_of_bytes [0x81, 0x03, 0x61] @ string_of_bytes [0x62, 0x63] = string_of_bytes
      (ws_frame \<lparr>md_type = Text, md_final = True, md_masked = False\<rparr> (replicate 4 0) [0x61, 0x62, 0x63])"
    by (simp add: ws_frame_def len_field_def flip: string_of_bytes_append)
  show "string_of_bytes [0x62, 0x63] \<noteq> []" by (simp add: string_of_bytes_def)
qed

text \<open>Handshake keys. The client key is the 24-character base64 text of sixteen random bytes; the accept
  key the server answers with is the 28-character base64 text of the SHA-1 digest of the
  client key followed by the protocol's fixed identifier, and it decodes back to that digest.\<close>

theorem handshake_keys:
  "(\<exists>entropy. length entropy = 16 \<and> length (fst (createHandshakeKey engine g)) = 24 \<and>
      tryBase64Decode (fst (createHandshakeKey engine g)) = (True, entropy)) \<and>
   (\<exists>accept. createAcceptKey key = Some accept \<and> length accept = 28 \<and>
      tryBase64Decode accept =
        (True, fips_sha1 (bytes_of_string (key @ ''258EAFA5-E914-47DA-95CA-C5AB0DC85B11''))))"
proof -
  let ?digest = "fips_sha1 (bytes_of_string (key @ kGuid))"
  have "length (fst (fillRandomBytes engine g 16)) = 16" by (rule fillRandomBytes_length)
  moreover have "fst (createHandshakeKey engine g) = encodeBytes (fst (fillRandomBytes engine g 16))"
    by (simp add: createHandshakeKey_def base64Encode_text_eq split: prod.splits)
  moreover have "createAcceptKey key = Some (encodeBytes ?digest)"
    by (simp add: createAcceptKey_def sha1Digest_correct base64Encode_text_eq)
  moreover have "length ?digest = 20" by (rule length_fips_sha1)
  ultimately show ?thesis
    by (simp add: tryBase64Decode_encodeBytes length_encodeBytes kGuid_def)
qed

end
