(* ===== verification/Ordered_Map.thy ===== *)
theory Ordered_Map
  imports Main "HOL-Library.Char_ord" "HOL-Library.List_Lexorder"
begin

text \<open>
  \<open>std::map\<close> as the library uses it: an association list in strictly increasing key order,
  which is also the order in which a range-based \<open>for\<close> visits the entries. Keys that are
  strings are ordered lexicographically by character code, as \<open>std::string::operator<\<close> does.
  The contract is stated as a locale and the sorted lists are shown to satisfy it.
\<close>

type_synonym ('k, 'v) omap = "('k \<times> 'v) list"

definition omap_inv :: "('k::linorder, 'v) omap \<Rightarrow> bool" where
  "omap_inv m \<longleftrightarrow> sorted_wrt (<) (map fst m)"

text \<open>\<open>m[k] = v\<close>: overwrites the entry of an existing key, inserts otherwise.\<close>

fun omap_put :: "'k::linorder \<Rightarrow> 'v \<Rightarrow> ('k, 'v) omap \<Rightarrow> ('k, 'v) omap" where
  "omap_put k v [] = [(k, v)]"
| "omap_put k v ((k', v') # m) =
     (if k < k' then (k, v) # (k', v') # m
      else if k = k' then (k, v) # m
      else (k', v') # omap_put k v m)"

definition omap_erase :: "'k \<Rightarrow> ('k, 'v) omap \<Rightarrow> ('k, 'v) omap" where
  "omap_erase k m = filter (\<lambda>e. fst e \<noteq> k) m"

text \<open>The contract of a map with ordered iteration.\<close>

locale ordered_map =
  fixes empty :: "'m" and put :: "'k::linorder \<Rightarrow> 'v \<Rightarrow> 'm \<Rightarrow> 'm" and erase :: "'k \<Rightarrow> 'm \<Rightarrow> 'm"
    and entries :: "'m \<Rightarrow> ('k \<times> 'v) list" and inv :: "'m \<Rightarrow> bool"
  assumes inv_empty: "inv empty" and entries_empty: "entries empty = []"
    and inv_put: "inv m \<Longrightarrow> inv (put k v m)" and inv_erase: "inv m \<Longrightarrow> inv (erase k m)"
    and lookup_put: "inv m \<Longrightarrow> map_of (entries (put k v m)) = (map_of (entries m))(k \<mapsto> v)"
    and lookup_erase: "inv m \<Longrightarrow> map_of (entries (erase k m)) = (map_of (entries m))(k := None)"
    and entries_sorted: "inv m \<Longrightarrow> sorted_wrt (<) (map fst (entries m))"
begin

lemma entries_distinct: "inv m \<Longrightarrow> distinct (map fst (entries m))"
  using entries_sorted strict_sorted_iff by blast

lemma entries_unique:
  assumes "inv m" "inv m'" "map_of (entries m) = map_of (entries m')"
  shows "entries m = entries m'"
proof -
  have "set (entries m) = set (entries m')"
    using assms entries_distinct by (metis map_of_inject_set)
  then have "map fst (entries m) = map fst (entries m')"
    using assms entries_sorted by (metis list.set_map strict_sorted_equal)
  moreover have "entries m = map (\<lambda>k. (k, the (map_of (entries m) k))) (map fst (entries m))"
    if "inv m" for m
    using map_of_is_SomeI [OF entries_distinct [OF that]] by (force intro!: map_idI [symmetric])
  ultimately show ?thesis using assms by metis
qed

lemma set_entries_put:
  "inv m \<Longrightarrow> set (entries (put k v m)) = insert (k, v) {e \<in> set (entries m). fst e \<noteq> k}"
  by (simp only: set_map_of_compr [OF entries_distinct] inv_put lookup_put) (auto split: if_splits)

end

lemma omap_put_keys: "set (map fst (omap_put k v m)) = insert k (set (map fst m))"
  by (induction k v m rule: omap_put.induct) auto

lemma map_of_omap_put: "map_of (omap_put k v m) = (map_of m)(k \<mapsto> v)"
  by (induction k v m rule: omap_put.induct) (auto simp: fun_eq_iff)

lemma omap_inv_put: "omap_inv m \<Longrightarrow> omap_inv (omap_put k v m)"
proof (induction k v m rule: omap_put.induct)
  case (2 k v k' v' m)
  then show ?case
    using omap_put_keys [of k v m] by (auto simp: omap_inv_def)
qed (simp add: omap_inv_def)

lemma map_of_omap_erase: "map_of (omap_erase k m) = (map_of m)(k := None)"
  by (induction m) (auto simp: omap_erase_def fun_eq_iff)

lemma omap_inv_erase: "omap_inv m \<Longrightarrow> omap_inv (omap_erase k m)"
  unfolding omap_inv_def omap_erase_def by (induction m) auto

interpretation om: ordered_map "[]" omap_put omap_erase "\<lambda>m. m" omap_inv
  by unfold_locales (simp_all add: omap_inv_put omap_inv_erase map_of_omap_put map_of_omap_erase, simp_all add: omap_inv_def)

lemma length_omap_put: "length (omap_put k v m) \<le> Suc (length m)"
  by (induction k v m rule: omap_put.induct) auto

text \<open>Putting the entries of a sorted list one by one builds that list.\<close>

lemma omap_put_last: "\<forall>e\<in>set m. fst e < k \<Longrightarrow> omap_put k v m = m @ [(k, v)]"
  by (induction k v m rule: omap_put.induct) auto

lemma fold_put_append: "omap_inv (acc @ m) \<Longrightarrow> foldl (\<lambda>m (n, v). omap_put n v m) acc m = acc @ m"
proof (induction m arbitrary: acc)
  case (Cons e m)
  obtain k v where e: "e = (k, v)" by (cases e)
  have "omap_put k v acc = acc @ [(k, v)]"
    using Cons.prems by (intro omap_put_last) (auto simp: e omap_inv_def sorted_wrt_append)
  with Cons e show ?case by simp
qed simp

lemma fold_put_id: "omap_inv m \<Longrightarrow> foldl (\<lambda>m (n, v). omap_put n v m) [] m = m"
  using fold_put_append [of "[]" m] by simp

end
