(* ===== verification/Http_Text.thy ===== *)
theory Http_Text
  imports FN_Prelude Ordered_Map
begin

text \<open>
  The text level of \<open>src/src/HttpParser.cpp\<close>: character classes, trimming, case-insensitive
  comparison, number parsing and printing, and percent-encoding. Numbers are \<^typ>\<open>nat\<close> with the
  overflow guards of the source; \<open>std::to_chars\<close> is the usual positional notation.
\<close>

subsection \<open>Characters\<close>

definition cSpace :: char where "cSpace = CHR '' ''"
definition cTab :: char where "cTab = CHR 0x09"
definition cColon :: char where "cColon = CHR '':''"
definition cComma :: char where "cComma = CHR '',''"
definition cSemicolon :: char where "cSemicolon = CHR '';''"
definition cAmpersand :: char where "cAmpersand = CHR ''&''"
definition cEquals :: char where "cEquals = CHR ''=''"
definition cHash :: char where "cHash = CHR ''#''"
definition cQuestion :: char where "cQuestion = CHR ''?''"
definition cPercent :: char where "cPercent = CHR ''%''"
definition cPlus :: char where "cPlus = CHR ''+''"
definition cDot :: char where "cDot = CHR ''.''"

lemmas char_consts = cSpace_def cTab_def cColon_def cComma_def cSemicolon_def cAmpersand_def
  cEquals_def cHash_def cQuestion_def cPercent_def cPlus_def cDot_def CR_def LF_def

definition isTokenCharacter :: "char \<Rightarrow> bool" where
  "isTokenCharacter ch \<longleftrightarrow>
     ch \<in> set (''!#$%&*+-.^_|~'' @ [CHR 0x27, CHR 0x60]) \<or> isalnum ch"

definition isValidHeaderName :: "string \<Rightarrow> bool" where
  "isValidHeaderName headerName \<longleftrightarrow> headerName \<noteq> [] \<and> list_all isTokenCharacter headerName"

definition isValidHttpVersion :: "string \<Rightarrow> bool" where
  "isValidHttpVersion version =
     (if length version \<noteq> 8 \<or> substr version 0 5 \<noteq> ''HTTP/'' then False
      else isdigit (version ! 5) \<and> version ! 6 = cDot \<and> isdigit (version ! 7))"

definition trim :: "string \<Rightarrow> string" where
  "trim str = rev (dropWhile isspace (rev (dropWhile isspace str)))"

definition caseInsensitiveCompare :: "string \<Rightarrow> string \<Rightarrow> bool" where
  "caseInsensitiveCompare a b \<longleftrightarrow>
     length a = length b \<and> list_all2 (\<lambda>x y. tolower x = tolower y) a b"

subsection \<open>Numbers\<close>

fun parseUnsignedDecimal_loop :: "nat \<Rightarrow> string \<Rightarrow> nat option" where
  "parseUnsignedDecimal_loop result [] = Some result"
| "parseUnsignedDecimal_loop result (ch # rest) =
     (if \<not> isdigit ch then None
      else let digit = code_of ch - 48
           in if result > (size_max - digit) div 10 then None
              else parseUnsignedDecimal_loop (result * 10 + digit) rest)"

definition parseUnsignedDecimal :: "string \<Rightarrow> nat option" where
  "parseUnsignedDecimal value = (if value = [] then None else parseUnsignedDecimal_loop 0 value)"

definition hexDigit :: "char \<Rightarrow> nat option" where
  "hexDigit ch =
     (let c = code_of ch
      in if 48 \<le> c \<and> c \<le> 57 then Some (c - 48)
         else if 65 \<le> c \<and> c \<le> 70 then Some (c - 65 + 10)
         else if 97 \<le> c \<and> c \<le> 102 then Some (c - 97 + 10)
         else None)"

definition hexDigitValue :: "char \<Rightarrow> int" where
  "hexDigitValue ch =
     (let c = code_of ch
      in if 48 \<le> c \<and> c \<le> 57 then int c - 48
         else if 65 \<le> c \<and> c \<le> 70 then int c - 65 + 10
         else if 97 \<le> c \<and> c \<le> 102 then int c - 97 + 10
         else -1)"

fun parseHexSize_loop :: "nat \<Rightarrow> string \<Rightarrow> nat option" where
  "parseHexSize_loop result [] = Some result"
| "parseHexSize_loop result (ch # rest) =
     (case hexDigit ch of
        None \<Rightarrow> None
      | Some digit \<Rightarrow>
          if result > (size_max - digit) div 16 then None
          else parseHexSize_loop (result * 16 + digit) rest)"

definition parseHexSize :: "string \<Rightarrow> nat option" where
  "parseHexSize value =
     (let value = trim value in if value = [] then None else parseHexSize_loop 0 value)"

definition digit_char :: "nat \<Rightarrow> char" where
  "digit_char d = (if d < 10 then char_of (48 + d) else char_of (87 + d))"

text \<open>\<open>std::to_chars\<close> with a base: no leading zeros, lower-case letters.\<close>

fun to_chars :: "nat \<Rightarrow> nat \<Rightarrow> string" where
  "to_chars base n =
     (if base \<le> 1 \<or> n < base then [digit_char n] else to_chars base (n div base) @ [digit_char (n mod base)])"

declare to_chars.simps [simp del]

definition appendUnsignedDecimal :: "string \<Rightarrow> nat \<Rightarrow> string" where
  "appendUnsignedDecimal output value = output @ to_chars 10 value"

definition appendSignedDecimal :: "string \<Rightarrow> int \<Rightarrow> string" where
  "appendSignedDecimal output value =
     output @ (if value < 0 then CHR ''-'' # to_chars 10 (nat (- value)) else to_chars 10 (nat value))"

definition appendUnsignedHex :: "string \<Rightarrow> nat \<Rightarrow> string" where
  "appendUnsignedHex output value = output @ to_chars 16 value"

fun decimalDigitCount :: "nat \<Rightarrow> nat" where
  "decimalDigitCount value = (if value \<ge> 10 then Suc (decimalDigitCount (value div 10)) else 1)"

definition decimalDigitCount_int :: "int \<Rightarrow> nat" where
  "decimalDigitCount_int value =
     (if value < 0 then Suc (decimalDigitCount (nat (- value))) else decimalDigitCount (nat value))"

fun hexDigitCount :: "nat \<Rightarrow> nat" where
  "hexDigitCount value = (if value \<ge> 16 then Suc (hexDigitCount (value div 16)) else 1)"

declare decimalDigitCount.simps [simp del] hexDigitCount.simps [simp del]

subsection \<open>Percent-encoding\<close>

fun urlDecode :: "string \<Rightarrow> string" where
  "urlDecode [] = []"
| "urlDecode (c # h # l # rest) =
     (if c = cPercent \<and> hexDigitValue h \<ge> 0 \<and> hexDigitValue l \<ge> 0
      then char_of (nat (hexDigitValue h) * 16 + nat (hexDigitValue l)) # urlDecode rest
      else (if c = cPlus then cSpace else c) # urlDecode (h # l # rest))"
| "urlDecode (c # rest) = (if c = cPlus then cSpace else c) # urlDecode rest"

definition kHexDigitsUpper :: string where
  "kHexDigitsUpper = ''0123456789ABCDEF''"

definition urlUnreserved :: "char \<Rightarrow> bool" where
  "urlUnreserved ch \<longleftrightarrow> isalnum ch \<or> ch \<in> set ''-_.~''"

fun urlEncode :: "string \<Rightarrow> string" where
  "urlEncode [] = []"
| "urlEncode (ch # raw) =
     (if urlUnreserved ch then ch # urlEncode raw
      else cPercent # kHexDigitsUpper ! (code_of ch div 16 mod 16) # kHexDigitsUpper ! (code_of ch mod 16) #
           urlEncode raw)"

subsection \<open>Character facts\<close>

lemma tokenCharacter_plain:
  assumes "isTokenCharacter ch"
  shows "ch \<noteq> cSpace" "ch \<noteq> cTab" "ch \<noteq> cColon" "ch \<noteq> CR" "ch \<noteq> LF" "\<not> isspace ch"
  using assms
  by (auto simp: isTokenCharacter_def char_consts isspace_def isalnum_def isdigit_def isupper_def islower_def)

lemma caseInsensitiveCompare_iff: "caseInsensitiveCompare a b \<longleftrightarrow> map tolower a = map tolower b"
  by (auto simp: caseInsensitiveCompare_def list_all2_conv_all_nth list_eq_iff_nth_eq)

subsection \<open>Trimming\<close>

definition trimmed :: "string \<Rightarrow> bool" where
  "trimmed s \<longleftrightarrow> (s \<noteq> [] \<longrightarrow> \<not> isspace (hd s) \<and> \<not> isspace (last s))"

lemma dropWhile_keeps: "s \<noteq> [] \<Longrightarrow> \<not> P (hd s) \<Longrightarrow> dropWhile P s = s"
  by (cases s) auto

lemma trim_trimmed [simp]: "trimmed s \<Longrightarrow> trim s = s"
  by (cases "s = []") (simp_all add: trimmed_def trim_def dropWhile_keeps hd_rev)

lemma trim_space [simp]: "isspace c \<Longrightarrow> trim (c # s) = trim s"
  by (simp add: trim_def)

lemma trimmed_trim: "trimmed (trim s)"
proof -
  let ?u = "dropWhile isspace s"
  have "trimmed (rev (dropWhile isspace (rev ?u)))"
  proof (cases "dropWhile isspace (rev ?u) = []")
    case True
    then show ?thesis by (simp add: trimmed_def)
  next
    case False
    then have "?u \<noteq> []" by (metis dropWhile.simps(1) rev.simps(1))
    then have "\<not> isspace (hd ?u)" by (rule hd_dropWhile)
    moreover have "last (dropWhile isspace (rev ?u)) = hd ?u"
      using False \<open>?u \<noteq> []\<close> by (metis dropWhile_eq_drop last_drop last_rev rev_is_Nil_conv drop_eq_Nil linorder_not_le)
    moreover have "\<not> isspace (hd (dropWhile isspace (rev ?u)))"
      using False by (rule hd_dropWhile)
    ultimately show ?thesis using False by (simp add: trimmed_def hd_rev last_rev)
  qed
  then show ?thesis by (simp add: trim_def)
qed

lemma trim_idem: "trim (trim s) = trim s"
  by (simp add: trimmed_trim)

lemma header_name_trimmed: "isValidHeaderName name \<Longrightarrow> trimmed name"
  by (auto simp: trimmed_def isValidHeaderName_def list_all_iff tokenCharacter_plain)

subsection \<open>Numbers are read exactly, with overflow refused\<close>

fun num_loop :: "nat \<Rightarrow> (char \<Rightarrow> nat option) \<Rightarrow> nat \<Rightarrow> string \<Rightarrow> nat option" where
  "num_loop b f r [] = Some r"
| "num_loop b f r (c # s) =
     (case f c of None \<Rightarrow> None
      | Some d \<Rightarrow> if r > (size_max - d) div b then None else num_loop b f (r * b + d) s)"

definition num_value :: "nat \<Rightarrow> (char \<Rightarrow> nat option) \<Rightarrow> nat \<Rightarrow> string \<Rightarrow> nat" where
  "num_value b f r s = foldl (\<lambda>r c. r * b + the (f c)) r s"

lemma num_value_mono: "0 < b \<Longrightarrow> r \<le> num_value b f r s"
proof (induction s arbitrary: r)
  case (Cons c s)
  have "r \<le> r * b + the (f c)" using Cons.prems by (simp add: trans_le_add1)
  also have "\<dots> \<le> num_value b f (r * b + the (f c)) s" using Cons by blast
  finally show ?case by (simp add: num_value_def)
qed (simp add: num_value_def)

lemma num_loop_exact:
  assumes "0 < b" "\<And>c d. f c = Some d \<Longrightarrow> d \<le> size_max" "r \<le> size_max"
  shows "num_loop b f r s =
    (if (\<forall>c\<in>set s. f c \<noteq> None) \<and> num_value b f r s \<le> size_max then Some (num_value b f r s) else None)"
  using assms(3)
proof (induction s arbitrary: r)
  case Nil
  then show ?case by (simp add: num_value_def)
next
  case (Cons c s)
  show ?case
  proof (cases "f c")
    case None
    then show ?thesis by simp
  next
    case (Some d)
    then have "d \<le> size_max" by (rule assms(2))
    then have guard: "r > (size_max - d) div b \<longleftrightarrow> size_max < r * b + d"
      using assms(1) by (simp add: div_less_iff_less_mult) linarith
    have step: "num_value b f r (c # s) = num_value b f (r * b + d) s"
      by (simp add: num_value_def Some)
    show ?thesis
    proof (cases "size_max < r * b + d")
      case True
      then have "\<not> num_value b f r (c # s) \<le> size_max"
        using num_value_mono [OF assms(1), of "r * b + d" f s] step by simp
      with True show ?thesis by (simp add: Some guard)
    next
      case False
      with Cons.IH [of "r * b + d"] show ?thesis by (simp add: Some guard step)
    qed
  qed
qed

definition decDigit :: "char \<Rightarrow> nat option" where
  "decDigit c = (if isdigit c then Some (code_of c - 48) else None)"

lemma parseUnsignedDecimal_loop_num: "parseUnsignedDecimal_loop r s = num_loop 10 decDigit r s"
  by (induction s arbitrary: r) (simp_all add: decDigit_def Let_def)

lemma parseHexSize_loop_num: "parseHexSize_loop r s = num_loop 16 hexDigit r s"
  by (induction s arbitrary: r) (simp_all split: option.split)

lemma hexDigit_le: "hexDigit c = Some d \<Longrightarrow> d < 16"
  by (auto simp: hexDigit_def Let_def split: if_splits)

lemma decDigit_le: "decDigit c = Some d \<Longrightarrow> d < 10"
  by (auto simp: decDigit_def isdigit_def split: if_splits)

lemma digit_le_max: "d < 16 \<Longrightarrow> d \<le> size_max"
  by (simp add: size_max_def)

lemma parseUnsignedDecimal_exact:
  "parseUnsignedDecimal s =
     (if s \<noteq> [] \<and> list_all isdigit s \<and> num_value 10 decDigit 0 s \<le> size_max
      then Some (num_value 10 decDigit 0 s) else None)"
proof -
  have "num_loop 10 decDigit 0 s =
    (if (\<forall>c\<in>set s. decDigit c \<noteq> None) \<and> num_value 10 decDigit 0 s \<le> size_max
     then Some (num_value 10 decDigit 0 s) else None)"
    by (rule num_loop_exact) (auto dest!: decDigit_le intro!: digit_le_max)
  moreover have "decDigit c \<noteq> None \<longleftrightarrow> isdigit c" for c by (simp add: decDigit_def)
  ultimately show ?thesis
    by (simp add: parseUnsignedDecimal_def parseUnsignedDecimal_loop_num list_all_iff)
qed

lemma parseHexSize_exact:
  "parseHexSize s =
     (if trim s \<noteq> [] \<and> (\<forall>c\<in>set (trim s). hexDigit c \<noteq> None) \<and> num_value 16 hexDigit 0 (trim s) \<le> size_max
      then Some (num_value 16 hexDigit 0 (trim s)) else None)"
proof -
  have "num_loop 16 hexDigit 0 (trim s) =
    (if (\<forall>c\<in>set (trim s). hexDigit c \<noteq> None) \<and> num_value 16 hexDigit 0 (trim s) \<le> size_max
     then Some (num_value 16 hexDigit 0 (trim s)) else None)"
    by (rule num_loop_exact) (auto dest!: hexDigit_le intro!: digit_le_max)
  then show ?thesis by (simp add: parseHexSize_def parseHexSize_loop_num Let_def)
qed

lemma digit_char_code:
  "d < 16 \<Longrightarrow> code_of (digit_char d) = (if d < 10 then 48 + d else 87 + d)"
  by (simp add: digit_char_def)

lemma decDigit_digit [simp]: "d < 10 \<Longrightarrow> decDigit (digit_char d) = Some d"
  by (simp add: decDigit_def isdigit_def digit_char_code)

lemma hexDigit_digit [simp]: "d < 16 \<Longrightarrow> hexDigit (digit_char d) = Some d"
  by (simp add: hexDigit_def Let_def digit_char_code)

lemma num_value_to_chars:
  assumes "1 < b" "\<And>d. d < b \<Longrightarrow> f (digit_char d) = Some d"
  shows "num_value b f 0 (to_chars b n) = n \<and> to_chars b n \<noteq> [] \<and>
    (\<forall>c\<in>set (to_chars b n). \<exists>d<b. c = digit_char d)"
proof (induction n rule: less_induct)
  case (less n)
  show ?case
  proof (cases "n < b")
    case True
    with assms show ?thesis by (auto simp: to_chars.simps [of b n] num_value_def)
  next
    case False
    have mod: "n mod b < b" using assms(1) by simp
    have IH: "num_value b f 0 (to_chars b (n div b)) = n div b"
        "\<forall>c\<in>set (to_chars b (n div b)). \<exists>d<b. c = digit_char d"
      using less [of "n div b"] False assms(1) by auto
    have "to_chars b n = to_chars b (n div b) @ [digit_char (n mod b)]"
      using False assms(1) by (simp add: to_chars.simps [of b n])
    moreover have "num_value b f 0 (to_chars b (n div b) @ [digit_char (n mod b)]) = n"
      using IH(1) assms(2) [OF mod] by (simp add: num_value_def)
    ultimately show ?thesis using IH(2) mod by auto
  qed
qed

lemma to_chars_10_digits: "c \<in> set (to_chars 10 n) \<Longrightarrow> isdigit c"
  using num_value_to_chars [of 10 decDigit n]
  by (auto simp: isdigit_def digit_char_code)

lemma parseUnsignedDecimal_to_chars: "n \<le> size_max \<Longrightarrow> parseUnsignedDecimal (to_chars 10 n) = Some n"
  using num_value_to_chars [of 10 decDigit n] to_chars_10_digits
  by (auto simp: parseUnsignedDecimal_exact list_all_iff)

lemma digit_char_plain: "d < 16 \<Longrightarrow> \<not> isspace (digit_char d) \<and> digit_char d \<noteq> CR \<and> digit_char d \<noteq> cSemicolon"
  using digit_char_code [of d] by (auto simp: isspace_def char_consts split: if_splits)

lemma to_chars_16_plain:
  "c \<in> set (to_chars 16 n) \<Longrightarrow> \<not> isspace c \<and> c \<noteq> CR \<and> c \<noteq> cSemicolon"
  using num_value_to_chars [of 16 hexDigit n] digit_char_plain by fastforce

lemma to_chars_trimmed: "(\<And>c. c \<in> set s \<Longrightarrow> \<not> isspace c) \<Longrightarrow> trimmed s"
  by (simp add: trimmed_def)

lemma parseHexSize_to_chars: "n \<le> size_max \<Longrightarrow> parseHexSize (to_chars 16 n) = Some n"
  using num_value_to_chars [of 16 hexDigit n] to_chars_16_plain [of _ n]
  by (auto simp: parseHexSize_exact to_chars_trimmed)

lemma length_to_chars_10: "length (to_chars 10 n) = decimalDigitCount n"
proof (induction n rule: less_induct)
  case (less n)
  then show ?case
    by (cases "n < 10") (simp_all add: to_chars.simps [of 10 n] decimalDigitCount.simps [of n])
qed

lemma length_to_chars_16: "length (to_chars 16 n) = hexDigitCount n"
proof (induction n rule: less_induct)
  case (less n)
  then show ?case
    by (cases "n < 16") (simp_all add: to_chars.simps [of 16 n] hexDigitCount.simps [of n])
qed

subsection \<open>Percent-encoding\<close>

lemma hex_upper: "d < 16 \<Longrightarrow> hexDigitValue (kHexDigitsUpper ! d) = int d"
proof -
  assume "d < 16"
  then have "d \<in> set [0..<16]" by simp
  moreover have "list_all (\<lambda>d. hexDigitValue (kHexDigitsUpper ! d) = int d) [0..<16]"
    by (simp add: kHexDigitsUpper_def hexDigitValue_def upt_rec)
  ultimately show ?thesis by (simp add: list_all_iff)
qed

lemma unreserved_plain: "urlUnreserved c \<Longrightarrow> c \<noteq> cPercent \<and> c \<noteq> cPlus"
  by (auto simp: urlUnreserved_def char_consts isalnum_def isdigit_def isupper_def islower_def)

lemma urlDecode_plain: "c \<noteq> cPercent \<Longrightarrow> c \<noteq> cPlus \<Longrightarrow> urlDecode (c # s) = c # urlDecode s"
  by (cases "(c # s)" rule: urlDecode.cases) auto

lemma urlDecode_urlEncode: "urlDecode (urlEncode s) = s"
proof (induction s)
  case Nil
  then show ?case by simp
next
  case (Cons c s)
  show ?case
  proof (cases "urlUnreserved c")
    case True
    with Cons unreserved_plain [of c] show ?thesis by (simp add: urlDecode_plain)
  next
    case False
    have "code_of c div 16 < 16" using code_of_less [of c] by (simp add: div_less_iff_less_mult)
    with False Cons show ?thesis by (simp add: hex_upper)
  qed
qed

interpretation url: codec "\<lambda>_. True" urlEncode "\<lambda>s. Some (urlDecode s)"
  by unfold_locales (simp add: urlDecode_urlEncode)

lemma urlEncode_chars: "c \<in> set (urlEncode s) \<Longrightarrow> urlUnreserved c \<or> c = cPercent"
proof (induction s)
  case (Cons x s)
  have "kHexDigitsUpper ! d \<in> set kHexDigitsUpper" if "d < 16" for d
  proof -
    have "length kHexDigitsUpper = 16" by (simp add: kHexDigitsUpper_def)
    with that show ?thesis by simp
  qed
  moreover have "\<forall>h\<in>set kHexDigitsUpper. urlUnreserved h"
    by (simp add: kHexDigitsUpper_def urlUnreserved_def isalnum_def isdigit_def isupper_def)
  ultimately have "urlUnreserved (kHexDigitsUpper ! (n mod 16))" for n by simp
  with Cons show ?case by (auto split: if_splits)
qed simp

text \<open>Percent-encoding. Decoding inverts encoding for every byte string, and the encoder emits only
  unreserved characters and percent signs, so that its output can stand in a request target.\<close>

theorem url_roundtrip:
  "urlDecode (urlEncode s) = s \<and> list_all (\<lambda>c. urlUnreserved c \<or> c = cPercent) (urlEncode s)"
  using urlDecode_urlEncode urlEncode_chars by (simp add: list_all_iff)

text \<open>Number fields. The decimal parser for \<open>Content-Length\<close> and the hexadecimal parser for
  chunk sizes return the value of their digits when every character is a digit and the value fits
  64 bits, and refuse everything else: the per-digit overflow guards neither
  wrap around nor refuse a representable value.\<close>

theorem number_fields_exact:
  "parseUnsignedDecimal s =
     (if s \<noteq> [] \<and> list_all isdigit s \<and> num_value 10 decDigit 0 s \<le> 2 ^ 64 - 1
      then Some (num_value 10 decDigit 0 s) else None) \<and>
   parseHexSize s =
     (if trim s \<noteq> [] \<and> list_all (\<lambda>c. hexDigit c \<noteq> None) (trim s) \<and>
         num_value 16 hexDigit 0 (trim s) \<le> 2 ^ 64 - 1
      then Some (num_value 16 hexDigit 0 (trim s)) else None)"
  using parseUnsignedDecimal_exact [of s] parseHexSize_exact [of s]
  by (simp only: list_all_iff size_max_def)

end
