(* ===== verification/Http_Parser.thy ===== *)
theory Http_Parser
  imports Http_Text
begin

text \<open>
  The message level of \<open>src/src/HttpParser.cpp\<close>: header sections, requests and responses,
  query strings, chunked bodies, and the builders.

  A \<open>std::string_view\<close> into the input is the string it shows. The head and message parsers return
  \<^term>\<open>None\<close> where the code returns \<open>false\<close>; on each of those paths the code has cleared the
  view. The views are records with the source's fields. \<open>substr\<close> lengths that the code computes by
  subtraction are reduced modulo \<open>2\<^sup>6\<^sup>4\<close>.

  The chunk decoder is the one place where the code can throw: \<open>std::string::append\<close> with a count above
  \<open>max_size\<close>. Its result is a sum with that exception on the left.
\<close>

subsection \<open>Limits\<close>

definition kMaxHeaderSectionSize :: nat where "kMaxHeaderSectionSize = 64 * 1024"
definition kMaxRequestLineSize :: nat where "kMaxRequestLineSize = 4096"
definition kMaxStatusLineSize :: nat where "kMaxStatusLineSize = 4096"
definition kMaxHeaderLineSize :: nat where "kMaxHeaderLineSize = 8192"
definition kMaxHeaderCount :: nat where "kMaxHeaderCount = 128"
definition kChunkedEncodeBlockSize :: nat where "kChunkedEncodeBlockSize = 8192"

lemmas http_limits = kMaxHeaderSectionSize_def kMaxRequestLineSize_def kMaxStatusLineSize_def
  kMaxHeaderLineSize_def kMaxHeaderCount_def kChunkedEncodeBlockSize_def

definition nameContentLength :: string where "nameContentLength = ''Content-Length''"
definition nameTransferEncoding :: string where "nameTransferEncoding = ''Transfer-Encoding''"

subsection \<open>Headers\<close>

type_synonym headers = "(string, string) omap"

fun findHeader :: "headers \<Rightarrow> string \<Rightarrow> string option" where
  "findHeader [] name = None"
| "findHeader ((headerName, value) # rest) name =
     (if caseInsensitiveCompare headerName name then Some value else findHeader rest name)"

fun contentLengthFromHeaders :: "headers \<Rightarrow> nat option" where
  "contentLengthFromHeaders [] = None"
| "contentLengthFromHeaders ((name, value) # rest) =
     (if caseInsensitiveCompare name nameContentLength then parseUnsignedDecimal (trim value)
      else contentLengthFromHeaders rest)"

text \<open>The comma-separated scan of \<open>containsToken\<close>, on the part of the value from \<open>offset\<close> on.\<close>

function containsToken :: "string \<Rightarrow> string \<Rightarrow> bool" where
  "containsToken headerValue token =
     (case find_char cComma headerValue of
        None \<Rightarrow> caseInsensitiveCompare (trim headerValue) token
      | Some comma \<Rightarrow>
          caseInsensitiveCompare (trim (take comma headerValue)) token \<or>
          containsToken (drop (comma + 1) headerValue) token)"
  by pat_completeness auto
termination
  by (relation "measure (\<lambda>(v, t). length v)") (auto dest: find_pred_less)

declare containsToken.simps [simp del]

fun isChunkedEncoding :: "headers \<Rightarrow> bool" where
  "isChunkedEncoding [] = False"
| "isChunkedEncoding ((name, value) # rest) =
     (if caseInsensitiveCompare name nameTransferEncoding \<and> containsToken value ''chunked'' then True
      else isChunkedEncoding rest)"

definition assignMessageBody :: "string \<Rightarrow> headers \<Rightarrow> string option" where
  "assignMessageBody remaining headers =
     (if isChunkedEncoding headers then Some remaining
      else case contentLengthFromHeaders headers of
        None \<Rightarrow> Some remaining
      | Some contentLength \<Rightarrow>
          if contentLength > length remaining then None else Some (substr remaining 0 contentLength))"

text \<open>One line of the header section: the guards of the loop body and the updated flags.\<close>

definition parseHeaderLine ::
  "string \<Rightarrow> bool \<Rightarrow> bool \<Rightarrow> (string \<times> string \<times> bool \<times> bool) option" where
  "parseHeaderLine line sawContentLength sawTransferEncoding =
     (if line = [] \<or> length line > kMaxHeaderLineSize \<or> hd line = cSpace \<or> hd line = cTab then None
      else case find_char cColon line of
        None \<Rightarrow> None
      | Some colon \<Rightarrow>
          if colon = 0 then None
          else
            let name = trim (substr line 0 colon);
                value = trim (drop (colon + 1) line)
            in if \<not> isValidHeaderName name then None
               else if caseInsensitiveCompare name nameContentLength \<and>
                       (sawContentLength \<or> parseUnsignedDecimal value = None) then None
               else if \<not> caseInsensitiveCompare name nameContentLength \<and>
                       caseInsensitiveCompare name nameTransferEncoding \<and> sawTransferEncoding then None
               else
                 let sawContentLength =
                       (sawContentLength \<or> caseInsensitiveCompare name nameContentLength);
                     sawTransferEncoding =
                       (sawTransferEncoding \<or>
                        \<not> caseInsensitiveCompare name nameContentLength \<and>
                        caseInsensitiveCompare name nameTransferEncoding)
                 in if sawContentLength \<and> sawTransferEncoding then None
                    else Some (name, value, sawContentLength, sawTransferEncoding))"

text \<open>The loop, on the part of the section from \<open>offset\<close> on.\<close>

function parseHeaderLines_loop ::
  "string \<Rightarrow> headers \<Rightarrow> nat \<Rightarrow> bool \<Rightarrow> bool \<Rightarrow> headers option" where
  "parseHeaderLines_loop headerLines headers headerCount sawContentLength sawTransferEncoding =
     (if headerLines = [] then Some headers
      else
        let lineEnd = find_str CRLF headerLines;
            line = (case lineEnd of None \<Rightarrow> headerLines | Some e \<Rightarrow> substr headerLines 0 e)
        in case parseHeaderLine line sawContentLength sawTransferEncoding of
             None \<Rightarrow> None
           | Some (name, value, sawContentLength, sawTransferEncoding) \<Rightarrow>
               if headerCount + 1 > kMaxHeaderCount then None
               else case lineEnd of
                 None \<Rightarrow> Some (omap_put name value headers)
               | Some e \<Rightarrow>
                   parseHeaderLines_loop (drop (e + 2) headerLines) (omap_put name value headers)
                     (headerCount + 1) sawContentLength sawTransferEncoding)"
  by pat_completeness auto
termination
  by (relation "measure (\<lambda>(s, _). length s)") auto

declare parseHeaderLines_loop.simps [simp del]

definition parseHeaderLines :: "string \<Rightarrow> headers option" where
  "parseHeaderLines headerLines =
     (if headerLines = [] then Some [] else parseHeaderLines_loop headerLines [] 0 False False)"

definition hasNoResponseBody :: "int \<Rightarrow> bool" where
  "hasNoResponseBody statusCode \<longleftrightarrow>
     (statusCode \<ge> 100 \<and> statusCode < 200) \<or> statusCode = 204 \<or> statusCode = 304"

subsection \<open>Requests\<close>

record HttpRequestView =
  rq_method :: string
  rq_target :: string
  rq_uri :: string
  rq_queryString :: string
  rq_version :: string
  rq_headers :: headers
  rq_body :: string
  rq_queryParams :: "(string, string) omap"

definition HttpRequestView_clear :: HttpRequestView where
  "HttpRequestView_clear =
     \<lparr>rq_method = [], rq_target = [], rq_uri = [], rq_queryString = [], rq_version = [],
      rq_headers = [], rq_body = [], rq_queryParams = []\<rparr>"

definition request_getHeader :: "HttpRequestView \<Rightarrow> string \<Rightarrow> string option" where
  "request_getHeader r name = findHeader (rq_headers r) name"

definition request_getContentLength :: "HttpRequestView \<Rightarrow> nat" where
  "request_getContentLength r =
     (case contentLengthFromHeaders (rq_headers r) of None \<Rightarrow> 0 | Some n \<Rightarrow> n)"

definition keepAlive :: "string \<Rightarrow> string option \<Rightarrow> bool" where
  "keepAlive version connection =
     (if caseInsensitiveCompare version ''HTTP/1.0''
      then (case connection of None \<Rightarrow> False | Some c \<Rightarrow> containsToken c ''keep-alive'')
      else (case connection of None \<Rightarrow> True | Some c \<Rightarrow> \<not> containsToken c ''close''))"

definition request_isKeepAlive :: "HttpRequestView \<Rightarrow> bool" where
  "request_isKeepAlive r = keepAlive (rq_version r) (request_getHeader r ''Connection'')"

function parseQueryString_loop :: "string \<Rightarrow> (string, string) omap \<Rightarrow> (string, string) omap" where
  "parseQueryString_loop query params =
     (let ampersand = find_char cAmpersand query;
          pair = (case ampersand of None \<Rightarrow> query | Some a \<Rightarrow> take a query);
          params1 =
            (if pair = [] then params
             else case find_char cEquals pair of
               None \<Rightarrow> omap_put pair [] params
             | Some eq \<Rightarrow> omap_put (substr pair 0 eq) (drop (eq + 1) pair) params)
      in case ampersand of
           None \<Rightarrow> params1
         | Some a \<Rightarrow> parseQueryString_loop (drop (a + 1) query) params1)"
  by pat_completeness auto
termination
  by (relation "measure (\<lambda>(q, _). length q)") (auto dest!: find_pred_less [OF sym])

declare parseQueryString_loop.simps [simp del]

definition parseQueryString :: "string \<Rightarrow> (string, string) omap" where
  "parseQueryString query =
     (let query = (if query \<noteq> [] \<and> hd query = cQuestion then tl query else query)
      in parseQueryString_loop query [])"

text \<open>The request line, split at its two spaces.\<close>

definition splitRequestLine :: "string \<Rightarrow> (string \<times> string \<times> string) option" where
  "splitRequestLine requestLine =
     (case find_char cSpace requestLine of
        None \<Rightarrow> None
      | Some firstSpace \<Rightarrow>
          if firstSpace = 0 then None
          else case find_char_from cSpace (firstSpace + 1) requestLine of
            None \<Rightarrow> None
          | Some secondSpace \<Rightarrow>
              if secondSpace = firstSpace + 1 then None
              else if find_char_from cSpace (secondSpace + 1) requestLine \<noteq> None then None
              else Some (substr requestLine 0 firstSpace,
                         substr requestLine (firstSpace + 1) (secondSpace - firstSpace - 1),
                         drop (secondSpace + 1) requestLine))"

definition splitTarget :: "HttpRequestView \<Rightarrow> HttpRequestView" where
  "splitTarget request =
     (let target = rq_target request;
          targetWithoutFragment =
            (case find_char cHash target of None \<Rightarrow> target | Some f \<Rightarrow> substr target 0 f)
      in case find_char cQuestion targetWithoutFragment of
           None \<Rightarrow> request\<lparr>rq_uri := targetWithoutFragment\<rparr>
         | Some queryPos \<Rightarrow>
             let queryString = drop (queryPos + 1) targetWithoutFragment
             in request\<lparr>rq_uri := substr targetWithoutFragment 0 queryPos,
                        rq_queryString := queryString,
                        rq_queryParams := parseQueryString queryString\<rparr>)"

text \<open>The header section starts after the first line break; its length is \<open>headerEnd - headerLinesOffset\<close>
  in \<open>size_t\<close> arithmetic.\<close>

definition headerSection :: "string \<Rightarrow> nat \<Rightarrow> nat \<Rightarrow> string" where
  "headerSection data firstLineEnd headerEnd =
     (let headerLinesOffset = firstLineEnd + 2
      in substr data headerLinesOffset (wrap64 (headerEnd + 2 ^ 64 - headerLinesOffset)))"

definition parseRequestHead :: "string \<Rightarrow> HttpRequestView option" where
  "parseRequestHead data =
     (if data = [] then None
      else case find_str (CRLF @ CRLF) data of
        None \<Rightarrow> None
      | Some headerEnd \<Rightarrow>
          if headerEnd > kMaxHeaderSectionSize then None
          else case find_str CRLF data of
            None \<Rightarrow> None
          | Some requestLineEnd \<Rightarrow>
              if requestLineEnd > kMaxRequestLineSize then None
              else case splitRequestLine (substr data 0 requestLineEnd) of
                None \<Rightarrow> None
              | Some (method, target, version) \<Rightarrow>
                  if \<not> isValidHeaderName method \<or> target = [] \<or> \<not> isValidHttpVersion version then None
                  else
                    let request = splitTarget (HttpRequestView_clear
                          \<lparr>rq_method := method, rq_target := target, rq_version := version\<rparr>)
                    in case parseHeaderLines (headerSection data requestLineEnd headerEnd) of
                         None \<Rightarrow> None
                       | Some headers \<Rightarrow> Some (request\<lparr>rq_headers := headers, rq_body := []\<rparr>))"

definition messageRest :: "string \<Rightarrow> string" where
  "messageRest data =
     (case find_str (CRLF @ CRLF) data of None \<Rightarrow> [] | Some headerEnd \<Rightarrow> drop (headerEnd + 4) data)"

definition parseRequest :: "string \<Rightarrow> HttpRequestView option" where
  "parseRequest data =
     (case parseRequestHead data of
        None \<Rightarrow> None
      | Some request \<Rightarrow>
          (case assignMessageBody (messageRest data) (rq_headers request) of
             None \<Rightarrow> None
           | Some body \<Rightarrow> Some (request\<lparr>rq_body := body\<rparr>)))"

subsection \<open>Responses\<close>

record HttpResponseView =
  rs_statusCode :: int
  rs_statusMessage :: string
  rs_version :: string
  rs_headers :: headers
  rs_body :: string

definition HttpResponseView_clear :: HttpResponseView where
  "HttpResponseView_clear =
     \<lparr>rs_statusCode = 200, rs_statusMessage = ''OK'', rs_version = [], rs_headers = [], rs_body = []\<rparr>"

definition response_getHeader :: "HttpResponseView \<Rightarrow> string \<Rightarrow> string option" where
  "response_getHeader r name = findHeader (rs_headers r) name"

definition response_getContentLength :: "HttpResponseView \<Rightarrow> nat" where
  "response_getContentLength r =
     (case contentLengthFromHeaders (rs_headers r) of None \<Rightarrow> 0 | Some n \<Rightarrow> n)"

definition response_isKeepAlive :: "HttpResponseView \<Rightarrow> bool" where
  "response_isKeepAlive r = keepAlive (rs_version r) (response_getHeader r ''Connection'')"

definition splitStatusLine :: "string \<Rightarrow> (string \<times> string \<times> string) option" where
  "splitStatusLine statusLine =
     (case find_char cSpace statusLine of
        None \<Rightarrow> None
      | Some firstSpace \<Rightarrow>
          if firstSpace = 0 then None
          else case find_char_from cSpace (firstSpace + 1) statusLine of
            None \<Rightarrow> None
          | Some secondSpace \<Rightarrow>
              if secondSpace = firstSpace + 1 then None
              else Some (substr statusLine 0 firstSpace,
                         substr statusLine (firstSpace + 1) (secondSpace - firstSpace - 1),
                         trim (drop (secondSpace + 1) statusLine)))"

fun statusCode_loop :: "int \<Rightarrow> string \<Rightarrow> int option" where
  "statusCode_loop statusCode [] = Some statusCode"
| "statusCode_loop statusCode (ch # rest) =
     (if \<not> isdigit ch then None else statusCode_loop (statusCode * 10 + (int (code_of ch) - 48)) rest)"

definition parseResponseHead :: "string \<Rightarrow> HttpResponseView option" where
  "parseResponseHead data =
     (if data = [] then None
      else case find_str (CRLF @ CRLF) data of
        None \<Rightarrow> None
      | Some headerEnd \<Rightarrow>
          if headerEnd > kMaxHeaderSectionSize then None
          else case find_str CRLF data of
            None \<Rightarrow> None
          | Some statusLineEnd \<Rightarrow>
              if statusLineEnd > kMaxStatusLineSize then None
              else case splitStatusLine (substr data 0 statusLineEnd) of
                None \<Rightarrow> None
              | Some (version, codeText, message) \<Rightarrow>
                  if \<not> isValidHttpVersion version \<or> length codeText \<noteq> 3 then None
                  else case statusCode_loop 0 codeText of
                    None \<Rightarrow> None
                  | Some statusCode \<Rightarrow>
                      (case parseHeaderLines (headerSection data statusLineEnd headerEnd) of
                         None \<Rightarrow> None
                       | Some headers \<Rightarrow>
                           Some \<lparr>rs_statusCode = statusCode, rs_statusMessage = message, rs_version = version,
                                 rs_headers = headers, rs_body = []\<rparr>))"

definition parseResponse :: "string \<Rightarrow> HttpResponseView option" where
  "parseResponse data =
     (case parseResponseHead data of
        None \<Rightarrow> None
      | Some response \<Rightarrow>
          if hasNoResponseBody (rs_statusCode response) then Some (response\<lparr>rs_body := []\<rparr>)
          else case assignMessageBody (messageRest data) (rs_headers response) of
            None \<Rightarrow> None
          | Some body \<Rightarrow> Some (response\<lparr>rs_body := body\<rparr>))"

subsection \<open>Chunked bodies\<close>

datatype http_exception = length_error

text \<open>\<open>std::string::max_size()\<close>: no string reaches \<open>PTRDIFF_MAX\<close> bytes.\<close>

definition string_max_size :: nat where
  "string_max_size = 2 ^ 63 - 1"

function trailers_loop :: "string \<Rightarrow> nat \<Rightarrow> bool" where
  "trailers_loop data offset =
     (case find_str_from CRLF offset data of
        None \<Rightarrow> False
      | Some trailerEnd \<Rightarrow>
          let trailerLine = substr data offset (trailerEnd - offset);
              offset = trailerEnd + 2
          in if trailerLine = [] then offset = length data
             else case find_char cColon trailerLine of
               None \<Rightarrow> False
             | Some colon \<Rightarrow>
                 if \<not> isValidHeaderName (trim (substr trailerLine 0 colon)) then False
                 else trailers_loop data offset)"
  by pat_completeness auto
termination
  by (relation "measure (\<lambda>(data, offset). length data - offset)") (auto dest!: find_str_from_le)

declare trailers_loop.simps [simp del]

definition chunkSizeLine :: "string \<Rightarrow> string" where
  "chunkSizeLine line =
     (let sizeLine = trim line
      in case find_char cSemicolon sizeLine of
           None \<Rightarrow> sizeLine
         | Some extensionPos \<Rightarrow> trim (substr sizeLine 0 extensionPos))"

function parseChunked_loop :: "string \<Rightarrow> nat \<Rightarrow> string \<Rightarrow> http_exception + bool \<times> string" where
  "parseChunked_loop data offset body =
     (if offset \<ge> length data then Inr (False, body)
      else case find_str_from CRLF offset data of
        None \<Rightarrow> Inr (False, body)
      | Some lineEnd \<Rightarrow>
          (case parseHexSize (chunkSizeLine (substr data offset (lineEnd - offset))) of
             None \<Rightarrow> Inr (False, body)
           | Some chunkSize \<Rightarrow>
               let offset = lineEnd + 2
               in if chunkSize = 0 then Inr (trailers_loop data offset, body)
                  else if wrap64 (offset + chunkSize + 2) > length data then Inr (False, body)
                  else if length body + chunkSize > string_max_size then Inl length_error
                  else
                    let body = body @ substr data offset chunkSize;
                        offset = offset + chunkSize
                    in if substr data offset 2 \<noteq> CRLF then Inr (False, body)
                       else parseChunked_loop data (offset + 2) body))"
  by pat_completeness auto
termination
  by (relation "measure (\<lambda>(data, offset, _). length data - offset)") (auto dest!: find_str_from_le)

declare parseChunked_loop.simps [simp del]

definition parseChunked :: "string \<Rightarrow> http_exception + bool \<times> string" where
  "parseChunked data = parseChunked_loop data 0 []"

function buildChunked_loop :: "string \<Rightarrow> string \<Rightarrow> string" where
  "buildChunked_loop data encoded =
     (if data = [] then encoded
      else let chunkSize = min kChunkedEncodeBlockSize (length data)
           in buildChunked_loop (drop chunkSize data)
                (appendUnsignedHex encoded chunkSize @ CRLF @ take chunkSize data @ CRLF))"
  by pat_completeness auto
termination
  by (relation "measure (\<lambda>(data, _). length data)") (auto simp: kChunkedEncodeBlockSize_def)

declare buildChunked_loop.simps [simp del]

definition buildChunked :: "string \<Rightarrow> string" where
  "buildChunked data = buildChunked_loop data [] @ ''0'' @ CRLF @ CRLF"

subsection \<open>Builders\<close>

definition appendHeaderLine :: "string \<Rightarrow> string \<Rightarrow> string \<Rightarrow> string" where
  "appendHeaderLine output name value = output @ name @ [cColon, cSpace] @ value @ CRLF"

definition estimateHeaderBytes :: "headers \<Rightarrow> nat" where
  "estimateHeaderBytes headers = (\<Sum>(name, value)\<leftarrow>headers. length name + 2 + length value + 2)"

definition appendHeaders :: "string \<Rightarrow> headers \<Rightarrow> string \<Rightarrow> string" where
  "appendHeaders output headers body =
     (let hasContentLength = list_ex (\<lambda>(name, _). caseInsensitiveCompare name nameContentLength) headers;
          hasTransferEncoding =
            list_ex (\<lambda>(name, _). \<not> caseInsensitiveCompare name nameContentLength \<and>
                                 caseInsensitiveCompare name nameTransferEncoding) headers;
          output = foldl (\<lambda>out (name, value). appendHeaderLine out name value) output headers
      in if \<not> hasTransferEncoding \<and> \<not> hasContentLength
         then appendUnsignedDecimal (output @ nameContentLength @ [cColon, cSpace]) (length body) @ CRLF
         else output)"

definition buildRequest :: "string \<Rightarrow> string \<Rightarrow> headers \<Rightarrow> string \<Rightarrow> string" where
  "buildRequest method uri headers body =
     appendHeaders (method @ [cSpace] @ uri @ '' HTTP/1.1'' @ CRLF) headers body @ CRLF @ body"

definition buildRequest_reserve :: "string \<Rightarrow> string \<Rightarrow> headers \<Rightarrow> string \<Rightarrow> nat" where
  "buildRequest_reserve method uri headers body =
     length method + length uri + length body + estimateHeaderBytes headers +
     decimalDigitCount (length body) + 32"

definition buildResponse :: "int \<Rightarrow> string \<Rightarrow> headers \<Rightarrow> string \<Rightarrow> string" where
  "buildResponse statusCode statusMessage headers body =
     appendHeaders
       (appendSignedDecimal ''HTTP/1.1 '' statusCode @ [cSpace] @ statusMessage @ CRLF) headers body @
     CRLF @ body"

lemma find_str_extend: "find_str pat xs = Some i \<Longrightarrow> find_str pat (xs @ ys) = Some i"
proof (induction xs arbitrary: i)
  case Nil
  then show ?case by (cases ys) (auto split: if_splits)
next
  case (Cons x xs)
  show ?case
  proof (cases "take (length pat) (x # xs) = pat")
    case True
    then have "take (length pat) (x # xs @ ys) = pat"
      by (metis append_Cons append_take_drop_id append_eq_conv_conj append.assoc)
    with True Cons.prems show ?thesis by simp
  next
    case False
    with Cons.prems obtain k where k: "find_str pat xs = Some k" "i = Suc k" by auto
    from find_str_Some_le [OF k(1)] have "length pat \<le> length xs" by simp
    then have "take (length pat) (x # xs @ ys) = take (length pat) (x # xs)"
      by (cases "length pat") auto
    with False Cons.IH [OF k(1)] k(2) show ?thesis by simp
  qed
qed

lemma find_str_restrict:
  assumes "find_str pat (xs @ ys) = Some i" "i + length pat \<le> length xs"
  shows "find_str pat xs = Some i"
proof (cases "find_str pat xs")
  case (Some j)
  with find_str_extend [OF Some, of ys] assms show ?thesis by simp
next
  case None
  have "take (length pat) (drop i xs) = pat"
    using find_str_Some_take [OF assms(1)] assms(2) by simp
  with None show ?thesis
  proof (induction xs arbitrary: i)
    case (Cons x xs)
    then show ?case by (cases i) (auto split: if_splits)
  qed (simp split: if_splits)
qed

text \<open>A line without a line break, the way \<open>find("\r\n")\<close> delimits it.\<close>

definition no_break :: "string \<Rightarrow> bool" where
  "no_break line \<longleftrightarrow> find_str CRLF (line @ CRLF) = Some (length line)"

lemma find_CRLF: "no_break line \<Longrightarrow> find_str CRLF (line @ CR # LF # rest) = Some (length line)"
  using find_str_extend [of CRLF "line @ CRLF" "length line" rest] by (simp add: no_break_def)

lemma find_CRLF_D:
  assumes "find_str CRLF xs = Some i"
  obtains line rest where "xs = line @ CR # LF # rest" "no_break line" "i = length line"
proof
  have le: "i + 2 \<le> length xs" using find_str_Some_le [OF assms] by simp
  have sp: "xs = take i xs @ CR # LF # drop (i + 2) xs"
    using find_str_Some_split [OF assms] by simp
  then show "xs = take i xs @ CR # LF # drop (i + 2) xs" .
  show "i = length (take i xs)" using le by simp
  show "no_break (take i xs)"
    unfolding no_break_def
    by (rule find_str_restrict [where ys = "drop (i + 2) xs"]) (use assms sp le in simp_all)
qed

lemma no_break_notin: "CR \<notin> set line \<Longrightarrow> no_break line"
  unfolding no_break_def using find_str_hit [of CRLF line "[]"] by simp

lemma find_from_CRLF:
  "drop off data = line @ CR # LF # rest \<Longrightarrow> no_break line \<Longrightarrow> off \<le> length data \<Longrightarrow>
   find_str_from CRLF off data = Some (off + length line)"
  by (simp add: find_str_from_def find_CRLF)

lemma find_from_CRLF_D:
  assumes "find_str_from CRLF off data = Some e"
  obtains line rest where "drop off data = line @ CR # LF # rest" "no_break line" "e = off + length line"
    "off \<le> length data"
proof -
  from assms obtain k where k: "find_str CRLF (drop off data) = Some k" "e = off + k" "off \<le> length data"
    by (auto simp: find_str_from_def split: if_splits)
  from find_CRLF_D [OF k(1)] k(2,3) that show ?thesis by metis
qed

lemma drop_from:
  "drop off data = a @ b \<Longrightarrow> drop (off + length a) data = b \<and> substr data off (length a) = a"
proof -
  assume "drop off data = a @ b"
  then show ?thesis
    by (simp add: substr_def) (metis add.commute append_eq_conv_conj drop_drop)
qed

subsection \<open>The chunked grammar\<close>

inductive trailers :: "string \<Rightarrow> bool" where
  trailers_end: "trailers CRLF"
| trailers_line: "trailers (line @ CR # LF # rest)"
    if "no_break line" "line \<noteq> []" "find_char cColon line = Some colon"
      "isValidHeaderName (trim (take colon line))" "trailers rest"

inductive chunked_body :: "string \<Rightarrow> string \<Rightarrow> bool" where
  last_chunk: "chunked_body (line @ CR # LF # rest) []"
    if "no_break line" "parseHexSize (chunkSizeLine line) = Some 0" "trailers rest"
| chunk: "chunked_body (line @ CR # LF # c @ CR # LF # rest) (c @ body)"
    if "no_break line" "parseHexSize (chunkSizeLine line) = Some (length c)" "c \<noteq> []"
      "chunked_body rest body"

lemma line_offsets:
  assumes "drop off data = line @ CR # LF # rest" "off \<le> length data"
  shows "drop (off + length line + 2) data = rest" "substr data off (length line) = line"
    "off + length line + 2 + length rest = length data"
proof -
  have "length (drop off data) = length line + 2 + length rest" using assms(1) by simp
  with assms(2) show "off + length line + 2 + length rest = length data" by simp
  show "drop (off + length line + 2) data = rest" "substr data off (length line) = line"
    using drop_from [of off data "line @ CRLF" rest] drop_from [of off data line "CR # LF # rest"] assms
    by (simp_all add: add.assoc)
qed

lemma trailers_loop_step:
  assumes "drop off data = line @ CR # LF # rest" "no_break line" "off \<le> length data"
  shows "trailers_loop data off =
    (if line = [] then rest = []
     else case find_char cColon line of
       None \<Rightarrow> False
     | Some c \<Rightarrow> isValidHeaderName (trim (take c line)) \<and> trailers_loop data (off + length line + 2))"
  using line_offsets [OF assms(1,3)]
  by (subst trailers_loop.simps)
    (auto simp: find_from_CRLF [OF assms] substr_def split: option.splits)

lemma trailers_loop_sound: "off \<le> length data \<Longrightarrow> trailers_loop data off \<Longrightarrow> trailers (drop off data)"
proof (induction "length data - off" arbitrary: off rule: less_induct)
  case less
  from less.prems obtain e where "find_str_from CRLF off data = Some e"
    by (auto simp: trailers_loop.simps [of data off] split: option.splits)
  then obtain line rest where d: "drop off data = line @ CR # LF # rest" "no_break line"
    by (auto elim: find_from_CRLF_D)
  note off = line_offsets [OF d(1) less.prems(1)]
  show ?case
  proof (cases "line = []")
    case True
    with less.prems trailers_loop_step [OF d] d show ?thesis by (simp add: trailers_end)
  next
    case False
    with less.prems trailers_loop_step [OF d] obtain c where c: "find_char cColon line = Some c"
        "isValidHeaderName (trim (take c line))" "trailers_loop data (off + length line + 2)"
      by (auto split: option.splits)
    have "trailers (drop (off + length line + 2) data)"
      by (rule less.hyps) (use c off in auto)
    then show ?thesis
      unfolding d(1) off(1) using False c d(2) by (intro trailers_line)
  qed
qed

lemma trailers_loop_complete: "trailers s \<Longrightarrow> s = drop off data \<Longrightarrow> off \<le> length data \<Longrightarrow> trailers_loop data off"
proof (induction s arbitrary: off rule: trailers.induct)
  case trailers_end
  then have "drop off data = [] @ CR # LF # []" by simp
  from trailers_loop_step [OF this _ trailers_end(2)] show ?case by (simp add: no_break_notin)
next
  case (trailers_line line colon rest)
  note d = trailers_line.prems(1) [symmetric]
  note off = line_offsets [OF d trailers_line.prems(2)]
  have "trailers_loop data (off + length line + 2)"
    by (rule trailers_line.IH) (use off in auto)
  with trailers_loop_step [OF d trailers_line(1) trailers_line.prems(2)] trailers_line(2-4)
  show ?case by simp
qed

subsection \<open>The decoder accepts the grammar\<close>

lemma wrap_room:
  assumes "off \<le> length data" "length data < string_max_size" "n \<le> string_max_size"
  shows "wrap64 (off + n + 2) = off + n + 2"
  using assms by (intro wrap64_small) (simp add: string_max_size_def size_max_def)

lemma parseChunked_step:
  assumes "drop off data = line @ CR # LF # rest" "no_break line" "off \<le> length data"
    and "parseHexSize (chunkSizeLine line) = Some n"
  shows "parseChunked_loop data off body =
    (if n = 0 then Inr (trailers_loop data (off + length line + 2), body)
     else if wrap64 (off + length line + 2 + n + 2) > length data then Inr (False, body)
     else if length body + n > string_max_size then Inl length_error
     else if substr data (off + length line + 2 + n) 2 \<noteq> CRLF
     then Inr (False, body @ substr data (off + length line + 2) n)
     else parseChunked_loop data (off + length line + 2 + n + 2) (body @ substr data (off + length line + 2) n))"
  using line_offsets [OF assms(1,3)] arg_cong [OF assms(1), of length]
  by (subst parseChunked_loop.simps) (simp add: find_from_CRLF [OF assms(1-3)] assms(4) Let_def)

lemma parseChunked_sound:
  assumes "off \<le> length data" "length data < string_max_size" "parseChunked_loop data off acc = Inr (True, b)"
  shows "\<exists>body. b = acc @ body \<and> chunked_body (drop off data) body"
  using assms(1,3)
proof (induction "length data - off" arbitrary: off acc rule: less_induct)
  case less
  from less.prems obtain e where e: "off < length data" "find_str_from CRLF off data = Some e"
    by (auto simp: parseChunked_loop.simps [of data off] not_le split: option.splits if_splits)
  then obtain line rest where d: "drop off data = line @ CR # LF # rest" "no_break line"
    by (auto elim: find_from_CRLF_D)
  note off = line_offsets [OF d(1) less.prems(1)]
  have "parseHexSize (chunkSizeLine line) \<noteq> None"
    using less.prems e find_from_CRLF [OF d less.prems(1)] off(2)
    by (auto simp: parseChunked_loop.simps [of data off] split: option.splits)
  then obtain n where n: "parseHexSize (chunkSizeLine line) = Some n" by auto
  note step = parseChunked_step [OF d less.prems(1) n, of acc]
  show ?case
  proof (cases "n = 0")
    case True
    with step less.prems have "b = acc" "trailers_loop data (off + length line + 2)" by auto
    with trailers_loop_sound off True n d show ?thesis
      by (metis append_Nil2 last_chunk le_add1)
  next
    case False
    let ?o = "off + length line + 2"
    from False step less.prems(2) have ok: "\<not> wrap64 (?o + n + 2) > length data" "length acc + n \<le> string_max_size"
        "substr data (?o + n) 2 = CRLF"
        "parseChunked_loop data (?o + n + 2) (acc @ substr data ?o n) = Inr (True, b)"
      by (auto split: if_splits)
    have room: "?o + n + 2 \<le> length data"
      using ok(1,2) wrap_room [of ?o data n] off(3) assms(2) by simp
    define c where "c = take n rest"
    have rest: "rest = c @ CR # LF # drop (?o + n + 2) data" "length c = n"
    proof -
      have dr: "drop (?o + k) data = drop k rest" for k
        using off(1) by (metis add.commute drop_drop)
      have "take 2 (drop n rest) = CRLF" using ok(3) unfolding substr_def dr .
      then have "drop n rest = CRLF @ drop 2 (drop n rest)" by (metis append_take_drop_id)
      then show "rest = c @ CR # LF # drop (?o + n + 2) data"
        using dr [of "n + 2"] append_take_drop_id [of n rest] by (simp add: c_def add.assoc)
      show "length c = n" using room off(3) by (simp add: c_def)
    qed
    have sub: "substr data ?o n = c" by (simp only: substr_def c_def off(1))
    have "length data - (?o + n + 2) < length data - off" using room by simp
    from less.hyps [OF this room ok(4) [unfolded sub]]
    obtain body where body: "b = (acc @ c) @ body" "chunked_body (drop (?o + n + 2) data) body"
      by blast
    have "chunked_body (line @ CR # LF # c @ CR # LF # drop (?o + n + 2) data) (c @ body)"
      using d(2) n rest(2) False body(2) by (intro chunk) auto
    with body(1) show ?thesis unfolding d(1) by (metis append_assoc rest(1))
  qed
qed

lemma parseChunked_complete:
  assumes "chunked_body s body" "s = drop off data" "off \<le> length data" "length acc \<le> off"
    and "length data < string_max_size"
  shows "parseChunked_loop data off acc = Inr (True, acc @ body)"
  using assms(1-4)
proof (induction s body arbitrary: off acc rule: chunked_body.induct)
  case (last_chunk line rest)
  note d = last_chunk(4) [symmetric]
  note off = line_offsets [OF d last_chunk(5)]
  have "trailers_loop data (off + length line + 2)"
    by (rule trailers_loop_complete [OF last_chunk(3)]) (use off in auto)
  with parseChunked_step [OF d last_chunk(1,5,2)] show ?case by simp
next
  case (chunk line c rest body)
  note d = chunk(6) [symmetric]
  note off = line_offsets [OF d chunk(7)]
  let ?o = "off + length line + 2"
  have dr: "drop (?o + k) data = drop k (c @ CR # LF # rest)" for k
    using off(1) by (metis add.commute drop_drop)
  have room: "?o + length c + 2 \<le> length data" using off(3) by simp
  have "wrap64 (?o + length c + 2) = ?o + length c + 2"
    by (rule wrap_room) (use room assms(5) in auto)
  moreover have "length acc + length c \<le> string_max_size" using room assms(5) chunk(8) by simp
  moreover have "substr data ?o (length c) = c" "substr data (?o + length c) 2 = CRLF"
    using dr [of 0] dr [of "length c"] unfolding substr_def by simp_all
  moreover have "parseChunked_loop data (?o + length c + 2) (acc @ c) = Inr (True, (acc @ c) @ body)"
    by (rule chunk.IH) (use room chunk(8) dr [of "length c + 2"] in \<open>simp_all add: add.assoc\<close>)
  ultimately show ?case
    using parseChunked_step [OF d chunk(1,7,2), of acc] room chunk(3) by simp
qed

text \<open>C10: Chunked bodies. For every input a string can hold, the decoder accepts exactly the inputs of the
  chunked grammar (hexadecimal size lines with optional extensions, chunk data, a zero chunk,
  valid trailer lines, and nothing after them), and the body is the concatenation of the chunk data.\<close>

theorem parseChunked_accepts:
  assumes "length data < string_max_size"
  shows "parseChunked data = Inr (True, body) \<longleftrightarrow> chunked_body data body"
  using parseChunked_sound [of 0 data "[]" body] parseChunked_complete [of data body 0 data "[]"] assms
  by (auto simp: parseChunked_def)

lemma size_line: "n \<le> size_max \<Longrightarrow> no_break (to_chars 16 n) \<and> chunkSizeLine (to_chars 16 n) = to_chars 16 n \<and>
    parseHexSize (chunkSizeLine (to_chars 16 n)) = Some n"
proof -
  assume n: "n \<le> size_max"
  have "find_char cSemicolon (to_chars 16 n) = None"
    using to_chars_16_plain [of _ n] by (auto simp: find_pred_None)
  moreover have "trimmed (to_chars 16 n)"
    using to_chars_16_plain [of _ n] by (intro to_chars_trimmed) auto
  ultimately have "chunkSizeLine (to_chars 16 n) = to_chars 16 n" by (simp add: chunkSizeLine_def)
  with n parseHexSize_to_chars [of n] to_chars_16_plain [of _ n] no_break_notin [of "to_chars 16 n"]
  show ?thesis by auto
qed

definition first_chunk :: "string \<Rightarrow> nat" where
  "first_chunk d = min kChunkedEncodeBlockSize (length d)"

lemma first_chunk_bounds: "d \<noteq> [] \<Longrightarrow> 0 < first_chunk d \<and> first_chunk d \<le> length d"
  by (simp add: first_chunk_def kChunkedEncodeBlockSize_def)

lemma buildChunked_loop_unfold:
  "d \<noteq> [] \<Longrightarrow> buildChunked_loop d e = buildChunked_loop (drop (first_chunk d) d)
     (e @ to_chars 16 (first_chunk d) @ CRLF @ take (first_chunk d) d @ CRLF)"
  by (subst buildChunked_loop.simps) (simp add: Let_def first_chunk_def appendUnsignedHex_def)

lemma buildChunked_loop_acc: "buildChunked_loop d e = e @ buildChunked_loop d []"
proof (induction "length d" arbitrary: d e rule: less_induct)
  case less
  show ?case
  proof (cases "d = []")
    case True
    then show ?thesis by (simp add: buildChunked_loop.simps)
  next
    case False
    then have "length (drop (first_chunk d) d) < length d" using first_chunk_bounds [of d] by simp
    from less [OF this] buildChunked_loop_unfold [OF False] show ?thesis
      by (metis append_assoc append_Nil)
  qed
qed

lemma buildChunked_loop_step:
  assumes "d \<noteq> []"
  shows "buildChunked_loop d [] = to_chars 16 (first_chunk d) @ CRLF @ take (first_chunk d) d @ CRLF @
    buildChunked_loop (drop (first_chunk d) d) []"
  unfolding buildChunked_loop_unfold [OF assms, of "[]"]
  by (subst buildChunked_loop_acc) simp

lemma build_chunked_body: "length d \<le> size_max \<Longrightarrow> chunked_body (buildChunked_loop d [] @ ''0'' @ CRLF @ CRLF) d"
proof (induction "length d" arbitrary: d rule: less_induct)
  case less
  show ?case
  proof (cases "d = []")
    case True
    have "to_chars 16 0 = ''0''" by code_simp
    with size_line [of 0] have z: "no_break ''0''" "parseHexSize (chunkSizeLine ''0'') = Some 0" by auto
    have "chunked_body (''0'' @ CR # LF # CRLF) []"
      by (rule last_chunk [OF z trailers_end])
    with True show ?thesis by (simp add: buildChunked_loop.simps)
  next
    case False
    define k where "k = first_chunk d"
    have k: "0 < k" "k \<le> length d" using first_chunk_bounds [OF False] by (simp_all add: k_def)
    let ?rest = "buildChunked_loop (drop k d) [] @ ''0'' @ CRLF @ CRLF"
    have "chunked_body ?rest (drop k d)"
      using k less.prems by (intro less.hyps) auto
    then have "chunked_body (to_chars 16 k @ CR # LF # take k d @ CR # LF # ?rest) (take k d @ drop k d)"
      using k size_line [of k] less.prems False by (intro chunk) auto
    moreover note buildChunked_loop_step [OF False, folded k_def]
    ultimately show ?thesis by simp
  qed
qed

lemma length_buildChunked_loop: "length d \<le> length (buildChunked_loop d [])"
proof (induction "length d" arbitrary: d rule: less_induct)
  case less
  show ?case
  proof (cases "d = []")
    case False
    define k where "k = first_chunk d"
    have k: "0 < k" "k \<le> length d" using first_chunk_bounds [OF False] by (simp_all add: k_def)
    have "length (drop k d) \<le> length (buildChunked_loop (drop k d) [])"
      using k by (intro less) simp
    moreover note buildChunked_loop_step [OF False, folded k_def]
    ultimately show ?thesis using k by simp
  qed simp
qed

text \<open>Chunked round trip. Whatever the chunk encoder produces, in blocks of 8192 bytes, the decoder accepts,
  and it returns the original data.\<close>

theorem chunked_roundtrip:
  assumes "length (buildChunked data) < string_max_size"
  shows "parseChunked (buildChunked data) = Inr (True, data)"
proof -
  have "length data \<le> size_max"
    using assms length_buildChunked_loop [of data] by (simp add: buildChunked_def string_max_size_def size_max_def)
  then have "chunked_body (buildChunked data) data" unfolding buildChunked_def by (rule build_chunked_body)
  then show ?thesis
    using parseChunked_complete [of "buildChunked data" data 0 "buildChunked data" "[]"] assms
    by (simp add: parseChunked_def)
qed

theorem chunked_roundtrip_witness: "parseChunked (buildChunked ''hi'') = Inr (True, ''hi'')"
  by (rule chunked_roundtrip)
    (simp add: buildChunked_def buildChunked_loop.simps kChunkedEncodeBlockSize_def appendUnsignedHex_def
      to_chars.simps string_max_size_def)

text \<open>C24: Oversized chunks. A chunk size close to \<open>2\<^sup>6\<^sup>4\<close> makes the bound check
  \<open>offset + chunkSize + 2 > data.size()\<close> wrap around: instead of being refused, the
  size reaches \<open>std::string::append\<close>, which throws.\<close>

theorem chunk_size_overflow:
  assumes "string_max_size < n" "n \<le> size_max"
    and "wrap64 (length (to_chars 16 n) + n + 4) \<le> length (to_chars 16 n) + 2 + length rest"
  shows "parseChunked (to_chars 16 n @ CRLF @ rest) = Inl length_error"
proof -
  let ?d = "to_chars 16 n @ CR # LF # rest"
  have "parseHexSize (chunkSizeLine (to_chars 16 n)) = Some n" "no_break (to_chars 16 n)"
    using size_line [OF assms(2)] by auto
  moreover have "wrap64 (0 + length (to_chars 16 n) + 2 + n + 2) \<le> length ?d" "0 < n"
    using assms(1,3) by (simp_all add: add.commute add.left_commute numeral_eq_Suc)
  ultimately show ?thesis
    using parseChunked_step [of 0 ?d "to_chars 16 n" rest n "[]"] assms(1) by (simp add: parseChunked_def)
qed

theorem chunk_size_overflow_witness: "parseChunked (''ffffffffffffffec'' @ CRLF @ []) = Inl length_error"
proof -
  have d: "digit_char 15 = CHR ''f''" "digit_char 14 = CHR ''e''" "digit_char 12 = CHR ''c''"
    by code_simp+
  have t: "to_chars 16 18446744073709551596 = ''ffffffffffffffec''"
    by (simp add: to_chars.simps d)
  show ?thesis
    using chunk_size_overflow [of 18446744073709551596 "[]"]
    by (simp add: t string_max_size_def size_max_def wrap64_def)
qed

theorem parseChunked_accepts_witness:
  "parseChunked (''0'' @ CRLF @ CRLF) = Inr (True, []) \<longleftrightarrow> chunked_body (''0'' @ CRLF @ CRLF) []"
  by (rule parseChunked_accepts) (simp add: string_max_size_def)

subsection \<open>What an accepted header section looks like\<close>

abbreviation isCL :: "string \<Rightarrow> bool" where "isCL name \<equiv> caseInsensitiveCompare name nameContentLength"
abbreviation isTE :: "string \<Rightarrow> bool" where "isTE name \<equiv> caseInsensitiveCompare name nameTransferEncoding"

definition countHeaders :: "(string \<Rightarrow> bool) \<Rightarrow> headers \<Rightarrow> nat" where
  "countHeaders P hs = length (filter (\<lambda>e. P (fst e)) hs)"

definition header_ok :: "string \<times> string \<Rightarrow> bool" where
  "header_ok e \<longleftrightarrow>
     isValidHeaderName (fst e) \<and> trimmed (snd e) \<and>
     (if isCL (fst e) then parseUnsignedDecimal (snd e) \<noteq> None else True)"

definition headers_wf :: "headers \<Rightarrow> bool" where
  "headers_wf hs \<longleftrightarrow>
     omap_inv hs \<and> length hs \<le> kMaxHeaderCount \<and>
     list_all header_ok hs \<and>
     countHeaders isCL hs + countHeaders isTE hs \<le> 1"

lemma CL_not_TE: "isCL name \<Longrightarrow> \<not> isTE name"
  by (simp add: caseInsensitiveCompare_def nameContentLength_def nameTransferEncoding_def)

lemma countHeaders_put:
  "countHeaders P (omap_put n v hs) =
     (if P n \<and> n \<notin> fst ` set hs then Suc (countHeaders P hs) else countHeaders P hs)" if "omap_inv hs"
  using that
proof (induction n v hs rule: omap_put.induct)
  case (1 k v)
  then show ?case by (simp add: countHeaders_def)
next
  case (2 k v k' v' m)
  have inv: "omap_inv m" "k < k' \<Longrightarrow> k \<notin> fst ` set m" using 2(2) by (auto simp: omap_inv_def)
  show ?case
  proof (cases "k < k' \<or> k = k'")
    case True
    with inv show ?thesis by (auto simp: countHeaders_def)
  next
    case False
    with 2(1) inv show ?thesis by (auto simp: countHeaders_def split: if_splits)
  qed
qed

lemma countHeaders_0: "countHeaders P hs = 0 \<Longrightarrow> P n \<Longrightarrow> n \<notin> fst ` set hs"
  by (auto simp: countHeaders_def filter_empty_conv)

lemma parseHeaderLine_Some:
  assumes "parseHeaderLine line cl te = Some (n, v, cl', te')"
  shows "isValidHeaderName n" "trimmed v" "cl' = (cl \<or> isCL n)" "te' = (te \<or> isTE n)"
    "\<not> (cl' \<and> te')" "isCL n \<Longrightarrow> \<not> cl \<and> parseUnsignedDecimal v \<noteq> None" "isTE n \<Longrightarrow> \<not> te"
  using assms CL_not_TE [of n]
  by (auto simp: parseHeaderLine_def Let_def trimmed_trim split: option.splits if_splits)

definition loop_ok :: "headers \<Rightarrow> nat \<Rightarrow> bool \<Rightarrow> bool \<Rightarrow> bool" where
  "loop_ok hs count cl te \<longleftrightarrow>
     omap_inv hs \<and> length hs \<le> count \<and> count \<le> kMaxHeaderCount \<and>
     list_all header_ok hs \<and>
     countHeaders isCL hs = (if cl then 1 else 0) \<and> countHeaders isTE hs = (if te then 1 else 0) \<and>
     \<not> (cl \<and> te)"

lemma list_all_put:
  "omap_inv m \<Longrightarrow> list_all P m \<Longrightarrow> P (k, v) \<Longrightarrow> list_all P (omap_put k v m)"
  using om.set_entries_put [of m k v] by (auto simp: list_all_iff)

lemma loop_ok_step:
  assumes "loop_ok hs count cl te" "parseHeaderLine line cl te = Some (n, v, cl', te')"
    and "Suc count \<le> kMaxHeaderCount"
  shows "loop_ok (omap_put n v hs) (Suc count) cl' te'"
proof -
  note line = parseHeaderLine_Some [OF assms(2)]
  have hs: "omap_inv hs" "countHeaders isCL hs = (if cl then 1 else 0)"
      "countHeaders isTE hs = (if te then 1 else 0)"
    using assms(1) by (auto simp: loop_ok_def)
  have "countHeaders isCL (omap_put n v hs) = (if cl' then 1 else 0)"
    using line(3,6) hs countHeaders_0 [of isCL hs n] by (auto simp: countHeaders_put)
  moreover have "countHeaders isTE (omap_put n v hs) = (if te' then 1 else 0)"
    using line(4,7) hs countHeaders_0 [of isTE hs n] by (auto simp: countHeaders_put)
  moreover have "header_ok (n, v)" using line by (auto simp: header_ok_def)
  moreover have "length (omap_put n v hs) \<le> Suc count"
    using length_omap_put [of n v hs] assms(1) by (simp add: loop_ok_def)
  ultimately show ?thesis
    using assms(1,3) line hs(1) unfolding loop_ok_def
    by (auto intro!: omap_inv_put list_all_put)
qed

lemma parseHeaderLines_loop_ok:
  "loop_ok hs count cl te \<Longrightarrow> parseHeaderLines_loop s hs count cl te = Some hs' \<Longrightarrow> headers_wf hs'"
proof (induction "length s" arbitrary: s hs count cl te rule: less_induct)
  case less
  have fin: "headers_wf hs" if "loop_ok hs count cl te" for hs count cl te
    using that by (auto simp: loop_ok_def headers_wf_def)
  show ?case
  proof (cases "s = []")
    case True
    with less.prems fin [OF less.prems(1)] show ?thesis by (simp add: parseHeaderLines_loop.simps [of "[]"])
  next
    case False
    let ?line = "case find_str CRLF s of None \<Rightarrow> s | Some e \<Rightarrow> substr s 0 e"
    from less.prems(2) False obtain n v cl' te' where
        line: "parseHeaderLine ?line cl te = Some (n, v, cl', te')" "Suc count \<le> kMaxHeaderCount"
      by (auto simp: parseHeaderLines_loop.simps [of s] Let_def split: option.splits if_splits)
    note step = loop_ok_step [OF less.prems(1) line]
    show ?thesis
    proof (cases "find_str CRLF s")
      case None
      with less.prems(2) False line fin [OF step] show ?thesis
        by (simp add: parseHeaderLines_loop.simps [of s])
    next
      case (Some e)
      have "length (drop (e + 2) s) < length s" using False by simp
      from less.hyps [OF this step] less.prems(2) False line Some show ?thesis
        by (simp add: parseHeaderLines_loop.simps [of s])
    qed
  qed
qed

lemma parseHeaderLines_wf: "parseHeaderLines s = Some hs \<Longrightarrow> headers_wf hs"
proof -
  have "loop_ok [] 0 False False"
    by (simp add: loop_ok_def omap_inv_def countHeaders_def)
  then show "parseHeaderLines s = Some hs \<Longrightarrow> headers_wf hs"
    using parseHeaderLines_loop_ok [of "[]" 0 False False s hs]
    by (auto simp: parseHeaderLines_def headers_wf_def loop_ok_def split: if_splits)
qed

lemma splitTarget_keeps [simp]:
  "rq_headers (splitTarget r) = rq_headers r" "rq_method (splitTarget r) = rq_method r"
  "rq_target (splitTarget r) = rq_target r" "rq_version (splitTarget r) = rq_version r"
  by (simp_all add: splitTarget_def Let_def split: option.splits)

lemma parseRequestHead_wf: "parseRequestHead data = Some r \<Longrightarrow> headers_wf (rq_headers r)"
  by (auto simp: parseRequestHead_def Let_def dest!: parseHeaderLines_wf split: option.splits if_splits prod.splits)

lemma parseResponseHead_wf: "parseResponseHead data = Some r \<Longrightarrow> headers_wf (rs_headers r)"
  by (auto simp: parseResponseHead_def Let_def dest!: parseHeaderLines_wf split: option.splits if_splits prod.splits)

end
