(* ===== verification/Http_Messages.thy ===== *)
theory Http_Messages
  imports Http_Parser
begin

text \<open>
  Whole messages: what the parsers of \<open>Http_Parser\<close> accept, and that they read back what
  \<open>buildRequest\<close> and \<open>buildResponse\<close> write. The builders' output is described as a sequence of
  lines (\<open>sec\<close>), on which the searches for the first line break and for the blank line, and the
  header loop, are evaluated once for both kinds of message.
\<close>

subsection \<open>Reading back what the builders write\<close>

lemma find_str_skip:
  "pat \<noteq> [] \<Longrightarrow> hd pat \<notin> set xs \<Longrightarrow> find_str pat (xs @ ys) = map_option ((+) (length xs)) (find_str pat ys)"
proof (induction xs)
  case Nil
  then show ?case by (simp add: option.map_ident)
next
  case (Cons x xs)
  then have "take (length pat) (x # xs @ ys) \<noteq> pat" by (cases pat) auto
  with Cons show ?case by (cases "find_str pat ys") auto
qed

fun sec :: "string list \<Rightarrow> string" where
  "sec [] = []"
| "sec [l] = l"
| "sec (l # m # ls) = l @ CRLF @ sec (m # ls)"

definition plain_line :: "string \<Rightarrow> bool" where
  "plain_line l \<longleftrightarrow> l \<noteq> [] \<and> CR \<notin> set l"

lemma sec_hd: "list_all plain_line ls \<Longrightarrow> ls \<noteq> [] \<Longrightarrow> \<exists>x rest. sec ls = x # rest \<and> x \<noteq> CR"
  by (cases ls rule: sec.cases; cases "hd ls") (auto simp: plain_line_def)

lemma find_head_end:
  "list_all plain_line ls \<Longrightarrow> ls \<noteq> [] \<Longrightarrow>
   find_str (CRLF @ CRLF) (sec ls @ CRLF @ CRLF @ body) = Some (length (sec ls))"
proof (induction ls rule: sec.induct)
  case (2 l)
  then show ?case using find_str_skip [of "CRLF @ CRLF" l "CRLF @ CRLF @ body"] by (simp add: plain_line_def)
next
  case (3 l m ls)
  obtain x rest where x: "sec (m # ls) = x # rest" "x \<noteq> CR"
    using sec_hd [of "m # ls"] 3(2) by auto
  have "find_str (CRLF @ CRLF) (l @ CR # LF # x # rest @ CRLF @ CRLF @ body)
      = map_option ((+) (length l)) (find_str (CRLF @ CRLF) (CR # LF # x # rest @ CRLF @ CRLF @ body))"
    using 3(2) by (intro find_str_skip) (simp_all add: plain_line_def)
  then show ?case using 3 x by simp
qed simp

definition header_line :: "string \<times> string \<Rightarrow> string" where
  "header_line e = fst e @ [cColon, cSpace] @ snd e"

definition buildable :: "string \<times> string \<Rightarrow> bool" where
  "buildable e \<longleftrightarrow> isValidHeaderName (fst e) \<and> trimmed (snd e) \<and> CR \<notin> set (snd e) \<and>
     length (fst e) + 2 + length (snd e) \<le> kMaxHeaderLineSize"

lemma header_name_chars:
  assumes "isValidHeaderName n"
  shows "n \<noteq> []" "CR \<notin> set n" "cColon \<notin> set n" "hd n \<noteq> cSpace" "hd n \<noteq> cTab"
    "cSpace \<notin> set n"
  using assms tokenCharacter_plain by (auto simp: isValidHeaderName_def list_all_iff) (metis hd_in_set)+

lemma isspace_cSpace [simp]: "isspace cSpace"
  by (simp add: isspace_def cSpace_def)

lemma char_consts_distinct [simp]: "cColon \<noteq> CR" "cSpace \<noteq> CR" "cColon \<noteq> cSpace"
  "CR \<noteq> cColon" "CR \<noteq> cSpace" "cSpace \<noteq> cColon"
  by (simp_all add: char_consts)

lemma header_line_plain: "buildable e \<Longrightarrow> plain_line (header_line e)"
  using header_name_chars [of "fst e"] by (auto simp: buildable_def plain_line_def header_line_def)

lemma parseHeaderLine_built:
  assumes "buildable (n, v)" "isCL n \<Longrightarrow> \<not> cl \<and> \<not> te \<and> parseUnsignedDecimal v \<noteq> None"
    "isTE n \<Longrightarrow> \<not> cl \<and> \<not> te" "\<not> (cl \<and> te)"
  shows "parseHeaderLine (header_line (n, v)) cl te = Some (n, v, cl \<or> isCL n, te \<or> isTE n)"
proof -
  note n = header_name_chars [of n]
  have ok: "isValidHeaderName n" "trimmed v" "length n + 2 + length v \<le> kMaxHeaderLineSize"
    using assms(1) by (auto simp: buildable_def)
  have "find_char cColon (header_line (n, v)) = Some (length n)"
    unfolding header_line_def using find_pred_append_hit [of n "\<lambda>x. x = cColon" cColon "cSpace # v"] n(3) ok(1)
    by auto
  moreover have "substr (header_line (n, v)) 0 (length n) = n" "drop (length n + 1) (header_line (n, v)) = cSpace # v"
    by (simp_all add: header_line_def substr_def)
  moreover have "header_line (n, v) \<noteq> []" "hd (header_line (n, v)) = hd n"
      "length (header_line (n, v)) \<le> kMaxHeaderLineSize"
    using n(1) ok by (simp_all add: header_line_def)
  ultimately show ?thesis
    using n ok assms(2-4) CL_not_TE [of n] header_name_trimmed [OF ok(1)]
    by (auto simp: parseHeaderLine_def Let_def)
qed

lemma parseHeaderLines_loop_line:
  assumes "plain_line l" "parseHeaderLine l cl te = Some (n, v, cl', te')" "count < kMaxHeaderCount"
  shows "parseHeaderLines_loop (l @ CR # LF # s) hs count cl te =
      parseHeaderLines_loop s (omap_put n v hs) (Suc count) cl' te'"
    and "parseHeaderLines_loop l hs count cl te = Some (omap_put n v hs)"
proof -
  have l: "l \<noteq> []" "no_break l" "find_str CRLF l = None"
    using assms(1) no_break_notin [of l] find_str_miss [of CRLF l] by (auto simp: plain_line_def)
  show "parseHeaderLines_loop (l @ CR # LF # s) hs count cl te =
      parseHeaderLines_loop s (omap_put n v hs) (Suc count) cl' te'"
    using l find_CRLF [OF l(2), of s] assms(2,3)
    by (subst parseHeaderLines_loop.simps) (simp add: substr_def Let_def)
  show "parseHeaderLines_loop l hs count cl te = Some (omap_put n v hs)"
    using l assms(2,3) by (subst parseHeaderLines_loop.simps) simp
qed

lemma parse_built_section:
  assumes "list_all (\<lambda>e. buildable e \<and> \<not> isCL (fst e) \<and> \<not> isTE (fst e)) es"
    and "buildable (nameContentLength, v)" "parseUnsignedDecimal v \<noteq> None"
    and "count + length es < kMaxHeaderCount"
  shows "parseHeaderLines_loop (sec (map header_line (es @ [(nameContentLength, v)]))) hs count False False =
    Some (omap_put nameContentLength v (foldl (\<lambda>m (n, v). omap_put n v m) hs es))"
  using assms(1,4)
proof (induction es arbitrary: hs count)
  case Nil
  have "parseHeaderLine (header_line (nameContentLength, v)) False False =
      Some (nameContentLength, v, isCL nameContentLength, isTE nameContentLength)"
    using parseHeaderLine_built [OF assms(2), of False False] assms(3) by simp
  with parseHeaderLines_loop_line(2) [OF header_line_plain [OF assms(2)]] Nil show ?case by simp
next
  case (Cons e es)
  obtain n w where e: "e = (n, w)" by (cases e)
  have b: "buildable (n, w)" using Cons.prems by (simp add: e)
  have "parseHeaderLine (header_line (n, w)) False False = Some (n, w, False, False)"
    using parseHeaderLine_built [OF b, of False False] Cons.prems by (simp add: e)
  note step = parseHeaderLines_loop_line(1) [OF header_line_plain [OF b] this]
  obtain m ms where "map header_line (es @ [(nameContentLength, v)]) = m # ms"
    by (cases "map header_line (es @ [(nameContentLength, v)])") auto
  with step Cons show ?case by (simp add: e)
qed

lemma headerSection_built:
  fixes body
  assumes "list_all plain_line (l # m # ls)" "length (sec (l # m # ls)) \<le> kMaxHeaderSectionSize"
  defines "data \<equiv> sec (l # m # ls) @ CRLF @ CRLF @ body"
  shows "find_str (CRLF @ CRLF) data = Some (length (sec (l # m # ls)))"
    "find_str CRLF data = Some (length l)" "substr data 0 (length l) = l"
    "headerSection data (length l) (length (sec (l # m # ls))) = sec (m # ls)"
    "messageRest data = body"
proof -
  have le: "length (sec (l # m # ls)) = length l + 2 + length (sec (m # ls))" by simp
  show f: "find_str (CRLF @ CRLF) data = Some (length (sec (l # m # ls)))"
    unfolding data_def using assms(1) by (intro find_head_end) auto
  have "no_break l" using assms(1) by (simp add: plain_line_def no_break_notin)
  then show "find_str CRLF data = Some (length l)" by (simp add: data_def find_CRLF)
  show "substr data 0 (length l) = l" by (simp add: data_def substr_def)
  have "wrap64 (length (sec (l # m # ls)) + 2 ^ 64 - (length l + 2)) = length (sec (m # ls))"
    using assms(2) unfolding le wrap64_def by (simp add: kMaxHeaderSectionSize_def)
  then show "headerSection data (length l) (length (sec (l # m # ls))) = sec (m # ls)"
    by (simp add: headerSection_def Let_def data_def substr_def)
  show "messageRest data = body" unfolding messageRest_def f by (simp add: data_def del: sec.simps)
qed

lemma appendHeaders_built:
  assumes "list_all (\<lambda>e. \<not> isCL (fst e) \<and> \<not> isTE (fst e)) hs"
  shows "appendHeaders out hs body =
    out @ concat (map (\<lambda>e. header_line e @ CRLF) (hs @ [(nameContentLength, to_chars 10 (length body))]))"
proof -
  have "foldl (\<lambda>out (n, v). appendHeaderLine out n v) out hs = out @ concat (map (\<lambda>e. header_line e @ CRLF) hs)" for out
    by (induction hs arbitrary: out) (auto simp: appendHeaderLine_def header_line_def)
  moreover have "\<not> list_ex (\<lambda>(n, _). isCL n) hs" "\<not> list_ex (\<lambda>(n, _). \<not> isCL n \<and> isTE n) hs"
    using assms by (auto simp: list_ex_iff list_all_iff)
  ultimately show ?thesis by (simp add: appendHeaders_def appendUnsignedDecimal_def header_line_def)
qed

lemma sec_concat: "ls \<noteq> [] \<Longrightarrow> sec ls @ CRLF = concat (map (\<lambda>l. l @ CRLF) ls)"
  by (induction ls rule: sec.induct) auto

lemma contentLength_buildable: "buildable (nameContentLength, to_chars 10 n)" if "n \<le> size_max"
proof -
  have "c \<noteq> CR \<and> \<not> isspace c" if "c \<in> set (to_chars 10 n)" for c
    using to_chars_10_digits [OF that] by (auto simp: isdigit_def isspace_def CR_def)
  moreover have "isValidHeaderName nameContentLength"
    by (simp add: isValidHeaderName_def nameContentLength_def isTokenCharacter_def isalnum_def isupper_def islower_def)
  moreover have "length (to_chars 10 n) \<le> 20"
  proof -
    have "length (to_chars 10 n) \<le> Suc k" if "n < 10 ^ Suc k" for n k
      using that
    proof (induction k arbitrary: n)
      case (Suc k)
      then show ?case
        by (cases "n < 10") (simp_all add: to_chars.simps [of 10 n] div_less_iff_less_mult)
    qed (simp add: to_chars.simps)
    from this [of n 19] that show ?thesis by (simp add: size_max_def)
  qed
  ultimately show ?thesis
    by (auto simp: buildable_def to_chars_trimmed nameContentLength_def kMaxHeaderLineSize_def)
qed

definition headers_buildable :: "headers \<Rightarrow> bool" where
  "headers_buildable hs \<longleftrightarrow> omap_inv hs \<and> length hs < kMaxHeaderCount \<and>
     list_all (\<lambda>e. buildable e \<and> \<not> isCL (fst e) \<and> \<not> isTE (fst e)) hs"

lemma contentLength_put:
  "list_all (\<lambda>e. \<not> isCL (fst e)) hs \<Longrightarrow>
   contentLengthFromHeaders (omap_put nameContentLength v hs) = parseUnsignedDecimal (trim v)"
  by (induction nameContentLength v hs rule: omap_put.induct) (auto simp: caseInsensitiveCompare_iff)

lemma isChunkedEncoding_TE: "isChunkedEncoding hs \<Longrightarrow> \<exists>e\<in>set hs. isTE (fst e)"
  by (induction hs rule: isChunkedEncoding.induct) (auto split: if_splits)

lemma assignMessageBody_built:
  assumes "headers_buildable hs" "length body \<le> size_max"
  shows "assignMessageBody body (omap_put nameContentLength (to_chars 10 (length body)) hs) = Some body"
proof -
  let ?hs = "omap_put nameContentLength (to_chars 10 (length body)) hs"
  have "\<not> isTE nameContentLength"
    by (simp add: caseInsensitiveCompare_def nameContentLength_def nameTransferEncoding_def)
  then have "\<not> isChunkedEncoding ?hs"
    using assms(1) om.set_entries_put [of hs] isChunkedEncoding_TE [of ?hs]
    by (fastforce simp: headers_buildable_def list_all_iff)
  moreover have "contentLengthFromHeaders ?hs = parseUnsignedDecimal (trim (to_chars 10 (length body)))"
    using assms(1) by (intro contentLength_put) (auto simp: headers_buildable_def list_all_iff)
  moreover have "trimmed (to_chars 10 (length body))"
    using contentLength_buildable [OF assms(2)] by (simp add: buildable_def)
  ultimately show ?thesis
    by (simp add: assignMessageBody_def parseUnsignedDecimal_to_chars assms(2) substr_def)
qed

lemma estimate_lines:
  "length (concat (map (\<lambda>e. header_line e @ CRLF) hs)) = estimateHeaderBytes hs"
  by (induction hs) (auto simp: estimateHeaderBytes_def header_line_def)

lemma built_sections:
  assumes "headers_buildable hs" "length body \<le> size_max" "plain_line l"
    and "length l + estimateHeaderBytes hs + 18 + decimalDigitCount (length body) \<le> kMaxHeaderSectionSize"
  defines "data \<equiv> appendHeaders (l @ CRLF) hs body @ CRLF @ body"
  shows "\<exists>headerEnd. find_str (CRLF @ CRLF) data = Some headerEnd \<and> headerEnd \<le> kMaxHeaderSectionSize \<and>
      find_str CRLF data = Some (length l) \<and> substr data 0 (length l) = l \<and> data \<noteq> [] \<and>
      parseHeaderLines (headerSection data (length l) headerEnd) =
        Some (omap_put nameContentLength (to_chars 10 (length body)) hs) \<and>
      messageRest data = body"
proof -
  let ?cl = "(nameContentLength, to_chars 10 (length body))"
  let ?ls = "map header_line (hs @ [?cl])"
  obtain m ms where ls: "?ls = m # ms" by (cases ?ls) auto
  have "list_all (\<lambda>e. \<not> isCL (fst e) \<and> \<not> isTE (fst e)) hs"
    using assms(1) by (auto simp: headers_buildable_def list_all_iff)
  then have "data = sec (l # ?ls) @ CRLF @ CRLF @ body"
    using sec_concat [of "l # ?ls"] by (simp add: data_def appendHeaders_built comp_def)
  then have data: "data = sec (l # m # ms) @ CRLF @ CRLF @ body" by (simp only: ls)
  have plain: "list_all plain_line (l # m # ms)"
    using assms(1,3) contentLength_buildable [OF assms(2)] unfolding ls [symmetric]
    by (auto simp: list_all_iff headers_buildable_def intro!: header_line_plain)
  have "sec (l # ?ls) @ CRLF = l @ CRLF @ concat (map (\<lambda>e. header_line e @ CRLF) hs) @ header_line ?cl @ CRLF"
    using sec_concat [of "l # ?ls"] by (simp add: comp_def)
  moreover have "length (header_line ?cl) = 16 + decimalDigitCount (length body)"
    by (simp add: header_line_def nameContentLength_def length_to_chars_10)
  ultimately have "length (sec (l # ?ls) @ CRLF) = length l + estimateHeaderBytes hs + 20 + decimalDigitCount (length body)"
    using estimate_lines [of hs] by (simp only: length_append) simp
  then have len: "length (sec (l # m # ms)) \<le> kMaxHeaderSectionSize"
    using assms(4) unfolding ls by simp
  note hs = headerSection_built [OF plain len, of body, folded data]
  have "parseHeaderLines (sec ?ls) = Some (omap_put nameContentLength (to_chars 10 (length body)) hs)"
  proof -
    have "sec ?ls \<noteq> []" using sec_hd [of "m # ms"] plain ls by auto
    moreover have "parseHeaderLines_loop (sec ?ls) [] 0 False False =
        Some (omap_put nameContentLength (to_chars 10 (length body)) (foldl (\<lambda>m (n, v). omap_put n v m) [] hs))"
      using assms(1,2) contentLength_buildable [OF assms(2)]
      by (intro parse_built_section) (auto simp: headers_buildable_def parseUnsignedDecimal_to_chars)
    ultimately show ?thesis
      using assms(1) by (simp add: parseHeaderLines_def fold_put_id headers_buildable_def)
  qed
  moreover have "data \<noteq> []" by (simp add: data_def)
  ultimately show ?thesis using hs len unfolding ls by auto
qed

lemma splitRequestLine_built:
  assumes "cSpace \<notin> set meth" "meth \<noteq> []" "cSpace \<notin> set uri" "uri \<noteq> []" "cSpace \<notin> set version"
  shows "splitRequestLine (meth @ cSpace # uri @ cSpace # version) = Some (meth, uri, version)"
proof -
  let ?l = "meth @ cSpace # uri @ cSpace # version"
  have 1: "find_char cSpace ?l = Some (length meth)"
    by (rule find_pred_append_hit) (use assms in auto)
  have "find_char cSpace (uri @ cSpace # version) = Some (length uri)"
    by (rule find_pred_append_hit) (use assms in auto)
  then have 2: "find_char_from cSpace (length meth + 1) ?l = Some (length meth + 1 + length uri)"
    by (simp add: find_char_from_def)
  have "find_char cSpace version = None" using assms(5) by (auto simp: find_pred_None)
  then have 3: "find_char_from cSpace (length meth + 1 + length uri + 1) ?l = None"
    by (simp add: find_char_from_def)
  show ?thesis
    using assms 2 3 unfolding splitRequestLine_def 1 by (simp add: substr_def)
qed

definition request_ok :: "string \<Rightarrow> string \<Rightarrow> headers \<Rightarrow> string \<Rightarrow> bool" where
  "request_ok meth uri hs body \<longleftrightarrow>
     isValidHeaderName meth \<and> uri \<noteq> [] \<and> cSpace \<notin> set uri \<and> CR \<notin> set uri \<and>
     length meth + length uri + 10 \<le> kMaxRequestLineSize \<and>
     headers_buildable hs \<and> length body \<le> size_max \<and>
     length meth + length uri + 10 + estimateHeaderBytes hs + 18 + decimalDigitCount (length body)
       \<le> kMaxHeaderSectionSize"

lemma version_11: "cSpace # ''HTTP/1.1'' = '' HTTP/1.1''" "isValidHttpVersion ''HTTP/1.1''"
    "cSpace \<notin> set ''HTTP/1.1''" "CR \<notin> set ''HTTP/1.1''"
  by (simp_all add: char_consts isValidHttpVersion_def substr_def isdigit_def)

lemma buildRequest_head:
  assumes "request_ok meth uri hs body"
  shows "parseRequestHead (buildRequest meth uri hs body) =
      Some ((splitTarget (HttpRequestView_clear\<lparr>rq_method := meth, rq_target := uri, rq_version := ''HTTP/1.1''\<rparr>))
        \<lparr>rq_headers := omap_put nameContentLength (to_chars 10 (length body)) hs, rq_body := []\<rparr>)"
    and "messageRest (buildRequest meth uri hs body) = body"
    and "\<exists>e. find_str (CRLF @ CRLF) (buildRequest meth uri hs body) = Some e"
proof -
  let ?l = "meth @ cSpace # uri @ cSpace # ''HTTP/1.1''"
  have m: "isValidHeaderName meth" "cSpace \<notin> set meth" "meth \<noteq> []" "CR \<notin> set meth"
    using assms header_name_chars [of meth] by (simp_all add: request_ok_def)
  have data: "buildRequest meth uri hs body = appendHeaders (?l @ CRLF) hs body @ CRLF @ body"
    by (simp add: buildRequest_def version_11(1) [symmetric] del: version_11)
  have "plain_line ?l"
    using assms m version_11(4) by (auto simp: plain_line_def request_ok_def)
  from built_sections [OF _ _ this, of hs body] assms
  obtain e where e: "find_str (CRLF @ CRLF) (buildRequest meth uri hs body) = Some e" "e \<le> kMaxHeaderSectionSize"
      "find_str CRLF (buildRequest meth uri hs body) = Some (length ?l)"
      "substr (buildRequest meth uri hs body) 0 (length ?l) = ?l" "buildRequest meth uri hs body \<noteq> []"
      "parseHeaderLines (headerSection (buildRequest meth uri hs body) (length ?l) e) =
        Some (omap_put nameContentLength (to_chars 10 (length body)) hs)"
      "messageRest (buildRequest meth uri hs body) = body"
    unfolding data by (auto simp: request_ok_def)
  have "length ?l \<le> kMaxRequestLineSize" using assms by (simp add: request_ok_def)
  moreover have "splitRequestLine ?l = Some (meth, uri, ''HTTP/1.1'')"
    using m assms version_11(3) by (intro splitRequestLine_built) (auto simp: request_ok_def)
  ultimately show "parseRequestHead (buildRequest meth uri hs body) =
    Some ((splitTarget (HttpRequestView_clear\<lparr>rq_method := meth, rq_target := uri, rq_version := ''HTTP/1.1''\<rparr>))
      \<lparr>rq_headers := omap_put nameContentLength (to_chars 10 (length body)) hs, rq_body := []\<rparr>)"
    using e m(1) version_11(2) assms
    by (simp add: parseRequestHead_def Let_def request_ok_def del: append_Cons append.simps)
  show "messageRest (buildRequest meth uri hs body) = body" "\<exists>e. find_str (CRLF @ CRLF) (buildRequest meth uri hs body) = Some e"
    using e(1,7) by simp_all
qed

lemma parse_buildRequest:
  assumes "request_ok meth uri hs body"
  shows "parseRequest (buildRequest meth uri hs body) =
    Some ((splitTarget (HttpRequestView_clear
            \<lparr>rq_method := meth, rq_target := uri, rq_version := ''HTTP/1.1''\<rparr>))
          \<lparr>rq_headers := omap_put nameContentLength (to_chars 10 (length body)) hs, rq_body := body\<rparr>)"
  using buildRequest_head [OF assms] assms assignMessageBody_built [of hs body]
  by (simp add: parseRequest_def request_ok_def)

lemma splitStatusLine_built:
  assumes "cSpace \<notin> set version" "version \<noteq> []" "cSpace \<notin> set code" "code \<noteq> []" "trimmed msg"
  shows "splitStatusLine (version @ cSpace # code @ cSpace # msg) = Some (version, code, msg)"
proof -
  let ?l = "version @ cSpace # code @ cSpace # msg"
  have 1: "find_char cSpace ?l = Some (length version)"
    by (rule find_pred_append_hit) (use assms in auto)
  have "find_char cSpace (code @ cSpace # msg) = Some (length code)"
    by (rule find_pred_append_hit) (use assms in auto)
  then have 2: "find_char_from cSpace (length version + 1) ?l = Some (length version + 1 + length code)"
    by (simp add: find_char_from_def)
  show ?thesis
    using assms 2 unfolding splitStatusLine_def 1 by (simp add: substr_def)
qed

lemma statusCode_loop_value:
  "\<forall>c\<in>set s. isdigit c \<Longrightarrow> statusCode_loop (int r) s = Some (int (num_value 10 decDigit r s))"
proof (induction s arbitrary: r)
  case (Cons c s)
  have d: "isdigit c" using Cons.prems by simp
  then have e: "int r * 10 + (int (code_of c) - 48) = int (r * 10 + (code_of c - 48))"
    by (simp add: isdigit_def)
  have "statusCode_loop (int r) (c # s) = statusCode_loop (int (r * 10 + (code_of c - 48))) s"
    unfolding statusCode_loop.simps e using d by (simp only: not_True_eq_False if_False)
  also have "\<dots> = Some (int (num_value 10 decDigit (r * 10 + (code_of c - 48)) s))"
    by (rule Cons.IH) (use Cons.prems in auto)
  finally show ?case by (simp only: num_value_def decDigit_def d foldl_Cons if_True option.sel)
qed (simp add: num_value_def)

lemma three_digits: "100 \<le> n \<Longrightarrow> n \<le> 999 \<Longrightarrow> length (to_chars 10 n) = 3"
proof -
  assume n: "100 \<le> n" "n \<le> 999"
  then have "\<not> n < 10" "\<not> n div 10 < 10" "n div 10 div 10 < 10" by auto
  then show ?thesis
    by (simp add: to_chars.simps [of 10 n] to_chars.simps [of 10 "n div 10"] to_chars.simps [of 10 "n div 10 div 10"])
qed

definition response_ok :: "int \<Rightarrow> string \<Rightarrow> headers \<Rightarrow> string \<Rightarrow> bool" where
  "response_ok statusCode msg hs body \<longleftrightarrow>
     100 \<le> statusCode \<and> statusCode \<le> 999 \<and> trimmed msg \<and> CR \<notin> set msg \<and>
     length msg + 13 \<le> kMaxStatusLineSize \<and> headers_buildable hs \<and> length body \<le> size_max \<and>
     length msg + 13 + estimateHeaderBytes hs + 18 + decimalDigitCount (length body) \<le> kMaxHeaderSectionSize"

lemma parse_buildResponse:
  assumes "response_ok statusCode msg hs body"
  shows "parseResponse (buildResponse statusCode msg hs body) =
    Some \<lparr>rs_statusCode = statusCode, rs_statusMessage = msg, rs_version = ''HTTP/1.1'',
          rs_headers = omap_put nameContentLength (to_chars 10 (length body)) hs,
          rs_body = (if hasNoResponseBody statusCode then [] else body)\<rparr>"
proof -
  define code where "code = to_chars 10 (nat statusCode)"
  let ?l = "''HTTP/1.1'' @ cSpace # code @ cSpace # msg"
  let ?d = "buildResponse statusCode msg hs body"
  have sc: "100 \<le> statusCode" "statusCode \<le> 999" using assms by (auto simp: response_ok_def)
  have digits: "\<forall>c\<in>set code. isdigit c" unfolding code_def using to_chars_10_digits by blast
  then have chars: "cSpace \<notin> set code" "CR \<notin> set code" by (auto simp: isdigit_def char_consts)
  have code: "length code = 3" using sc by (simp add: code_def three_digits)
  have val: "statusCode_loop 0 code = Some statusCode"
    using statusCode_loop_value [OF digits, of 0] num_value_to_chars [of 10 decDigit "nat statusCode"] sc
    by (simp add: code_def)
  have data: "?d = appendHeaders (?l @ CRLF) hs body @ CRLF @ body"
    using sc by (simp add: buildResponse_def appendSignedDecimal_def code_def cSpace_def)
  have "plain_line ?l"
    using assms chars version_11(4) by (auto simp: plain_line_def response_ok_def)
  from built_sections [OF _ _ this, of hs body] assms code
  obtain e where e: "find_str (CRLF @ CRLF) ?d = Some e" "e \<le> kMaxHeaderSectionSize"
      "find_str CRLF ?d = Some (length ?l)" "substr ?d 0 (length ?l) = ?l" "?d \<noteq> []"
      "parseHeaderLines (headerSection ?d (length ?l) e) =
        Some (omap_put nameContentLength (to_chars 10 (length body)) hs)"
      "messageRest ?d = body"
    unfolding data by (auto simp: response_ok_def)
  have "length ?l \<le> kMaxStatusLineSize" using assms code by (simp add: response_ok_def)
  moreover have "splitStatusLine ?l = Some (''HTTP/1.1'', code, msg)"
    using assms chars code version_11(3) by (intro splitStatusLine_built) (auto simp: response_ok_def)
  ultimately have "parseResponseHead ?d =
    Some \<lparr>rs_statusCode = statusCode, rs_statusMessage = msg, rs_version = ''HTTP/1.1'',
          rs_headers = omap_put nameContentLength (to_chars 10 (length body)) hs, rs_body = []\<rparr>"
    using e version_11(2) code val
    by (simp add: parseResponseHead_def Let_def del: append_Cons append.simps)
  then show ?thesis
    using e(7) assms assignMessageBody_built [of hs body] by (simp add: parseResponse_def response_ok_def)
qed

text \<open>Requests round trip. A request that the builder writes from a token method, a target without
  spaces and line breaks, and well-formed headers within the parser's limits is accepted; the parser
  returns the method, the target, the headers together with the \<open>Content-Length\<close> line that the builder
  added, and the body.\<close>

theorem request_roundtrip:
  assumes "request_ok meth uri hs body"
  shows "\<exists>r. parseRequest (buildRequest meth uri hs body) = Some r \<and>
    rq_method r = meth \<and> rq_target r = uri \<and> rq_version r = ''HTTP/1.1'' \<and> rq_body r = body \<and>
    rq_headers r = omap_put nameContentLength (to_chars 10 (length body)) hs"
  using parse_buildRequest [OF assms] by simp

theorem request_roundtrip_witness:
  "\<exists>r. parseRequest (buildRequest ''GET'' ''/a?b=1'' [(''Host'', ''h'')] ''xy'') = Some r \<and>
    rq_method r = ''GET'' \<and> rq_target r = ''/a?b=1'' \<and> rq_version r = ''HTTP/1.1'' \<and> rq_body r = ''xy'' \<and>
    rq_headers r = omap_put nameContentLength (to_chars 10 (length ''xy'')) [(''Host'', ''h'')]"
  by (rule request_roundtrip)
    (simp add: request_ok_def headers_buildable_def buildable_def omap_inv_def isValidHeaderName_def
      isTokenCharacter_def isalnum_def isupper_def islower_def trimmed_def isspace_def char_consts http_limits
      caseInsensitiveCompare_def nameContentLength_def nameTransferEncoding_def estimateHeaderBytes_def
      decimalDigitCount.simps size_max_def)

text \<open>C23: Responses round trip. A response that the builder writes from a three-digit status code and well-formed
  headers is read back with the same code, message, headers and body; for a status code that
  admits no body the parser reports none.\<close>

theorem response_roundtrip:
  assumes "response_ok statusCode msg hs body"
  shows "parseResponse (buildResponse statusCode msg hs body) =
    Some \<lparr>rs_statusCode = statusCode, rs_statusMessage = msg, rs_version = ''HTTP/1.1'',
          rs_headers = omap_put nameContentLength (to_chars 10 (length body)) hs,
          rs_body = (if hasNoResponseBody statusCode then [] else body)\<rparr>"
  using assms by (rule parse_buildResponse)

theorem response_roundtrip_witness:
  "parseResponse (buildResponse 200 ''OK'' [] ''xy'') =
    Some \<lparr>rs_statusCode = 200, rs_statusMessage = ''OK'', rs_version = ''HTTP/1.1'',
          rs_headers = omap_put nameContentLength (to_chars 10 (length ''xy'')) [],
          rs_body = (if hasNoResponseBody 200 then [] else ''xy'')\<rparr>"
  by (rule response_roundtrip)
    (simp add: response_ok_def headers_buildable_def omap_inv_def trimmed_def isspace_def char_consts http_limits
      estimateHeaderBytes_def decimalDigitCount.simps size_max_def)

text \<open>C19: Message framing is unambiguous. In every request or response the parser accepts, the header map is
  sorted with distinct token names and trimmed values, holds at most 128 entries, and counts at most
  one framing header in any spelling: never \<open>Content-Length\<close> with \<open>Transfer-Encoding\<close>, and never either
  of them twice. A \<open>Content-Length\<close> that is present is a valid 64-bit number.\<close>

theorem accepted_headers_wf:
  "(parseRequest data = Some rq \<longrightarrow> headers_wf (rq_headers rq)) \<and>
   (parseResponse data = Some rs \<longrightarrow> headers_wf (rs_headers rs))"
  using parseRequestHead_wf [of data] parseResponseHead_wf [of data]
  by (auto simp: parseRequest_def parseResponse_def split: option.splits if_splits)

theorem accepted_headers_wf_witness:
  "headers_wf (omap_put nameContentLength (to_chars 10 (length ''xy'')) [])"
proof -
  have "response_ok 200 ''OK'' [] ''xy''"
    by (simp add: response_ok_def headers_buildable_def omap_inv_def trimmed_def isspace_def char_consts http_limits
      estimateHeaderBytes_def decimalDigitCount.simps size_max_def)
  from parse_buildResponse [OF this]
  obtain r where "parseResponse (buildResponse 200 ''OK'' [] ''xy'') = Some r"
      "rs_headers r = omap_put nameContentLength (to_chars 10 (length ''xy'')) []"
    by simp
  with accepted_headers_wf [of "buildResponse 200 ''OK'' [] ''xy''" HttpRequestView_clear r]
  show ?thesis by simp
qed

subsection \<open>Further properties of the parser\<close>

lemma empty_line_refused: "parseHeaderLines_loop (CR # LF # s) hs count cl te = None"
  by (subst parseHeaderLines_loop.simps) (simp add: parseHeaderLine_def substr_def)

lemma headerless_section:
  assumes "find_str (CRLF @ CRLF) data = Some e" "find_str CRLF data = Some e"
  shows "parseHeaderLines (headerSection data e e) = None"
proof -
  have "drop e data = (CRLF @ CRLF) @ drop (length (CRLF @ CRLF)) (drop e data)"
    using find_str_Some_take [OF assms(1)] by (metis append_take_drop_id)
  then obtain rest where "drop e data = CR # LF # CR # LF # rest" by auto
  then have "drop (e + 2) data = CR # LF # rest"
    using drop_drop [of 2 e data] by (simp add: add.commute)
  moreover have "wrap64 (e + 2 ^ 64 - (e + 2)) = Suc (Suc (2 ^ 64 - 4))"
    by (simp add: wrap64_def)
  ultimately show ?thesis
    by (simp add: headerSection_def substr_def parseHeaderLines_def empty_line_refused)
qed

text \<open>C25: Messages without header lines. A message whose first line is followed directly by the blank line
  is refused: the length of its header section, \<open>headerEnd - headerLinesOffset\<close>, is \<open>-2\<close> in
  \<open>size_t\<close>, so the section is taken to run to the end of the input, and its first line is empty.
  The branch of \<open>parseHeaderLines\<close> for an empty section is never reached.\<close>

theorem headerless_refused:
  assumes "CR \<notin> set line"
  shows "parseRequest (line @ CRLF @ CRLF @ body) = None \<and> parseResponse (line @ CRLF @ CRLF @ body) = None"
proof -
  let ?d = "line @ CRLF @ CRLF @ body"
  have "find_str (CRLF @ CRLF) ?d = Some (length line)" "find_str CRLF ?d = Some (length line)"
    using find_str_hit [of "CRLF @ CRLF" line body] find_str_hit [of CRLF line "CRLF @ body"] assms by auto
  with headerless_section [OF this] show ?thesis
    by (auto simp: parseRequest_def parseResponse_def parseRequestHead_def parseResponseHead_def Let_def
        simp del: append.simps append_Cons split: option.splits prod.splits)
qed

theorem headerless_refused_witness:
  "parseRequest (''GET / HTTP/1.0'' @ CRLF @ CRLF @ []) = None \<and>
   parseResponse (''GET / HTTP/1.0'' @ CRLF @ CRLF @ []) = None"
  by (rule headerless_refused) (simp add: CR_def)

text \<open>Request sizes. The capacity \<open>buildRequest\<close> reserves is an upper bound on the request it builds,
  and it is exact when the builder adds the \<open>Content-Length\<close> line.\<close>

theorem buildRequest_reserved:
  "length (buildRequest meth uri hs body) \<le> buildRequest_reserve meth uri hs body \<and>
   (list_all (\<lambda>e. \<not> isCL (fst e) \<and> \<not> isTE (fst e)) hs \<longrightarrow>
    length (buildRequest meth uri hs body) = buildRequest_reserve meth uri hs body)"
proof -
  have lines: "length (foldl (\<lambda>out (n, v). appendHeaderLine out n v) out hs) = length out + estimateHeaderBytes hs" for out
    by (induction hs arbitrary: out) (auto simp: appendHeaderLine_def estimateHeaderBytes_def)
  have name: "length nameContentLength = 14" by (simp add: nameContentLength_def)
  show ?thesis
    by (auto simp: buildRequest_def buildRequest_reserve_def appendHeaders_def Let_def lines name
        appendUnsignedDecimal_def length_to_chars_10 list_ex_iff list_all_iff) (metis fst_conv)+
qed

theorem buildRequest_reserved_witness:
  "length (buildRequest ''GET'' ''/'' [] ''xy'') = buildRequest_reserve ''GET'' ''/'' [] ''xy''"
  using buildRequest_reserved [of "''GET''" "''/''" "[]" "''xy''"] by simp

text \<open>Fields of a separated list.\<close>

fun split_on :: "'a \<Rightarrow> 'a list \<Rightarrow> 'a list list" where
  "split_on c [] = [[]]"
| "split_on c (x # xs) =
     (if x = c then [] # split_on c xs else (x # hd (split_on c xs)) # tl (split_on c xs))"

lemma split_on_not_Nil [simp]: "split_on c xs \<noteq> []"
  by (induction xs) auto

lemma split_on_unfold:
  "split_on c xs = (case find_char c xs of None \<Rightarrow> [xs] | Some i \<Rightarrow> take i xs # split_on c (drop (i + 1) xs))"
proof (induction xs)
  case (Cons x xs)
  then show ?case by (cases "find_char c xs") auto
qed simp

lemma containsToken_fields:
  "containsToken v token \<longleftrightarrow> list_ex (\<lambda>f. caseInsensitiveCompare (trim f) token) (split_on cComma v)"
proof (induction v token rule: containsToken.induct)
  case (1 v token)
  then show ?case
    by (subst containsToken.simps, subst split_on_unfold) (auto split: option.split)
qed

definition put_param :: "string \<Rightarrow> (string, string) omap \<Rightarrow> (string, string) omap" where
  "put_param pair params =
     (if pair = [] then params
      else case find_char cEquals pair of
        None \<Rightarrow> omap_put pair [] params
      | Some eq \<Rightarrow> omap_put (take eq pair) (drop (eq + 1) pair) params)"

lemma parseQueryString_fields: "parseQueryString_loop q params = fold put_param (split_on cAmpersand q) params"
proof (induction "length q" arbitrary: q params rule: less_induct)
  case less
  show ?case
  proof (cases "find_char cAmpersand q")
    case None
    then show ?thesis
      by (subst parseQueryString_loop.simps, subst split_on_unfold)
        (simp add: put_param_def substr_def split: option.split)
  next
    case (Some a)
    have "parseQueryString_loop q params = parseQueryString_loop (drop (a + 1) q) (put_param (take a q) params)"
      by (subst parseQueryString_loop.simps) (simp add: Some put_param_def substr_def Let_def split: option.split)
    also have "\<dots> = fold put_param (split_on cAmpersand (drop (a + 1) q)) (put_param (take a q) params)"
      by (rule less) (use find_pred_less [OF Some] in simp)
    finally show ?thesis by (subst split_on_unfold) (simp add: Some)
  qed
qed

text \<open>Separated lists. The offset-driven scans agree with splitting at the separator: a header value contains a
  token iff one of its comma-separated fields is that token after trimming, in any case; the query
  parameters are those of the fields between ampersands, later fields overriding earlier
  ones, in a sorted map.\<close>

theorem separated_lists:
  "(containsToken v token \<longleftrightarrow> list_ex (\<lambda>f. map tolower (trim f) = map tolower token) (split_on cComma v)) \<and>
   parseQueryString q =
     fold put_param (split_on cAmpersand (if q \<noteq> [] \<and> hd q = cQuestion then tl q else q)) [] \<and>
   omap_inv (parseQueryString q)"
proof -
  have "omap_inv m \<Longrightarrow> omap_inv (fold put_param fs m)" for fs m
    by (induction fs arbitrary: m) (auto simp: put_param_def omap_inv_put split: option.split)
  then show ?thesis
    by (auto simp: containsToken_fields caseInsensitiveCompare_iff parseQueryString_def parseQueryString_fields
        omap_inv_def)
qed

end
