(* ===== verification/Http_Multipart.thy ===== *)
theory Http_Multipart
  imports Http_Messages
begin

text \<open>
  \<open>HttpMultipartBuilder\<close> of \<open>src/include/FastNet/HttpCommon.h\<close>: the parts are a list in the order they were
  added, the boundary a string. The clock and the static counter behind a default boundary
  are arguments, and the counter is returned incremented.
\<close>

record HttpMultipartPart =
  pt_name :: string
  pt_fileName :: string
  pt_contentType :: string
  pt_headers :: headers
  pt_body :: string

record HttpMultipartBuilder =
  mb_boundary :: string
  mb_parts :: "HttpMultipartPart list"

definition cQuote :: char where "cQuote = CHR 0x22"
definition cBackslash :: char where "cBackslash = CHR 0x5C"

definition makeBoundary :: "u64 \<Rightarrow> u64 \<Rightarrow> string \<times> u64" where
  "makeBoundary now counter =
     (''----FastNetBoundary'' @ to_chars 10 (unat now) @ to_chars 10 (unat counter), counter + 1)"

definition HttpMultipartBuilder_new :: "string \<Rightarrow> HttpMultipartBuilder" where
  "HttpMultipartBuilder_new boundary = \<lparr>mb_boundary = boundary, mb_parts = []\<rparr>"

definition addPart :: "HttpMultipartPart \<Rightarrow> HttpMultipartBuilder \<Rightarrow> HttpMultipartBuilder" where
  "addPart part b = b\<lparr>mb_parts := mb_parts b @ [part]\<rparr>"

definition addField :: "string \<Rightarrow> string \<Rightarrow> HttpMultipartBuilder \<Rightarrow> HttpMultipartBuilder" where
  "addField name value b =
     b\<lparr>mb_parts := mb_parts b @
        [\<lparr>pt_name = name, pt_fileName = [], pt_contentType = [], pt_headers = [], pt_body = value\<rparr>]\<rparr>"

definition addFile :: "string \<Rightarrow> string \<Rightarrow> string \<Rightarrow> string \<Rightarrow> HttpMultipartBuilder \<Rightarrow> HttpMultipartBuilder" where
  "addFile name fileName body contentType b =
     b\<lparr>mb_parts := mb_parts b @
        [\<lparr>pt_name = name, pt_fileName = fileName, pt_contentType = contentType, pt_headers = [], pt_body = body\<rparr>]\<rparr>"

definition multipart_contentType :: "HttpMultipartBuilder \<Rightarrow> string" where
  "multipart_contentType b = ''multipart/form-data; boundary='' @ mb_boundary b"

definition multipart_headers :: "HttpMultipartBuilder \<Rightarrow> headers" where
  "multipart_headers b = [(''Content-Type'', multipart_contentType b)]"

fun appendQuoted :: "string \<Rightarrow> string \<Rightarrow> string" where
  "appendQuoted output [] = output"
| "appendQuoted output (ch # value) =
     appendQuoted ((if ch = cBackslash \<or> ch = cQuote then output @ [cBackslash] else output) @ [ch]) value"

definition appendPartHeaders :: "string \<Rightarrow> headers \<Rightarrow> string" where
  "appendPartHeaders body headers =
     foldl (\<lambda>body (name, value). body @ name @ '': '' @ value @ CRLF) body headers"

definition build_part :: "string \<Rightarrow> string \<Rightarrow> HttpMultipartPart \<Rightarrow> string" where
  "build_part boundary body part =
     (let body = body @ ''--'' @ boundary;
          body = body @ CRLF @ ''Content-Disposition: form-data; name='' @ [cQuote];
          body = appendQuoted body (pt_name part) @ [cQuote];
          body = (if pt_fileName part \<noteq> []
                  then appendQuoted (body @ ''; filename='' @ [cQuote]) (pt_fileName part) @ [cQuote]
                  else body);
          body = body @ CRLF;
          body = (if pt_contentType part \<noteq> [] then body @ ''Content-Type: '' @ pt_contentType part @ CRLF
                  else body);
          body = appendPartHeaders body (pt_headers part)
      in body @ CRLF @ pt_body part @ CRLF)"

definition multipart_build :: "HttpMultipartBuilder \<Rightarrow> string" where
  "multipart_build b =
     foldl (build_part (mb_boundary b)) [] (mb_parts b) @ ''--'' @ mb_boundary b @ ''--'' @ CRLF"

subsection \<open>Quoting\<close>

text \<open>A reader of quoted strings: a backslash protects the next character, a bare quote ends the string.\<close>

fun read_quoted :: "string \<Rightarrow> (string \<times> string) option" where
  "read_quoted [] = None"
| "read_quoted (c # s) =
     (if c = cQuote then Some ([], s)
      else if c = cBackslash
      then (case s of [] \<Rightarrow> None | d # s' \<Rightarrow> map_option (\<lambda>(v, rest). (d # v, rest)) (read_quoted s'))
      else map_option (\<lambda>(v, rest). (c # v, rest)) (read_quoted s))"

lemma quote_neq [simp]: "cQuote \<noteq> cBackslash" "cBackslash \<noteq> cQuote"
  by (simp_all add: cQuote_def cBackslash_def)

lemma appendQuoted_acc: "appendQuoted out v = out @ appendQuoted [] v"
proof (induction v arbitrary: out)
  case (Cons c v)
  show ?case
    by (simp add: Cons [of "_ @ _"] Cons [of "[_]"] Cons [of "[_, _]"])
qed simp

lemma read_quoted_append: "read_quoted (appendQuoted [] v @ cQuote # rest) = Some (v, rest)"
proof (induction v)
  case (Cons c v)
  then show ?case
    by (simp add: appendQuoted_acc [of "[_]"] appendQuoted_acc [of "[_, _]"])
qed simp

definition render_part :: "string \<Rightarrow> HttpMultipartPart \<Rightarrow> string" where
  "render_part boundary part = build_part boundary [] part"

lemma appendPartHeaders_acc: "appendPartHeaders out hs = out @ appendPartHeaders [] hs"
proof -
  have "foldl (\<lambda>body (name, value). body @ name @ x @ value @ y) out hs =
      out @ concat (map (\<lambda>(name, value). name @ x @ value @ y) hs)" for out x y and hs :: headers
    by (induction hs arbitrary: out) auto
  then show ?thesis by (simp only: appendPartHeaders_def append_Nil)
qed

lemma render_part_eq:
  "build_part boundary out part = out @
     (''--'' @ boundary @ CRLF @ ''Content-Disposition: form-data; name='' @ [cQuote]) @
     appendQuoted [] (pt_name part) @ [cQuote] @
     (if pt_fileName part \<noteq> [] then ''; filename='' @ [cQuote] @ appendQuoted [] (pt_fileName part) @ [cQuote] else []) @
     CRLF @ (if pt_contentType part \<noteq> [] then ''Content-Type: '' @ pt_contentType part @ CRLF else []) @
     appendPartHeaders [] (pt_headers part) @ CRLF @ pt_body part @ CRLF"
  unfolding build_part_def Let_def
  by (subst appendPartHeaders_acc)
    (simp add: appendQuoted_acc [of "_ @ _"] del: append_Cons append.simps)

lemma build_part_acc: "build_part boundary out part = out @ render_part boundary part"
  by (simp only: render_part_def render_part_eq append_Nil append_assoc)

text \<open>Multipart bodies. The body is the concatenation of its rendered parts in the order they were added,
  closed by the final delimiter; in each part the field name is quoted so that a reader gets back
  exactly that name, whatever quotes and backslashes it contains.\<close>

theorem multipart_parts:
  "multipart_build b = concat (map (render_part (mb_boundary b)) (mb_parts b)) @ ''--'' @ mb_boundary b @ ''--'' @ CRLF \<and>
   (\<exists>rest. render_part boundary part =
      (''--'' @ boundary @ CRLF @ ''Content-Disposition: form-data; name='' @ [cQuote]) @ rest \<and>
      map_option fst (read_quoted rest) = Some (pt_name part))"
proof
  have "foldl (build_part bd) out ps = out @ concat (map (render_part bd) ps)" for bd out ps
    by (induction ps arbitrary: out) (auto simp: build_part_acc)
  then show "multipart_build b = concat (map (render_part (mb_boundary b)) (mb_parts b)) @ ''--'' @ mb_boundary b @ ''--'' @ CRLF"
    by (simp add: multipart_build_def)
  have "\<exists>tail. render_part boundary part = (''--'' @ boundary @ CRLF @
      ''Content-Disposition: form-data; name='' @ [cQuote]) @ appendQuoted [] (pt_name part) @ [cQuote] @ tail"
    unfolding render_part_def render_part_eq append_Nil by blast
  then show "\<exists>rest. render_part boundary part =
      (''--'' @ boundary @ CRLF @ ''Content-Disposition: form-data; name='' @ [cQuote]) @ rest \<and>
      map_option fst (read_quoted rest) = Some (pt_name part)"
    using read_quoted_append [of "pt_name part"] by (metis append.simps fst_conv option.simps(9))
qed

end
