(* ===== verification/Fast_Buffer.thy ===== *)
theory Fast_Buffer
  imports FN_Prelude
begin

text \<open>
  \<open>FastBuffer\<close> of \<open>src/include/FastNet/FastBuffer.h\<close>: a byte buffer with 4096 bytes of inline storage, a
  heap block beyond that, and a read cursor that makes \<open>erase_front\<close> cheap.

  The object is a record with the class's members; \<open>heapBuffer_\<close> is the block it points to,
  \<^term>\<open>None\<close> for the null pointer. The C allocator is an argument: \<open>alloc n\<close> is a fresh block of
  \<open>n\<close> bytes with arbitrary content, or \<^term>\<open>None\<close> when it fails. Each operation that can throw
  returns the exception, if any, with the object as the exception leaves it. A source
  pointer is null, points to memory outside the buffer, or into its live bytes. The sums
  \<open>size_ + len\<close> and \<open>size_ + count\<close> of arguments are reduced modulo \<open>2\<^sup>6\<^sup>4\<close>.
\<close>

subsection \<open>The object\<close>

definition kStackSize :: nat where "kStackSize = 4096"
definition kMaxSize :: nat where "kMaxSize = 64 * 1024 * 1024"

record fastbuffer =
  stackBuffer :: bytes
  heapBuffer :: "bytes option"
  fb_size :: nat
  fb_capacity :: nat
  readOffset :: nat
  usingHeap :: bool

datatype fb_error = LengthError | BadAlloc | OutOfRange

type_synonym fb_result = "fb_error option \<times> fastbuffer"

type_synonym allocator = "nat \<Rightarrow> bytes option"

definition fastbuffer_new :: fastbuffer where
  "fastbuffer_new =
     \<lparr>stackBuffer = replicate kStackSize 0, heapBuffer = None, fb_size = 0, fb_capacity = kStackSize,
      readOffset = 0, usingHeap = False\<rparr>"

definition fb_base :: "fastbuffer \<Rightarrow> bytes" where
  "fb_base b = (if usingHeap b then the (heapBuffer b) else stackBuffer b)"

definition set_base :: "(bytes \<Rightarrow> bytes) \<Rightarrow> fastbuffer \<Rightarrow> fastbuffer" where
  "set_base f b =
     (if usingHeap b then b\<lparr>heapBuffer := Some (f (the (heapBuffer b)))\<rparr>
      else b\<lparr>stackBuffer := f (stackBuffer b)\<rparr>)"

text \<open>\<open>data()\<close>: the memory from the read cursor on; writing through it.\<close>

definition fb_data :: "fastbuffer \<Rightarrow> bytes" where
  "fb_data b = drop (readOffset b) (fb_base b)"

definition write_data :: "nat \<Rightarrow> bytes \<Rightarrow> fastbuffer \<Rightarrow> fastbuffer" where
  "write_data pos src b = set_base (write_at (readOffset b + pos) src) b"

definition available_capacity :: "fastbuffer \<Rightarrow> nat" where
  "available_capacity b = fb_capacity b - readOffset b"

subsection \<open>Storage management\<close>

definition allocateAligned :: "allocator \<Rightarrow> nat \<Rightarrow> bytes option" where
  "allocateAligned alloc n = (if n = 0 then None else alloc ((n + 63) div 64 * 64))"

definition releaseHeap :: "fastbuffer \<Rightarrow> fastbuffer" where
  "releaseHeap b =
     (if usingHeap b
      then b\<lparr>heapBuffer := None, usingHeap := False, fb_capacity := kStackSize, readOffset := 0\<rparr>
      else b)"

definition fb_clear :: "fastbuffer \<Rightarrow> fastbuffer" where
  "fb_clear b = b\<lparr>fb_size := 0, readOffset := 0\<rparr>"

definition fb_reset :: "fastbuffer \<Rightarrow> fastbuffer" where
  "fb_reset b = releaseHeap (b\<lparr>fb_size := 0, readOffset := 0\<rparr>)"

definition compact :: "fastbuffer \<Rightarrow> fastbuffer" where
  "compact b =
     (if readOffset b = 0 \<or> fb_size b = 0 then b\<lparr>readOffset := 0\<rparr>
      else (set_base (\<lambda>base. write_at 0 (take (fb_size b) (drop (readOffset b) base)) base) b)
             \<lparr>readOffset := 0\<rparr>)"

text \<open>The doubling loop. It is entered only with \<open>requiredCapacity \<le> kMaxSize\<close>, where the two last
  disjuncts of the guard never decide.\<close>

function growCapacity :: "nat \<Rightarrow> nat \<Rightarrow> nat" where
  "growCapacity newCapacity requiredCapacity =
     (if newCapacity \<ge> requiredCapacity \<or> newCapacity = 0 \<or> newCapacity \<ge> kMaxSize then newCapacity
      else growCapacity (if newCapacity \<le> kMaxSize div 2 then newCapacity * 2 else kMaxSize) requiredCapacity)"
  by pat_completeness auto
termination
  by (relation "measure (\<lambda>(c, r). kMaxSize - c)") (auto simp: kMaxSize_def)

declare growCapacity.simps [simp del]

definition ensureCapacity :: "allocator \<Rightarrow> nat \<Rightarrow> fastbuffer \<Rightarrow> fb_result" where
  "ensureCapacity alloc requiredCapacity b =
     (if requiredCapacity > kMaxSize then (Some LengthError, b)
      else if requiredCapacity \<le> fb_capacity b - readOffset b then (None, b)
      else if requiredCapacity \<le> fb_capacity b \<and> readOffset b > 0 then (None, compact b)
      else
        let b = compact b;
            newCapacity = growCapacity (if fb_capacity b = 0 then kStackSize else fb_capacity b) requiredCapacity;
            newCapacity = (if newCapacity > kMaxSize then kMaxSize else newCapacity);
            newCapacity = (if newCapacity < requiredCapacity then requiredCapacity else newCapacity)
        in case allocateAligned alloc newCapacity of
             None \<Rightarrow> (Some BadAlloc, b)
           | Some newBuffer \<Rightarrow>
               let newBuffer = (if fb_size b > 0 then write_at 0 (take (fb_size b) (fb_data b)) newBuffer
                                else newBuffer)
               in (None, (releaseHeap b)\<lparr>heapBuffer := Some newBuffer, fb_capacity := newCapacity,
                                         usingHeap := True\<rparr>))"

definition fb_resize :: "allocator \<Rightarrow> nat \<Rightarrow> byte \<Rightarrow> fastbuffer \<Rightarrow> fb_result" where
  "fb_resize alloc newSize fill b =
     (if newSize > kMaxSize then (Some LengthError, b)
      else case ensureCapacity alloc newSize b of
        (Some e, b) \<Rightarrow> (Some e, b)
      | (None, b) \<Rightarrow>
          let b = (if newSize > fb_size b then write_data (fb_size b) (replicate (newSize - fb_size b) fill) b else b)
          in (None, b\<lparr>fb_size := newSize\<rparr>))"

definition fb_reserve :: "allocator \<Rightarrow> nat \<Rightarrow> fastbuffer \<Rightarrow> fb_result" where
  "fb_reserve alloc newCapacity b =
     (if newCapacity > kMaxSize then (Some LengthError, b) else ensureCapacity alloc newCapacity b)"

definition moveToStack :: "fastbuffer \<Rightarrow> fastbuffer" where
  "moveToStack b =
     (if \<not> usingHeap b then b
      else
        let stack = (if fb_size b > 0 then write_at 0 (take (fb_size b) (fb_data b)) (stackBuffer b)
                     else stackBuffer b)
        in b\<lparr>stackBuffer := stack, heapBuffer := None, fb_capacity := kStackSize, usingHeap := False,
             readOffset := 0\<rparr>)"

definition shrink_to_fit :: "allocator \<Rightarrow> fastbuffer \<Rightarrow> fb_result" where
  "shrink_to_fit alloc b =
     (if \<not> usingHeap b then (None, b)
      else if fb_size b \<le> kStackSize then (None, moveToStack b)
      else if fb_size b = fb_capacity b then (None, b)
      else case allocateAligned alloc (fb_size b) of
        None \<Rightarrow> (Some BadAlloc, b)
      | Some newBuffer \<Rightarrow>
          (None, b\<lparr>heapBuffer := Some (write_at 0 (take (fb_size b) (the (heapBuffer b))) newBuffer),
                   fb_capacity := fb_size b\<rparr>))"

subsection \<open>Content operations\<close>

datatype fb_source = Null | Outside bytes | Inside nat

definition source_bytes :: "fb_source \<Rightarrow> nat \<Rightarrow> fastbuffer \<Rightarrow> bytes" where
  "source_bytes src len b =
     (case src of Null \<Rightarrow> [] | Outside bs \<Rightarrow> take len bs | Inside off \<Rightarrow> take len (drop off (fb_data b)))"

definition push_back :: "allocator \<Rightarrow> byte \<Rightarrow> fastbuffer \<Rightarrow> fb_result" where
  "push_back alloc byte b =
     (case ensureCapacity alloc (fb_size b + 1) b of
        (Some e, b) \<Rightarrow> (Some e, b)
      | (None, b) \<Rightarrow> (None, (write_data (fb_size b) [byte] b)\<lparr>fb_size := fb_size b + 1\<rparr>))"

definition pop_back :: "fastbuffer \<Rightarrow> fastbuffer" where
  "pop_back b = (if fb_size b > 0 then b\<lparr>fb_size := fb_size b - 1\<rparr> else b)"

definition fb_append :: "allocator \<Rightarrow> fb_source \<Rightarrow> nat \<Rightarrow> fastbuffer \<Rightarrow> fb_result" where
  "fb_append alloc src len b =
     (if src = Null \<or> len = 0 then (None, b)
      else if wrap64 (fb_size b + len) > kMaxSize then (Some LengthError, b)
      else
        let oldSize = fb_size b
        in case ensureCapacity alloc (wrap64 (oldSize + len)) b of
             (Some e, b) \<Rightarrow> (Some e, b)
           | (None, b) \<Rightarrow>
               (None, (write_data oldSize (source_bytes src len b) b)\<lparr>fb_size := wrap64 (oldSize + len)\<rparr>))"

definition append_fill :: "allocator \<Rightarrow> nat \<Rightarrow> byte \<Rightarrow> fastbuffer \<Rightarrow> fb_result" where
  "append_fill alloc count fill b =
     (if count = 0 then (None, b)
      else if wrap64 (fb_size b + count) > kMaxSize then (Some LengthError, b)
      else
        let oldSize = fb_size b
        in case ensureCapacity alloc (wrap64 (oldSize + count)) b of
             (Some e, b) \<Rightarrow> (Some e, b)
           | (None, b) \<Rightarrow>
               (None, (write_data oldSize (replicate count fill) b)\<lparr>fb_size := wrap64 (oldSize + count)\<rparr>))"

definition fb_assign :: "allocator \<Rightarrow> fb_source \<Rightarrow> nat \<Rightarrow> fastbuffer \<Rightarrow> fb_result" where
  "fb_assign alloc src len b =
     (if src = Null \<or> len = 0 then (None, fb_clear b)
      else if len > kMaxSize then (Some LengthError, b)
      else case ensureCapacity alloc len b of
        (Some e, b) \<Rightarrow> (Some e, b)
      | (None, b) \<Rightarrow> (None, (write_data 0 (source_bytes src len b) b)\<lparr>fb_size := len\<rparr>))"

definition erase_front :: "nat \<Rightarrow> fastbuffer \<Rightarrow> fastbuffer" where
  "erase_front len b =
     (if len \<ge> fb_size b then fb_clear b
      else
        let b = b\<lparr>readOffset := readOffset b + len, fb_size := fb_size b - len\<rparr>
        in if readOffset b > fb_capacity b div 2 then compact b else b)"

definition fb_insert :: "allocator \<Rightarrow> nat \<Rightarrow> bytes \<Rightarrow> fastbuffer \<Rightarrow> fb_result" where
  "fb_insert alloc offset temp b =
     (if offset > fb_size b then (Some OutOfRange, b)
      else if temp = [] then (None, b)
      else if fb_size b + length temp > kMaxSize then (Some LengthError, b)
      else case ensureCapacity alloc (fb_size b + length temp) b of
        (Some e, b) \<Rightarrow> (Some e, b)
      | (None, b) \<Rightarrow>
          let b1 = write_data (offset + length temp) (take (fb_size b - offset) (drop offset (fb_data b))) b;
              b2 = write_data offset temp b1
          in (None, b2\<lparr>fb_size := fb_size b + length temp\<rparr>))"

definition toVector :: "fastbuffer \<Rightarrow> bytes" where
  "toVector b = take (fb_size b) (fb_data b)"

definition fb_toString :: "fastbuffer \<Rightarrow> string" where
  "fb_toString b = string_of_bytes (take (fb_size b) (fb_data b))"

definition fb_equal :: "fastbuffer \<Rightarrow> fastbuffer \<Rightarrow> bool" where
  "fb_equal lhs rhs =
     (if fb_size lhs \<noteq> fb_size rhs then False
      else if fb_size lhs = 0 then True
      else take (fb_size lhs) (fb_data lhs) = take (fb_size lhs) (fb_data rhs))"

subsection \<open>Moving between objects\<close>

text \<open>\<open>moveFrom\<close> into \<open>this\<close>, giving the new \<open>this\<close> and what is left in \<open>other\<close>.\<close>

definition moveFrom :: "fastbuffer \<Rightarrow> fastbuffer \<Rightarrow> fastbuffer \<times> fastbuffer" where
  "moveFrom this other =
     (let this = this\<lparr>fb_size := fb_size other, fb_capacity := fb_capacity other,
                      usingHeap := usingHeap other, readOffset := readOffset other\<rparr>;
          (this, other) =
            (if usingHeap other then (this\<lparr>heapBuffer := heapBuffer other\<rparr>, other\<lparr>heapBuffer := None\<rparr>)
             else if fb_size other > 0
             then (this\<lparr>stackBuffer := write_at 0 (take (fb_size other) (drop (readOffset other) (stackBuffer other)))
                                         (stackBuffer this),
                        readOffset := 0\<rparr>, other)
             else (this, other))
      in (this, other\<lparr>fb_size := 0, fb_capacity := kStackSize, usingHeap := False, readOffset := 0\<rparr>))"

definition move_construct :: "fastbuffer \<Rightarrow> fastbuffer \<times> fastbuffer" where
  "move_construct other = moveFrom fastbuffer_new other"

definition move_assign :: "fastbuffer \<Rightarrow> fastbuffer \<Rightarrow> fastbuffer \<times> fastbuffer" where
  "move_assign this other = moveFrom (releaseHeap this) other"

definition copy_construct :: "allocator \<Rightarrow> fastbuffer \<Rightarrow> fb_result" where
  "copy_construct alloc other = fb_assign alloc (Outside (fb_data other)) (fb_size other) fastbuffer_new"

definition copy_assign :: "allocator \<Rightarrow> fastbuffer \<Rightarrow> fastbuffer \<Rightarrow> fb_result" where
  "copy_assign alloc this other = fb_assign alloc (Outside (fb_data other)) (fb_size other) this"

definition fb_swap :: "fastbuffer \<Rightarrow> fastbuffer \<Rightarrow> fastbuffer \<times> fastbuffer" where
  "fb_swap this other =
     (if usingHeap this \<and> usingHeap other
      then (this\<lparr>heapBuffer := heapBuffer other, fb_size := fb_size other, fb_capacity := fb_capacity other,
                 readOffset := readOffset other\<rparr>,
            other\<lparr>heapBuffer := heapBuffer this, fb_size := fb_size this, fb_capacity := fb_capacity this,
                  readOffset := readOffset this\<rparr>)
      else
        let (tmp, other) = move_construct other;
            (other, this) = move_assign other this;
            (this, tmp) = move_assign this tmp
        in (this, other))"

subsection \<open>Invariant and contents\<close>

definition fb_contents :: "fastbuffer \<Rightarrow> bytes" where
  "fb_contents b = take (fb_size b) (fb_data b)"

definition fb_inv :: "fastbuffer \<Rightarrow> bool" where
  "fb_inv b \<longleftrightarrow>
     length (stackBuffer b) = kStackSize \<and>
     (case heapBuffer b of
        None \<Rightarrow> \<not> usingHeap b \<and> fb_capacity b = kStackSize
      | Some h \<Rightarrow> usingHeap b \<and> fb_capacity b \<le> length h) \<and>
     readOffset b + fb_size b \<le> fb_capacity b \<and> kStackSize \<le> fb_capacity b \<and> fb_capacity b \<le> kMaxSize"

definition good_alloc :: "allocator \<Rightarrow> bool" where
  "good_alloc alloc \<longleftrightarrow> (\<forall>n m. alloc n = Some m \<longrightarrow> length m = n)"

lemma kStack_le_kMax: "kStackSize \<le> kMaxSize"
  by (simp add: kStackSize_def kMaxSize_def)

lemma fb_inv_base: "fb_inv b \<Longrightarrow> fb_capacity b \<le> length (fb_base b)"
  by (auto simp: fb_inv_def fb_base_def split: option.splits)

lemma fb_inv_bounds:
  assumes "fb_inv b"
  shows "readOffset b + fb_size b \<le> fb_capacity b" "kStackSize \<le> fb_capacity b" "fb_capacity b \<le> kMaxSize"
    "length (stackBuffer b) = kStackSize"
  using assms by (simp_all add: fb_inv_def)

lemma length_fb_contents [simp]: "fb_inv b \<Longrightarrow> length (fb_contents b) = fb_size b"
  using fb_inv_base [of b] fb_inv_bounds(1) [of b] by (simp add: fb_contents_def fb_data_def)

lemma fb_inv_new: "fb_inv fastbuffer_new"
  by (simp add: fb_inv_def fastbuffer_new_def kStack_le_kMax)

lemma fb_contents_new [simp]: "fb_contents fastbuffer_new = []"
  by (simp add: fb_contents_def fastbuffer_new_def)

lemma set_base_simps [simp]:
  "fb_size (set_base f b) = fb_size b" "fb_capacity (set_base f b) = fb_capacity b"
  "readOffset (set_base f b) = readOffset b" "usingHeap (set_base f b) = usingHeap b"
  by (simp_all add: set_base_def)

lemma fb_base_set_base [simp]: "fb_base (set_base f b) = f (fb_base b)"
  by (simp add: fb_base_def set_base_def)

lemma fb_base_update [simp]:
  "fb_base (b\<lparr>fb_size := n\<rparr>) = fb_base b" "fb_base (b\<lparr>readOffset := r\<rparr>) = fb_base b"
  by (simp_all add: fb_base_def)

lemma fb_inv_set_base:
  "fb_inv b \<Longrightarrow> length (f (fb_base b)) = length (fb_base b) \<Longrightarrow> fb_inv (set_base f b)"
  by (auto simp: fb_inv_def set_base_def fb_base_def split: option.splits)

lemma fb_inv_resize:
  "fb_inv b \<Longrightarrow> readOffset b + n \<le> fb_capacity b \<Longrightarrow> fb_inv (b\<lparr>fb_size := n\<rparr>)"
  by (auto simp: fb_inv_def split: option.splits)

lemma fb_inv_cursor:
  "fb_inv b \<Longrightarrow> r + fb_size b \<le> fb_capacity b \<Longrightarrow> fb_inv (b\<lparr>readOffset := r\<rparr>)"
  by (auto simp: fb_inv_def split: option.splits)

lemma compact_ok:
  assumes "fb_inv b"
  shows "fb_inv (compact b)" "fb_contents (compact b) = fb_contents b" "readOffset (compact b) = 0"
    "fb_size (compact b) = fb_size b" "fb_capacity (compact b) = fb_capacity b"
    "fb_data (compact b) = fb_base (compact b)"
proof -
  have le: "readOffset b + fb_size b \<le> length (fb_base b)"
    using fb_inv_base [OF assms] assms by (auto simp: fb_inv_def)
  show "readOffset (compact b) = 0" "fb_size (compact b) = fb_size b" "fb_capacity (compact b) = fb_capacity b"
    by (simp_all add: compact_def)
  then show "fb_data (compact b) = fb_base (compact b)" by (simp add: fb_data_def)
  show "fb_contents (compact b) = fb_contents b"
    using le by (auto simp: compact_def fb_contents_def fb_data_def write_at_def)
  show "fb_inv (compact b)"
    unfolding compact_def
    using assms le
    by (auto intro!: fb_inv_cursor fb_inv_set_base simp: length_write_at) (auto simp: fb_inv_def)
qed

text \<open>Writing behind the cursor, within the capacity.\<close>

lemma write_data_simps [simp]:
  "fb_size (write_data pos src b) = fb_size b" "fb_capacity (write_data pos src b) = fb_capacity b"
  "readOffset (write_data pos src b) = readOffset b"
  by (simp_all add: write_data_def)

lemma fb_data_write_data:
  assumes "fb_inv b" "readOffset b + pos + length src \<le> fb_capacity b"
  shows "fb_data (write_data pos src b) = write_at pos src (fb_data b)"
  using fb_inv_base [OF assms(1)] assms(2)
  by (simp add: fb_data_def write_data_def write_at_def take_drop ac_simps)

lemma fb_inv_write_data:
  "fb_inv b \<Longrightarrow> readOffset b + pos + length src \<le> fb_capacity b \<Longrightarrow> fb_inv (write_data pos src b)"
  using fb_inv_base [of b] unfolding write_data_def by (intro fb_inv_set_base) (simp_all add: length_write_at)

lemma fb_data_size [simp]: "fb_data (b\<lparr>fb_size := n\<rparr>) = fb_data b"
  by (simp add: fb_data_def)

subsection \<open>Growing\<close>

lemma growCapacity_unfold:
  "r \<le> kMaxSize \<Longrightarrow> 0 < c \<Longrightarrow>
   growCapacity c r = (if c < r then growCapacity (if c \<le> kMaxSize div 2 then c * 2 else kMaxSize) r else c)"
  by (subst growCapacity.simps) auto

lemma growCapacity_bounds:
  "r \<le> kMaxSize \<Longrightarrow> 0 < c \<Longrightarrow> c \<le> kMaxSize \<Longrightarrow>
   r \<le> growCapacity c r \<and> c \<le> growCapacity c r \<and> growCapacity c r \<le> kMaxSize"
proof (induction c r rule: growCapacity.induct)
  case (1 c r)
  show ?case
  proof (cases "c < r")
    case True
    let ?c = "if c \<le> kMaxSize div 2 then c * 2 else kMaxSize"
    have "0 < ?c" "?c \<le> kMaxSize" "c \<le> ?c" using 1(3,4) by (auto simp: kMaxSize_def)
    moreover have "\<not> (c \<ge> r \<or> c = 0 \<or> c \<ge> kMaxSize)" using 1(2-4) True by auto
    ultimately show ?thesis
      using 1(1) 1(2) True growCapacity_unfold [OF 1(2,3)] by (auto split: if_splits)
  qed (use 1 growCapacity_unfold [OF 1(2,3)] in auto)
qed

lemma allocateAligned_length:
  assumes "good_alloc alloc" "allocateAligned alloc n = Some m"
  shows "n \<le> length m"
proof -
  have "length m = (n + 63) div 64 * 64"
    using assms by (auto simp: good_alloc_def allocateAligned_def split: if_splits)
  moreover have "n \<le> (n + 63) div 64 * 64" by presburger
  ultimately show ?thesis by simp
qed

lemma grow_from_inv:
  "fb_inv b \<Longrightarrow> n \<le> kMaxSize \<Longrightarrow>
   n \<le> growCapacity (fb_capacity b) n \<and> fb_capacity b \<le> growCapacity (fb_capacity b) n \<and>
   growCapacity (fb_capacity b) n \<le> kMaxSize \<and> fb_capacity b \<noteq> 0"
  using growCapacity_bounds [of n "fb_capacity b"] fb_inv_bounds [of b] by (auto simp: kStackSize_def)

definition moved_to :: "nat \<Rightarrow> bytes \<Rightarrow> fastbuffer \<Rightarrow> fastbuffer" where
  "moved_to n m b = (releaseHeap b)
     \<lparr>heapBuffer := Some (if fb_size b > 0 then write_at 0 (take (fb_size b) (fb_data b)) m else m),
      fb_capacity := n, usingHeap := True\<rparr>"

lemma ensureCapacity_eq:
  assumes "fb_inv b"
  shows "ensureCapacity alloc n b =
    (if n > kMaxSize then (Some LengthError, b)
     else if n \<le> fb_capacity b - readOffset b then (None, b)
     else if n \<le> fb_capacity b \<and> readOffset b > 0 then (None, compact b)
     else case allocateAligned alloc (growCapacity (fb_capacity b) n) of
       None \<Rightarrow> (Some BadAlloc, compact b)
     | Some m \<Rightarrow> (None, moved_to (growCapacity (fb_capacity b) n) m (compact b)))"
proof (cases "n > kMaxSize")
  case False
  then have "\<not> kMaxSize < growCapacity (fb_capacity b) n" "\<not> growCapacity (fb_capacity b) n < n"
      "fb_capacity b \<noteq> 0"
    using grow_from_inv [OF assms, of n] by auto
  then show ?thesis
    using compact_ok(5) [OF assms]
    by (simp add: ensureCapacity_def moved_to_def Let_def split del: if_split cong: if_cong option.case_cong)
qed (simp add: ensureCapacity_def)

lemma moved_to_ok:
  assumes "fb_inv b" "fb_size b \<le> n" "kStackSize \<le> n \<and> n \<le> kMaxSize" "n \<le> length m" "readOffset b = 0"
  shows "fb_inv (moved_to n m b) \<and> fb_contents (moved_to n m b) = fb_contents b \<and>
    fb_size (moved_to n m b) = fb_size b \<and> readOffset (moved_to n m b) = 0 \<and> fb_capacity (moved_to n m b) = n"
proof -
  let ?b = "moved_to n m b"
  have len: "length (take (fb_size b) (fb_data b)) = fb_size b"
    using length_fb_contents [OF assms(1)] by (simp add: fb_contents_def)
  have f: "readOffset ?b = 0" "fb_size ?b = fb_size b" "fb_capacity ?b = n" "usingHeap ?b"
      "stackBuffer ?b = stackBuffer b"
      "heapBuffer ?b = Some (if fb_size b > 0 then write_at 0 (take (fb_size b) (fb_data b)) m else m)"
    using assms(5) by (simp_all add: moved_to_def releaseHeap_def)
  have "fb_contents ?b = fb_contents b"
    unfolding fb_contents_def fb_data_def [of ?b] fb_base_def f
    using len f(4) by (auto simp: write_at_def)
  moreover have "length (write_at 0 (take (fb_size b) (fb_data b)) m) = length m"
    using len assms(2,4) by (intro length_write_at) simp
  ultimately show ?thesis
    using f assms fb_inv_bounds [OF assms(1)] by (simp add: fb_inv_def)
qed

lemma ensureCapacity_ok:
  assumes "fb_inv b" "good_alloc alloc" "ensureCapacity alloc n b = (e, b')"
  shows "fb_inv b'" "fb_contents b' = fb_contents b" "fb_size b' = fb_size b"
    "e = None \<Longrightarrow> readOffset b' + n \<le> fb_capacity b'" "fb_capacity b \<le> fb_capacity b'"
    "e = None \<or> e = Some BadAlloc \<or> e = Some LengthError \<and> n > kMaxSize \<and> b' = b"
proof -
  note grow = grow_from_inv [OF assms(1)]
  note c = compact_ok [OF assms(1)]
  note eq = ensureCapacity_eq [OF assms(1), of alloc n]
  consider (big) "n > kMaxSize" | (fits) "n \<le> kMaxSize" "n \<le> fb_capacity b - readOffset b"
    | (move) "n \<le> kMaxSize" "\<not> n \<le> fb_capacity b - readOffset b" "n \<le> fb_capacity b \<and> readOffset b > 0"
    | (alloc) "n \<le> kMaxSize" "\<not> n \<le> fb_capacity b - readOffset b" "\<not> (n \<le> fb_capacity b \<and> readOffset b > 0)"
    by linarith
  then have "fb_inv b' \<and> fb_contents b' = fb_contents b \<and> fb_size b' = fb_size b \<and>
    (e = None \<longrightarrow> readOffset b' + n \<le> fb_capacity b') \<and> fb_capacity b \<le> fb_capacity b' \<and>
    (e = None \<or> e = Some BadAlloc \<or> e = Some LengthError \<and> n > kMaxSize \<and> b' = b)"
  proof cases
    case big
    with eq assms(1,3) show ?thesis by simp
  next
    case fits
    with eq assms(1,3) fb_inv_bounds [OF assms(1)] show ?thesis by simp
  next
    case move
    with eq assms(3) c show ?thesis by simp
  next
    case alloc
    have ret: "(e, b') = (case allocateAligned alloc (growCapacity (fb_capacity b) n) of
       None \<Rightarrow> (Some BadAlloc, compact b)
     | Some m \<Rightarrow> (None, moved_to (growCapacity (fb_capacity b) n) m (compact b)))"
      using eq assms(3) alloc(1) unfolding if_not_P [OF alloc(2)] if_not_P [OF alloc(3)] by simp
    show ?thesis
    proof (cases "allocateAligned alloc (growCapacity (fb_capacity b) n)")
      case None
      with ret c show ?thesis by simp
    next
      case (Some m)
      with ret have ret: "e = None" "b' = moved_to (growCapacity (fb_capacity b) n) m (compact b)"
        by simp_all
      note g = grow [OF alloc(1)]
      have "fb_size (compact b) \<le> growCapacity (fb_capacity b) n" "kStackSize \<le> growCapacity (fb_capacity b) n"
        using g c fb_inv_bounds [OF assms(1)] by simp_all
      with moved_to_ok [OF c(1) _ _ allocateAligned_length [OF assms(2) Some] c(3)] g c
      show ?thesis by (simp add: ret)
    qed
  qed
  then show "fb_inv b'" "fb_contents b' = fb_contents b" "fb_size b' = fb_size b"
    "e = None \<Longrightarrow> readOffset b' + n \<le> fb_capacity b'" "fb_capacity b \<le> fb_capacity b'"
    "e = None \<or> e = Some BadAlloc \<or> e = Some LengthError \<and> n > kMaxSize \<and> b' = b"
    by blast+
qed

subsection \<open>What each operation does to the contents\<close>

text \<open>Overwriting from \<open>pos\<close> on and ending the buffer there: \<open>push_back\<close>, \<open>append\<close>, \<open>assign\<close> and a growing
  \<open>resize\<close> are all of this form.\<close>

lemma write_region:
  assumes "fb_inv b" "pos \<le> fb_size b" "readOffset b + pos + length src \<le> fb_capacity b" "n = pos + length src"
  shows "fb_inv ((write_data pos src b)\<lparr>fb_size := n\<rparr>)"
    "fb_contents ((write_data pos src b)\<lparr>fb_size := n\<rparr>) = take pos (fb_contents b) @ src"
proof -
  show "fb_inv ((write_data pos src b)\<lparr>fb_size := n\<rparr>)"
    using fb_inv_resize [OF fb_inv_write_data [OF assms(1,3)]] assms(3,4) by (simp add: ac_simps)
  have "pos + length src \<le> length (fb_data b)"
    using fb_inv_base [OF assms(1)] assms(3) by (simp add: fb_data_def)
  then show "fb_contents ((write_data pos src b)\<lparr>fb_size := n\<rparr>) = take pos (fb_contents b) @ src"
    using assms(2,4) by (simp add: fb_contents_def fb_data_write_data [OF assms(1,3)] write_at_def min_absorb1)
qed

text \<open>The pattern \<open>ensureCapacity\<close>, then write behind the contents.\<close>

lemma grow_and_write:
  assumes "fb_inv b" "good_alloc alloc" "pos \<le> fb_size b"
    "\<And>b'. fb_inv b' \<Longrightarrow> fb_contents b' = fb_contents b \<Longrightarrow> fb_size b' = fb_size b \<Longrightarrow> length (src b') = k"
    "\<And>b'. fb_inv b' \<Longrightarrow> fb_contents b' = fb_contents b \<Longrightarrow> fb_size b' = fb_size b \<Longrightarrow> src b' = xs"
    "(case ensureCapacity alloc (pos + k) b of
        (Some e, b) \<Rightarrow> (Some e, b)
      | (None, b) \<Rightarrow> (None, (write_data pos (src b) b)\<lparr>fb_size := pos + k\<rparr>)) = (e, b')"
  shows "fb_inv b'" "fb_contents b' = (if e = None then take pos (fb_contents b) @ xs else fb_contents b)"
proof -
  obtain e1 b1 where r: "ensureCapacity alloc (pos + k) b = (e1, b1)" by (cases "ensureCapacity alloc (pos + k) b")
  note ok = ensureCapacity_ok [OF assms(1,2) r]
  have "fb_inv b' \<and> fb_contents b' = (if e = None then take pos (fb_contents b) @ xs else fb_contents b)"
  proof (cases e1)
    case None
    have l: "length (src b1) = k" "src b1 = xs" using assms(4,5) ok by blast+
    have "readOffset b1 + pos + length (src b1) \<le> fb_capacity b1" "pos \<le> fb_size b1"
      using ok(3,4) None l assms(3) by simp_all
    with write_region [OF ok(1) this(2,1)] l show ?thesis
      using assms(6) r None ok by (auto)
  next
    case (Some e2)
    with assms(6) r ok show ?thesis by auto
  qed
  then show "fb_inv b'" "fb_contents b' = (if e = None then take pos (fb_contents b) @ xs else fb_contents b)"
    by blast+
qed

lemma push_back_ok:
  assumes "fb_inv b" "good_alloc alloc" "push_back alloc x b = (e, b')"
  shows "fb_inv b'" "fb_contents b' = (if e = None then fb_contents b @ [x] else fb_contents b)"
proof -
  have "(case ensureCapacity alloc (fb_size b + 1) b of
        (Some e, b) \<Rightarrow> (Some e, b)
      | (None, b1) \<Rightarrow> (None, (write_data (fb_size b) [x] b1)\<lparr>fb_size := fb_size b + 1\<rparr>)) = (e, b')"
    using assms(3) ensureCapacity_ok(3) [OF assms(1,2)]
    by (auto simp: push_back_def split: prod.splits option.splits)
  from grow_and_write [where src = "\<lambda>_. [x]" and xs = "[x]" and k = 1, OF assms(1,2) _ _ _ this]
  show "fb_inv b'" "fb_contents b' = (if e = None then fb_contents b @ [x] else fb_contents b)"
    using length_fb_contents [OF assms(1)] by auto
qed

lemma wrap64_append: "a \<le> kMaxSize \<Longrightarrow> len < 2 ^ 63 \<Longrightarrow> wrap64 (a + len) = a + len"
  by (simp add: wrap64_def kMaxSize_def)

lemma fb_size_le_max: "fb_inv b \<Longrightarrow> fb_size b \<le> kMaxSize"
  using fb_inv_bounds [of b] by linarith

text \<open>A valid source argument: memory outside the buffer holding \<open>len\<close> bytes, or a range of the live bytes.\<close>

definition source_ok :: "fb_source \<Rightarrow> nat \<Rightarrow> fastbuffer \<Rightarrow> bool" where
  "source_ok src len b \<longleftrightarrow> len < 2 ^ 63 \<and>
     (case src of Null \<Rightarrow> True | Outside bs \<Rightarrow> len \<le> length bs | Inside off \<Rightarrow> off + len \<le> fb_size b)"

definition source_of :: "fb_source \<Rightarrow> nat \<Rightarrow> bytes \<Rightarrow> bytes" where
  "source_of src len cur =
     (case src of Null \<Rightarrow> [] | Outside bs \<Rightarrow> take len bs | Inside off \<Rightarrow> take len (drop off cur))"

lemma source_bytes_stable:
  assumes "source_ok src len b" "src \<noteq> Null" "fb_inv b'" "fb_contents b' = fb_contents b" "fb_size b' = fb_size b"
  shows "source_bytes src len b' = source_of src len (fb_contents b)"
    "length (source_of src len (fb_contents b)) = len"
proof -
  have *: "take len (drop off (fb_data b')) = take len (drop off (fb_contents b))" if "off + len \<le> fb_size b" for off
    unfolding assms(4) [symmetric] unfolding fb_contents_def assms(5) using that
    by (simp add: take_drop min_absorb1 ac_simps)
  have "length (fb_contents b) = fb_size b" using length_fb_contents [OF assms(3)] assms(4,5) by simp
  with * assms(1,2) show "source_bytes src len b' = source_of src len (fb_contents b)"
    "length (source_of src len (fb_contents b)) = len"
    by (auto simp: source_ok_def source_bytes_def source_of_def split: fb_source.splits)
qed

lemma fb_append_ok:
  assumes "fb_inv b" "good_alloc alloc" "source_ok src len b" "fb_append alloc src len b = (e, b')"
  shows "fb_inv b'"
    "fb_contents b' = (if e = None then fb_contents b @ source_of src len (fb_contents b) else fb_contents b)"
proof -
  have "fb_inv b' \<and> fb_contents b' = (if e = None then fb_contents b @ source_of src len (fb_contents b) else fb_contents b)"
  proof (cases "src = Null \<or> len = 0")
    case True
    then have "source_of src len (fb_contents b) = []" by (auto simp: source_of_def split: fb_source.splits)
    with True assms(1,4) show ?thesis by (simp add: fb_append_def)
  next
    case False
    then have w: "wrap64 (fb_size b + len) = fb_size b + len"
      using wrap64_append [OF fb_size_le_max [OF assms(1)]] assms(3) by (simp add: source_ok_def)
    show ?thesis
    proof (cases "fb_size b + len > kMaxSize")
      case True
      with False w assms(1,4) show ?thesis by (auto simp: fb_append_def)
    next
      case fits: False
      have "(case ensureCapacity alloc (fb_size b + len) b of
          (Some e, b) \<Rightarrow> (Some e, b)
        | (None, b1) \<Rightarrow> (None, (write_data (fb_size b) (source_bytes src len b1) b1)\<lparr>fb_size := fb_size b + len\<rparr>)) = (e, b')"
        using assms(4) False fits unfolding fb_append_def Let_def w by simp
      from grow_and_write [where xs = "source_of src len (fb_contents b)", OF assms(1,2) _ _ _ this]
      show ?thesis using source_bytes_stable [OF assms(3)] False length_fb_contents [OF assms(1)] by auto
    qed
  qed
  then show "fb_inv b'"
    "fb_contents b' = (if e = None then fb_contents b @ source_of src len (fb_contents b) else fb_contents b)"
    by blast+
qed

lemma append_fill_ok:
  assumes "fb_inv b" "good_alloc alloc" "count < 2 ^ 63" "append_fill alloc count x b = (e, b')"
  shows "fb_inv b'" "fb_contents b' = (if e = None then fb_contents b @ replicate count x else fb_contents b)"
proof -
  have w: "wrap64 (fb_size b + count) = fb_size b + count"
    using wrap64_append [OF fb_size_le_max [OF assms(1)] assms(3)] .
  have "fb_inv b' \<and> fb_contents b' = (if e = None then fb_contents b @ replicate count x else fb_contents b)"
  proof (cases "count = 0 \<or> fb_size b + count > kMaxSize")
    case True
    with w assms(1,4) show ?thesis by (auto simp: append_fill_def split: if_splits)
  next
    case False
    have "(case ensureCapacity alloc (fb_size b + count) b of
        (Some e, b) \<Rightarrow> (Some e, b)
      | (None, b1) \<Rightarrow> (None, (write_data (fb_size b) (replicate count x) b1)\<lparr>fb_size := fb_size b + count\<rparr>)) = (e, b')"
      using assms(4) False unfolding append_fill_def Let_def w by simp
    from grow_and_write [where src = "\<lambda>_. replicate count x" and xs = "replicate count x", OF assms(1,2) _ _ _ this]
    show ?thesis using length_fb_contents [OF assms(1)] by auto
  qed
  then show "fb_inv b'" "fb_contents b' = (if e = None then fb_contents b @ replicate count x else fb_contents b)"
    by blast+
qed

lemma fb_clear_ok: "fb_inv b \<Longrightarrow> fb_inv (fb_clear b)" "fb_contents (fb_clear b) = []"
  by (auto simp: fb_inv_def fb_clear_def fb_contents_def split: option.splits)

lemma fb_assign_ok:
  assumes "fb_inv b" "good_alloc alloc" "source_ok src len b" "fb_assign alloc src len b = (e, b')"
  shows "fb_inv b'"
    "fb_contents b' = (if e = None then source_of src len (fb_contents b) else fb_contents b)"
proof -
  have "fb_inv b' \<and> fb_contents b' = (if e = None then source_of src len (fb_contents b) else fb_contents b)"
  proof (cases "src = Null \<or> len = 0")
    case True
    then have "source_of src len (fb_contents b) = []" by (auto simp: source_of_def split: fb_source.splits)
    with True assms(1,4) fb_clear_ok [of b] show ?thesis by (auto simp: fb_assign_def)
  next
    case False
    show ?thesis
    proof (cases "len > kMaxSize")
      case True
      with False assms(1,4) show ?thesis by (auto simp: fb_assign_def)
    next
      case fits: False
      have "(case ensureCapacity alloc (0 + len) b of
          (Some e, b) \<Rightarrow> (Some e, b)
        | (None, b1) \<Rightarrow> (None, (write_data 0 (source_bytes src len b1) b1)\<lparr>fb_size := 0 + len\<rparr>)) = (e, b')"
        using assms(4) False fits unfolding fb_assign_def add_0 by simp
      from grow_and_write [where xs = "source_of src len (fb_contents b)", OF assms(1,2) _ _ _ this]
      show ?thesis using source_bytes_stable [OF assms(3)] False by auto
    qed
  qed
  then show "fb_inv b'"
    "fb_contents b' = (if e = None then source_of src len (fb_contents b) else fb_contents b)"
    by blast+
qed

lemma fb_inv_shorter: "fb_inv b \<Longrightarrow> n \<le> fb_size b \<Longrightarrow> fb_inv (b\<lparr>fb_size := n\<rparr>)"
  using fb_inv_resize [of b n] fb_inv_bounds(1) [of b] by simp

lemma fb_contents_shorter: "n \<le> fb_size b \<Longrightarrow> fb_contents (b\<lparr>fb_size := n\<rparr>) = take n (fb_contents b)"
  by (simp add: fb_contents_def min_absorb1)

lemma fb_resize_ok:
  assumes "fb_inv b" "good_alloc alloc" "fb_resize alloc n x b = (e, b')"
  shows "fb_inv b'"
    "fb_contents b' = (if e = None then take n (fb_contents b) @ replicate (n - fb_size b) x else fb_contents b)"
proof -
  obtain e1 b1 where r: "ensureCapacity alloc n b = (e1, b1)" by (cases "ensureCapacity alloc n b")
  note ok = ensureCapacity_ok [OF assms(1,2) r]
  have len: "length (fb_contents b) = fb_size b" using assms(1) by simp
  have "fb_inv b' \<and>
    fb_contents b' = (if e = None then take n (fb_contents b) @ replicate (n - fb_size b) x else fb_contents b)"
  proof (cases "n > kMaxSize \<or> e1 \<noteq> None")
    case True
    with assms(1,3) r ok(1,2) show ?thesis by (auto simp: fb_resize_def split: if_splits)
  next
    case False
    then have f: "readOffset b1 + n \<le> fb_capacity b1" using ok(4) by simp
    show ?thesis
    proof (cases "n > fb_size b1")
      case True
      then have "fb_inv ((write_data (fb_size b1) (replicate (n - fb_size b1) x) b1)\<lparr>fb_size := n\<rparr>)"
        "fb_contents ((write_data (fb_size b1) (replicate (n - fb_size b1) x) b1)\<lparr>fb_size := n\<rparr>) =
          take (fb_size b1) (fb_contents b1) @ replicate (n - fb_size b1) x"
        using write_region [OF ok(1), of "fb_size b1" "replicate (n - fb_size b1) x" n] f by auto
      with True False assms(3) r ok(2,3) len show ?thesis by (auto simp: fb_resize_def)
    next
      case shorter: False
      with fb_inv_shorter [OF ok(1)] fb_contents_shorter [of n b1] False assms(3) r ok(2,3) len
      show ?thesis by (auto simp: fb_resize_def)
    qed
  qed
  then show "fb_inv b'"
    "fb_contents b' = (if e = None then take n (fb_contents b) @ replicate (n - fb_size b) x else fb_contents b)"
    by blast+
qed

lemma pop_back_ok:
  assumes "fb_inv b"
  shows "fb_inv (pop_back b)" "fb_contents (pop_back b) = butlast (fb_contents b)"
  using assms fb_inv_shorter [OF assms, of "fb_size b - 1"] fb_contents_shorter [of "fb_size b - 1" b]
  by (auto simp: pop_back_def butlast_conv_take)
    (metis assms length_fb_contents length_0_conv)

lemma erase_front_ok:
  assumes "fb_inv b"
  shows "fb_inv (erase_front len b)" "fb_contents (erase_front len b) = drop len (fb_contents b)"
proof -
  let ?b = "b\<lparr>readOffset := readOffset b + len, fb_size := fb_size b - len\<rparr>"
  have l: "length (fb_contents b) = fb_size b" using assms by simp
  have "fb_inv (erase_front len b) \<and> fb_contents (erase_front len b) = drop len (fb_contents b)"
  proof (cases "len \<ge> fb_size b")
    case True
    with fb_clear_ok assms l show ?thesis by (simp add: erase_front_def)
  next
    case False
    have "fb_inv ?b" using assms False by (auto simp: fb_inv_def split: option.splits)
    moreover have "fb_base ?b = fb_base b" by (simp add: fb_base_def)
    then have "fb_contents ?b = drop len (fb_contents b)"
      using False by (simp add: fb_contents_def fb_data_def drop_take ac_simps)
    ultimately show ?thesis
      using False compact_ok(1,2) [of ?b] by (simp add: erase_front_def Let_def)
  qed
  then show "fb_inv (erase_front len b)" "fb_contents (erase_front len b) = drop len (fb_contents b)" by blast+
qed

lemma fb_insert_room:
  assumes "fb_inv b" "off \<le> fb_size b" "readOffset b + (fb_size b + length xs) \<le> fb_capacity b"
  defines "b1 \<equiv> write_data (off + length xs) (take (fb_size b - off) (drop off (fb_data b))) b"
  defines "b2 \<equiv> (write_data off xs b1)\<lparr>fb_size := fb_size b + length xs\<rparr>"
  shows "fb_inv b2" "fb_contents b2 = take off (fb_contents b) @ xs @ drop off (fb_contents b)"
proof -
  have len: "readOffset b + fb_size b + length xs \<le> length (fb_base b)" using fb_inv_base [OF assms(1)] assms(3) by simp
  then have dl: "fb_size b + length xs \<le> length (fb_data b)" by (simp add: fb_data_def)
  have r1: "readOffset b + (off + length xs) + length (take (fb_size b - off) (drop off (fb_data b))) \<le> fb_capacity b"
    using assms(2,3) dl by simp
  have i1: "fb_inv b1" unfolding b1_def by (rule fb_inv_write_data [OF assms(1) r1])
  have r2: "readOffset b1 + off + length xs \<le> fb_capacity b1" using assms(2,3) by (simp add: b1_def)
  show "fb_inv b2"
    unfolding b2_def by (rule fb_inv_resize [OF fb_inv_write_data [OF i1 r2]]) (use assms(3) in \<open>simp add: b1_def\<close>)
  have "fb_contents b2 = take (fb_size b + length xs) (write_at off xs (fb_data b1))"
    by (simp add: b2_def fb_contents_def fb_data_write_data [OF i1 r2])
  also have "fb_data b1 = write_at (off + length xs) (take (fb_size b - off) (drop off (fb_data b))) (fb_data b)"
    unfolding b1_def by (rule fb_data_write_data [OF assms(1) r1])
  finally show "fb_contents b2 = take off (fb_contents b) @ xs @ drop off (fb_contents b)"
    using dl assms(2) by (simp add: write_at_def fb_contents_def drop_take min_absorb1 take_add)
qed

lemma fb_insert_ok:
  assumes "fb_inv b" "good_alloc alloc" "fb_insert alloc off xs b = (e, b')"
  shows "fb_inv b'"
    "fb_contents b' = (if e = None then take off (fb_contents b) @ xs @ drop off (fb_contents b) else fb_contents b)"
proof -
  obtain e1 b1 where r: "ensureCapacity alloc (fb_size b + length xs) b = (e1, b1)"
    by (cases "ensureCapacity alloc (fb_size b + length xs) b")
  note ok = ensureCapacity_ok [OF assms(1,2) r]
  have "fb_inv b' \<and>
    fb_contents b' = (if e = None then take off (fb_contents b) @ xs @ drop off (fb_contents b) else fb_contents b)"
  proof (cases "off > fb_size b \<or> xs = [] \<or> fb_size b + length xs > kMaxSize \<or> e1 \<noteq> None")
    case True
    with assms(1,3) r ok(1,2) show ?thesis by (auto simp: fb_insert_def split: if_splits)
  next
    case False
    then have "off \<le> fb_size b1" "readOffset b1 + (fb_size b1 + length xs) \<le> fb_capacity b1" using ok(3,4) by simp_all
    from fb_insert_room [OF ok(1) this] False assms(3) r ok(2,3)
    show ?thesis by (auto simp: fb_insert_def Let_def)
  qed
  then show "fb_inv b'"
    "fb_contents b' = (if e = None then take off (fb_contents b) @ xs @ drop off (fb_contents b) else fb_contents b)"
    by blast+
qed

lemma moveToStack_ok:
  assumes "fb_inv b" "fb_size b \<le> kStackSize"
  shows "fb_inv (moveToStack b)" "fb_contents (moveToStack b) = fb_contents b"
proof -
  have len: "length (take (fb_size b) (fb_data b)) = fb_size b"
    using length_fb_contents [OF assms(1)] by (simp add: fb_contents_def)
  then have "length (write_at 0 (take (fb_size b) (fb_data b)) (stackBuffer b)) = kStackSize"
    using assms by (subst length_write_at) (simp_all add: fb_inv_def)
  then show "fb_inv (moveToStack b)"
    using assms kStack_le_kMax by (auto simp: fb_inv_def moveToStack_def Let_def)
  show "fb_contents (moveToStack b) = fb_contents b"
    using len by (auto simp: moveToStack_def Let_def fb_contents_def fb_base_def write_at_def fb_data_def)
qed

lemma releaseHeap_ok: "fb_inv b \<Longrightarrow> fb_inv (releaseHeap b) \<or> fb_size b > kStackSize"
  by (auto simp: fb_inv_def releaseHeap_def kStack_le_kMax)

lemma fb_reset_ok: "fb_inv b \<Longrightarrow> fb_inv (fb_reset b)" "fb_contents (fb_reset b) = []"
  by (auto simp: fb_inv_def fb_reset_def releaseHeap_def kStack_le_kMax fb_contents_def split: option.splits)

lemma fb_reserve_ok:
  assumes "fb_inv b" "good_alloc alloc" "fb_reserve alloc n b = (e, b')"
  shows "fb_inv b'" "fb_contents b' = fb_contents b"
proof -
  obtain e1 b1 where r: "ensureCapacity alloc n b = (e1, b1)" by (cases "ensureCapacity alloc n b")
  from ensureCapacity_ok [OF assms(1,2) r] assms(1,3) r
  show "fb_inv b'" "fb_contents b' = fb_contents b" by (auto simp: fb_reserve_def split: if_splits)
qed

text \<open>\<open>moveFrom\<close> needs only a target without a heap block, which is what both of its callers give it.\<close>

lemma moveFrom_ok:
  assumes "fb_inv b" "length (stackBuffer a) = kStackSize" "heapBuffer a = None" "moveFrom a b = (a', b')"
  shows "fb_inv a'" "fb_inv b'" "fb_contents a' = fb_contents b" "fb_contents b' = []"
proof -
  have inv: "length (stackBuffer b) = kStackSize" "usingHeap b = (heapBuffer b \<noteq> None)"
      "\<not> usingHeap b \<Longrightarrow> fb_capacity b = kStackSize" "readOffset b + fb_size b \<le> fb_capacity b"
    using assms(1) by (auto simp: fb_inv_def split: option.splits)
  let ?live = "take (fb_size b) (drop (readOffset b) (stackBuffer b))"
  have live: "\<not> usingHeap b \<Longrightarrow> length ?live = fb_size b"
    using inv by simp
  then have wl: "\<not> usingHeap b \<Longrightarrow> length (write_at 0 ?live (stackBuffer a)) = kStackSize"
    using inv assms(2) by (subst length_write_at) simp_all
  have b': "b' = (if usingHeap b then b\<lparr>heapBuffer := None\<rparr> else b)
      \<lparr>fb_size := 0, fb_capacity := kStackSize, usingHeap := False, readOffset := 0\<rparr>"
    using assms(4) by (auto simp: moveFrom_def Let_def split: if_splits)
  show "fb_inv b'" "fb_contents b' = []"
    using inv unfolding b' by (auto simp: fb_inv_def fb_contents_def kStack_le_kMax)
  show "fb_inv a'"
    using assms wl inv by (auto simp: moveFrom_def Let_def fb_inv_def split: if_splits option.splits)
  show "fb_contents a' = fb_contents b"
    using assms(4) live inv
    by (auto simp: moveFrom_def Let_def fb_contents_def fb_data_def fb_base_def write_at_def split: if_splits)
qed

lemma move_construct_ok:
  assumes "fb_inv b" "move_construct b = (a', b')"
  shows "fb_inv a'" "fb_inv b'" "fb_contents a' = fb_contents b" "fb_contents b' = []"
  using moveFrom_ok [OF assms(1) _ _ assms(2) [unfolded move_construct_def]] fb_inv_new
  by (simp_all add: fastbuffer_new_def)

lemma move_assign_ok:
  assumes "fb_inv a" "fb_inv b" "move_assign a b = (a', b')"
  shows "fb_inv a'" "fb_inv b'" "fb_contents a' = fb_contents b" "fb_contents b' = []"
proof -
  have "length (stackBuffer (releaseHeap a)) = kStackSize" "heapBuffer (releaseHeap a) = None"
    using assms(1) by (auto simp: fb_inv_def releaseHeap_def split: option.splits)
  from moveFrom_ok [OF assms(2) this assms(3) [unfolded move_assign_def]]
  show "fb_inv a'" "fb_inv b'" "fb_contents a' = fb_contents b" "fb_contents b' = []" by blast+
qed

lemma fb_swap_ok:
  assumes "fb_inv a" "fb_inv b" "fb_swap a b = (a', b')"
  shows "fb_inv a' \<and> fb_inv b' \<and> fb_contents a' = fb_contents b \<and> fb_contents b' = fb_contents a"
proof (cases "usingHeap a \<and> usingHeap b")
  case True
  then have "fb_base a' = fb_base b" "fb_base b' = fb_base a"
    using assms(3) by (auto simp: fb_swap_def fb_base_def)
  with True assms show ?thesis
    by (auto simp: fb_swap_def fb_inv_def fb_contents_def fb_data_def split: option.splits)
next
  case False
  obtain t b1 where 1: "move_construct b = (t, b1)" by (cases "move_construct b")
  obtain b2 a1 where 2: "move_assign b1 a = (b2, a1)" by (cases "move_assign b1 a")
  obtain a2 t1 where 3: "move_assign a1 t = (a2, t1)" by (cases "move_assign a1 t")
  note o1 = move_construct_ok [OF assms(2) 1]
  note o2 = move_assign_ok [OF o1(2) assms(1) 2]
  note o3 = move_assign_ok [OF o2(2) o1(1) 3]
  from False assms(3) 1 2 3 have "a' = a2" "b' = b2" by (auto simp: fb_swap_def)
  with o1 o2 o3 show ?thesis by simp
qed

subsection \<open>The operations against byte lists\<close>

text \<open>An operation of the class with its arguments, the call it makes, and what it means for the list of bytes
  the buffer stands for. A call that throws must leave that list as it was.\<close>

datatype fb_op =
    Push byte | Pop | Append fb_source nat | Fill nat byte | Assign fb_source nat | EraseFront nat
  | Insert nat bytes | Resize nat byte | Reserve nat | Compact | Clear | Reset

fun fb_call :: "allocator \<Rightarrow> fb_op \<Rightarrow> fastbuffer \<Rightarrow> fb_result" where
  "fb_call alloc (Push x) b = push_back alloc x b"
| "fb_call alloc Pop b = (None, pop_back b)"
| "fb_call alloc (Append src len) b = fb_append alloc src len b"
| "fb_call alloc (Fill n x) b = append_fill alloc n x b"
| "fb_call alloc (Assign src len) b = fb_assign alloc src len b"
| "fb_call alloc (EraseFront n) b = (None, erase_front n b)"
| "fb_call alloc (Insert off xs) b = fb_insert alloc off xs b"
| "fb_call alloc (Resize n x) b = fb_resize alloc n x b"
| "fb_call alloc (Reserve n) b = fb_reserve alloc n b"
| "fb_call alloc Compact b = (None, compact b)"
| "fb_call alloc Clear b = (None, fb_clear b)"
| "fb_call alloc Reset b = (None, fb_reset b)"

fun op_ok :: "fb_op \<Rightarrow> fastbuffer \<Rightarrow> bool" where
  "op_ok (Append src len) b \<longleftrightarrow> source_ok src len b"
| "op_ok (Assign src len) b \<longleftrightarrow> source_ok src len b"
| "op_ok (Fill n x) b \<longleftrightarrow> n < 2 ^ 63"
| "op_ok _ b \<longleftrightarrow> True"

fun op_spec :: "fb_op \<Rightarrow> bytes \<Rightarrow> bytes" where
  "op_spec (Push x) bs = bs @ [x]"
| "op_spec Pop bs = butlast bs"
| "op_spec (Append src len) bs = bs @ source_of src len bs"
| "op_spec (Fill n x) bs = bs @ replicate n x"
| "op_spec (Assign src len) bs = source_of src len bs"
| "op_spec (EraseFront n) bs = drop n bs"
| "op_spec (Insert off xs) bs = take off bs @ xs @ drop off bs"
| "op_spec (Resize n x) bs = take n bs @ replicate (n - length bs) x"
| "op_spec (Reserve n) bs = bs"
| "op_spec Compact bs = bs"
| "op_spec Clear bs = []"
| "op_spec Reset bs = []"

lemmas fb_ops_ok =
  push_back_ok pop_back_ok fb_append_ok append_fill_ok fb_assign_ok erase_front_ok fb_insert_ok
  fb_resize_ok fb_reserve_ok compact_ok(1,2) fb_clear_ok fb_reset_ok

lemma fb_call_ok:
  assumes "fb_inv b" "good_alloc alloc" "op_ok op b" "fb_call alloc op b = (e, b')"
  shows "fb_inv b' \<and> fb_contents b' = (if e = None then op_spec op (fb_contents b) else fb_contents b)"
proof (cases op)
  case (Push x) with fb_ops_ok(1,2) [OF assms(1,2)] assms(4) show ?thesis by simp
next
  case Pop with fb_ops_ok(3,4) [OF assms(1)] assms(4) show ?thesis by auto
next
  case (Append src len) with fb_append_ok [OF assms(1,2)] assms(3,4) show ?thesis by simp
next
  case (Fill n x) with append_fill_ok [OF assms(1,2)] assms(3,4) show ?thesis by simp
next
  case (Assign src len) with fb_assign_ok [OF assms(1,2)] assms(3,4) show ?thesis by simp
next
  case (EraseFront n) with erase_front_ok [OF assms(1)] assms(4) show ?thesis by auto
next
  case (Insert off xs) with fb_insert_ok [OF assms(1,2)] assms(4) show ?thesis by simp
next
  case (Resize n x) with fb_resize_ok [OF assms(1,2)] assms(1,4) show ?thesis by simp
next
  case (Reserve n) with fb_reserve_ok [OF assms(1,2)] assms(4) show ?thesis by simp
next
  case Compact with compact_ok [OF assms(1)] assms(4) show ?thesis by auto
next
  case Clear with fb_clear_ok assms(1,4) show ?thesis by auto
next
  case Reset with fb_reset_ok assms(1,4) show ?thesis by auto
qed

text \<open>A byte stream between a producer that appends blocks and a consumer that takes what it has handled off the
  front. \<open>drive\<close> runs a sequence of both and keeps the bytes accepted and the bytes taken.\<close>

datatype stream_op = Put bytes | Take nat

fun drive :: "(bytes \<Rightarrow> 's \<Rightarrow> 'x option \<times> 's) \<Rightarrow> (nat \<Rightarrow> 's \<Rightarrow> 's) \<Rightarrow> ('s \<Rightarrow> bytes) \<Rightarrow>
    stream_op list \<Rightarrow> 's \<Rightarrow> bytes \<times> bytes \<times> 's" where
  "drive put skip view [] s = ([], [], s)"
| "drive put skip view (Put bs # ops) s =
     (let (e, s1) = put bs s; (acc, del, s2) = drive put skip view ops s1
      in (if e = None then bs @ acc else acc, del, s2))"
| "drive put skip view (Take n # ops) s =
     (let (acc, del, s2) = drive put skip view ops (skip n s) in (acc, take n (view s) @ del, s2))"

fun small_op :: "stream_op \<Rightarrow> bool" where
  "small_op (Put bs) \<longleftrightarrow> length bs < 2 ^ 63"
| "small_op (Take n) \<longleftrightarrow> True"

locale byte_stream =
  fixes inv :: "'s \<Rightarrow> bool" and view :: "'s \<Rightarrow> bytes" and env_ok :: "'e \<Rightarrow> bool"
    and put :: "'e \<Rightarrow> bytes \<Rightarrow> 's \<Rightarrow> 'x option \<times> 's" and skip :: "nat \<Rightarrow> 's \<Rightarrow> 's"
  assumes put_inv: "inv s \<Longrightarrow> env_ok env \<Longrightarrow> length bs < 2 ^ 63 \<Longrightarrow> put env bs s = (e, s') \<Longrightarrow> inv s'"
    and put_view: "inv s \<Longrightarrow> env_ok env \<Longrightarrow> length bs < 2 ^ 63 \<Longrightarrow> put env bs s = (e, s') \<Longrightarrow>
      view s' = (if e = None then view s @ bs else view s)"
    and skip_inv: "inv s \<Longrightarrow> inv (skip n s)"
    and skip_view: "inv s \<Longrightarrow> view (skip n s) = drop n (view s)"
begin

lemma drive_order:
  "inv s \<Longrightarrow> env_ok env \<Longrightarrow> list_all small_op ops \<Longrightarrow> drive (put env) skip view ops s = (acc, del, s') \<Longrightarrow>
   inv s' \<and> view s @ acc = del @ view s'"
proof (induction ops arbitrary: s acc del)
  case (Cons x ops)
  show ?case
  proof (cases x)
    case (Put bs)
    obtain e s1 where p: "put env bs s = (e, s1)" by (cases "put env bs s")
    obtain acc' del' where d: "drive (put env) skip view ops s1 = (acc', del', s')"
      using Cons.prems(4) p Put by (auto split: prod.splits)
    have "inv s1" "view s1 = (if e = None then view s @ bs else view s)"
      using put_inv [OF _ _ _ p] put_view [OF _ _ _ p] Cons.prems Put by auto
    with Cons.IH [OF _ _ _ d] Cons.prems p d Put show ?thesis by (auto split: if_splits)
  next
    case (Take n)
    obtain acc' del' where d: "drive (put env) skip view ops (skip n s) = (acc', del', s')"
      using Cons.prems(4) Take by (auto split: prod.splits)
    have *: "inv s'" "drop n (view s) @ acc' = del' @ view s'"
      using Cons.IH [OF skip_inv _ _ d] Cons.prems skip_view by simp_all
    have "acc = acc'" "del = take n (view s) @ del'" using Cons.prems(4) d Take by simp_all
    moreover have "view s @ acc' = take n (view s) @ drop n (view s) @ acc'"
      unfolding append.assoc [symmetric] append_take_drop_id ..
    ultimately show ?thesis using * by simp
  qed
qed simp

end

interpretation fq: byte_stream fb_inv fb_contents good_alloc
  "\<lambda>alloc bs. fb_append alloc (Outside bs) (length bs)" erase_front
proof
  fix s e s' and alloc :: allocator and bs :: bytes
  assume a: "fb_inv s" "good_alloc alloc" "length bs < 2 ^ 63" "fb_append alloc (Outside bs) (length bs) s = (e, s')"
  then have "source_ok (Outside bs) (length bs) s" by (simp add: source_ok_def)
  from fb_append_ok [OF a(1,2) this a(4)]
  show "fb_inv s'" "fb_contents s' = (if e = None then fb_contents s @ bs else fb_contents s)"
    by (simp_all add: source_of_def)
qed (simp_all add: erase_front_ok)

subsection \<open>When the operations throw\<close>

lemma ensureCapacity_succeeds:
  assumes "fb_inv b" "\<forall>n. alloc n \<noteq> None" "n \<le> kMaxSize"
  shows "fst (ensureCapacity alloc n b) = None"
proof -
  have "allocateAligned alloc (growCapacity (fb_capacity b) n) \<noteq> None"
    using assms(2) grow_from_inv [OF assms(1,3)] by (auto simp: allocateAligned_def)
  then show ?thesis
    unfolding ensureCapacity_eq [OF assms(1)] using assms(3) by (auto split: option.splits)
qed

lemma fb_append_limit:
  assumes "fb_inv b" "\<forall>n. alloc n \<noteq> None" "source_ok src len b" "src \<noteq> Null"
  shows "fst (fb_append alloc src len b) = (if fb_size b + len \<le> kMaxSize then None else Some LengthError)"
proof -
  have w: "wrap64 (fb_size b + len) = fb_size b + len"
    using wrap64_append [OF fb_size_le_max [OF assms(1)]] assms(3) by (simp add: source_ok_def)
  show ?thesis
  proof (cases "fb_size b + len \<le> kMaxSize")
    case True
    with ensureCapacity_succeeds [OF assms(1,2) True] assms(4) show ?thesis
      unfolding fb_append_def Let_def w by (auto split: prod.splits option.splits)
  next
    case False
    with assms(4) fb_size_le_max [OF assms(1)] show ?thesis
      unfolding fb_append_def Let_def w by auto
  qed
qed

lemma fb_resize_limit:
  assumes "fb_inv b" "\<forall>n. alloc n \<noteq> None"
  shows "fst (fb_resize alloc n x b) = (if n \<le> kMaxSize then None else Some LengthError)"
  using ensureCapacity_succeeds [OF assms, of n]
  by (auto simp: fb_resize_def Let_def split: prod.splits option.splits)

lemma shrink_to_fit_cases:
  assumes "fb_inv b" "good_alloc alloc" "shrink_to_fit alloc b = (e, b')"
    and big: "kStackSize < fb_size b" "fb_size b < fb_capacity b" "e = None"
  shows "fb_inv b' \<longleftrightarrow> readOffset b = 0" "readOffset b = 0 \<Longrightarrow> fb_contents b' = fb_contents b"
proof -
  obtain h where h: "heapBuffer b = Some h" "usingHeap b" "fb_capacity b \<le> length h"
    using assms(1) big by (auto simp: fb_inv_def split: option.splits)
  obtain m where m: "allocateAligned alloc (fb_size b) = Some m"
    and b': "b' = b\<lparr>heapBuffer := Some (write_at 0 (take (fb_size b) h) m), fb_capacity := fb_size b\<rparr>"
    using assms(3) big h by (auto simp: shrink_to_fit_def split: option.splits)
  have "length (write_at 0 (take (fb_size b) h) m) = length m"
    using allocateAligned_length [OF assms(2) m] h(3) big by (intro length_write_at) simp
  then show "fb_inv b' \<longleftrightarrow> readOffset b = 0"
    using allocateAligned_length [OF assms(2) m] assms(1) h(2) big unfolding b'
    by (simp add: fb_inv_def split: option.splits)
  show "fb_contents b' = fb_contents b" if "readOffset b = 0"
    using that h big unfolding b' by (simp add: fb_contents_def fb_data_def fb_base_def write_at_def)
qed

subsection \<open>Properties\<close>



text \<open>A buffer used as a byte stream neither loses, repeats nor reorders bytes: for every sequence of appends
  and \<open>erase_front\<close> calls on a valid buffer, the bytes it held followed by the bytes accepted are the bytes taken
  off the front followed by the bytes it holds at the end, whatever blocks moved between stack and heap.\<close>

theorem buffer_stream_order:
  assumes "fb_inv b" "good_alloc alloc" "list_all small_op ops"
    "drive (\<lambda>bs. fb_append alloc (Outside bs) (length bs)) erase_front fb_contents ops b = (acc, del, b')"
  shows "fb_inv b' \<and> fb_contents b @ acc = del @ fb_contents b'"
  using fq.drive_order [OF assms] .

theorem buffer_stream_order_witness:
  "fb_inv fastbuffer_new \<and>
   (\<exists>acc del b'. drive (\<lambda>bs. fb_append (\<lambda>n. None) (Outside bs) (length bs)) erase_front fb_contents
      [Put [1, 2, 3], Take 2, Put [4]] fastbuffer_new = (acc, del, b') \<and> acc = del @ fb_contents b')"
proof -
  obtain acc del b' where d: "drive (\<lambda>bs. fb_append (\<lambda>n. None) (Outside bs) (length bs)) erase_front fb_contents
      [Put [1, 2, 3], Take 2, Put [4]] fastbuffer_new = (acc, del, b')"
    by (rule prod_cases3)
  have "fb_inv b' \<and> fb_contents fastbuffer_new @ acc = del @ fb_contents b'"
    by (rule buffer_stream_order [OF fb_inv_new _ _ d]) (simp_all add: good_alloc_def)
  with d fb_inv_new show ?thesis unfolding fb_contents_new append_Nil by blast
qed

text \<open>While the allocator gives memory, \<open>append\<close> and \<open>resize\<close> throw exactly when the buffer would hold more
  than 64 MiB, and then it is a length error.\<close>

theorem buffer_size_limit:
  assumes "fb_inv b" "\<forall>n. alloc n \<noteq> None" "source_ok src len b" "src \<noteq> Null"
  shows "fst (fb_append alloc src len b) = (if fb_size b + len \<le> kMaxSize then None else Some LengthError) \<and>
    fst (fb_resize alloc len x b) = (if len \<le> kMaxSize then None else Some LengthError)"
  using fb_append_limit [OF assms] fb_resize_limit [OF assms(1,2)] by simp

theorem buffer_size_limit_witness:
  "fst (fb_append (\<lambda>n. Some []) (Outside [1, 2, 3]) 3 fastbuffer_new) = None"
  using buffer_size_limit [OF fb_inv_new, of "\<lambda>n. Some []" "Outside [1, 2, 3]" 3 0]
  by (simp add: source_ok_def fastbuffer_new_def kMaxSize_def)

text \<open>\<open>swap\<close> exchanges the live bytes of two valid buffers and leaves both valid, in each of the four
  combinations of stack and heap storage.\<close>

theorem buffer_swap:
  assumes "fb_inv a" "fb_inv b" "fb_swap a b = (a', b')"
  shows "fb_inv a' \<and> fb_inv b' \<and> fb_contents a' = fb_contents b \<and> fb_contents b' = fb_contents a"
  by (rule fb_swap_ok [OF assms])

theorem buffer_swap_witness:
  "fb_inv fastbuffer_new \<and> fb_inv (fst (fb_swap fastbuffer_new fastbuffer_new)) \<and>
   fb_contents (fst (fb_swap fastbuffer_new fastbuffer_new)) = []"
  using buffer_swap [OF fb_inv_new fb_inv_new, of "fst (fb_swap fastbuffer_new fastbuffer_new)"
      "snd (fb_swap fastbuffer_new fastbuffer_new)"] fb_inv_new
  by simp

text \<open>C26: \<open>shrink_to_fit\<close> reallocates a heap buffer of more than 4096 live bytes by copying from the start of the
  block, while the read cursor is kept: the result is a valid buffer exactly when nothing had been erased from the
  front, and then the live bytes are unchanged.\<close>

theorem shrink_after_erase:
  assumes "fb_inv b" "good_alloc alloc" "shrink_to_fit alloc b = (None, b')"
    "kStackSize < fb_size b" "fb_size b < fb_capacity b"
  shows "(fb_inv b' \<longleftrightarrow> readOffset b = 0) \<and> (readOffset b = 0 \<longrightarrow> fb_contents b' = fb_contents b)"
  using shrink_to_fit_cases [OF assms refl] by blast

theorem shrink_after_erase_witness:
  "let b = fastbuffer_new\<lparr>heapBuffer := Some (replicate 8192 0), fb_size := 5000, fb_capacity := 8192,
      readOffset := 100, usingHeap := True\<rparr>
   in fb_inv b \<and> \<not> fb_inv (snd (shrink_to_fit (\<lambda>n. Some (replicate n 0)) b))"
proof -
  let ?b = "fastbuffer_new\<lparr>heapBuffer := Some (replicate 8192 0), fb_size := 5000, fb_capacity := 8192,
      readOffset := 100, usingHeap := True\<rparr>"
  let ?alloc = "\<lambda>n. Some (replicate n (0 :: byte))"
  have inv: "fb_inv ?b"
    by (simp add: fb_inv_def fastbuffer_new_def kStackSize_def kMaxSize_def)
  have "shrink_to_fit ?alloc ?b = (None, snd (shrink_to_fit ?alloc ?b))"
    by (simp add: shrink_to_fit_def allocateAligned_def kStackSize_def)
  from shrink_after_erase [OF inv _ this] inv show ?thesis
    by (simp add: good_alloc_def kStackSize_def)
qed

end
