(* ===== verification/Flat_Hash_Map.thy ===== *)
theory Flat_Hash_Map
  imports FN_Prelude
begin

unbundle bit_operations_syntax

text \<open>
  \<open>FlatHashMap\<close> of \<open>src/include/FastNet/FlatHashMap.h\<close>: an open-addressing hash table with Robin Hood
  insertion and backward-shift deletion.

  A table is a record with the class's members. A slot of \<open>kv_\<close> is raw storage: \<^term>\<open>None\<close> when no pair lives
  there, so that constructing and destroying payloads is visible. Probe-sequence lengths are 8-bit in
  the code and stop at 255, so they are naturals here and never wrap. The hash functor is the
  argument \<open>hash\<close>; the key comparison is equality. The two loops that walk the table without a bound of
  their own are partial functions: \<^term>\<open>None\<close> would mean that the loop does not end.
\<close>

subsection \<open>The table\<close>

definition kEmpty :: nat where "kEmpty = 0"
definition kPslMax :: nat where "kPslMax = 255"

record ('k, 'v) fhm =
  kv :: "('k \<times> 'v) option list"
  psl :: "nat list"
  fh_capacity :: nat
  fh_mask :: nat
  fh_size :: nat

type_synonym 'k hasher = "'k \<Rightarrow> 64 word"

definition nextPow2 :: "64 word \<Rightarrow> 64 word" where
  "nextPow2 n =
     (if n = 0 then 1
      else
        let n = n - 1;
            n = n OR drop_bit 1 n;
            n = n OR drop_bit 2 n;
            n = n OR drop_bit 4 n;
            n = n OR drop_bit 8 n;
            n = n OR drop_bit 16 n;
            n = n OR drop_bit 32 n
        in n + 1)"

definition slotOf :: "('k, 'v) fhm \<Rightarrow> nat \<Rightarrow> nat" where
  "slotOf m h = h AND fh_mask m"

definition hashOf :: "'k hasher \<Rightarrow> 'k \<Rightarrow> nat" where
  "hashOf hash key =
     (let h = hash key;
          h = h XOR drop_bit 32 h;
          h = h * 0x9e3779b97f4a7c15;
          h = h XOR drop_bit 32 h
      in unat h)"

subsection \<open>Lookup\<close>

text \<open>The probe loop. The distance starts at 1 and grows by one, so that testing it against the limit with \<open>\<ge>\<close>
  is the code's test for equality.\<close>

function findSlot_loop :: "('k, 'v) fhm \<Rightarrow> 'k \<Rightarrow> nat \<Rightarrow> nat \<Rightarrow> nat option" where
  "findSlot_loop m key slot dist =
     (let p = psl m ! slot
      in if p = kEmpty then None
         else if p < dist then None
         else if p = dist \<and> fst (the (kv m ! slot)) = key then Some slot
         else if dist + 1 \<ge> kPslMax then None
         else findSlot_loop m key (slotOf m (slot + 1)) (dist + 1))"
  by pat_completeness auto
termination
  by (relation "measure (\<lambda>(m, key, slot, dist). kPslMax - dist)") (auto simp: kPslMax_def)

declare findSlot_loop.simps [simp del]

definition findSlot :: "'k hasher \<Rightarrow> ('k, 'v) fhm \<Rightarrow> 'k \<Rightarrow> nat option" where
  "findSlot hash m key =
     (if fh_capacity m = 0 then None else findSlot_loop m key (slotOf m (hashOf hash key)) 1)"

definition fh_find :: "'k hasher \<Rightarrow> ('k, 'v) fhm \<Rightarrow> 'k \<Rightarrow> nat" where
  "fh_find hash m key = (case findSlot hash m key of None \<Rightarrow> fh_capacity m | Some slot \<Rightarrow> slot)"

definition fh_count :: "'k hasher \<Rightarrow> ('k, 'v) fhm \<Rightarrow> 'k \<Rightarrow> nat" where
  "fh_count hash m key = (if findSlot hash m key \<noteq> None then 1 else 0)"

definition fh_contains :: "'k hasher \<Rightarrow> ('k, 'v) fhm \<Rightarrow> 'k \<Rightarrow> bool" where
  "fh_contains hash m key \<longleftrightarrow> findSlot hash m key \<noteq> None"

subsection \<open>Insertion\<close>

partial_function (option) insert_loop ::
    "('k, 'v) fhm \<Rightarrow> 'k \<Rightarrow> 'v \<Rightarrow> nat \<Rightarrow> nat \<Rightarrow> nat option \<Rightarrow> (('k, 'v) fhm \<times> nat option) option" where
  "insert_loop m key val slot dist firstInsertSlot =
     (let p = psl m ! slot
      in if p = kEmpty
         then Some (m\<lparr>kv := (kv m)[slot := Some (key, val)], psl := (psl m)[slot := dist],
                      fh_size := fh_size m + 1\<rparr>,
                    if firstInsertSlot = None then Some slot else firstInsertSlot)
         else if p < dist
         then
           let first = (if firstInsertSlot = None then Some slot else firstInsertSlot);
               m' = m\<lparr>kv := (kv m)[slot := Some (key, val)], psl := (psl m)[slot := dist]\<rparr>
           in if p + 1 = kPslMax then Some (m', first)
              else insert_loop m' (fst (the (kv m ! slot))) (snd (the (kv m ! slot))) (slotOf m (slot + 1)) (p + 1) first
         else if dist + 1 = kPslMax then Some (m, firstInsertSlot)
         else insert_loop m key val (slotOf m (slot + 1)) (dist + 1) firstInsertSlot)"

definition insertUnchecked :: "'k hasher \<Rightarrow> 'k \<Rightarrow> 'v \<Rightarrow> ('k, 'v) fhm \<Rightarrow> (('k, 'v) fhm \<times> nat option) option" where
  "insertUnchecked hash key val m = insert_loop m key val (slotOf m (hashOf hash key)) 1 None"

text \<open>Inserting the pairs of the occupied slots of another table, as \<open>rehash\<close> and the copy operations do.\<close>

fun insertAll :: "'k hasher \<Rightarrow> (nat \<times> ('k \<times> 'v) option) list \<Rightarrow> ('k, 'v) fhm \<Rightarrow> ('k, 'v) fhm option" where
  "insertAll hash [] m = Some m"
| "insertAll hash ((p, e) # slots) m =
     (if p \<noteq> kEmpty
      then case insertUnchecked hash (fst (the e)) (snd (the e)) m of
             None \<Rightarrow> None
           | Some (m, _) \<Rightarrow> insertAll hash slots m
      else insertAll hash slots m)"

definition fh_slots :: "('k, 'v) fhm \<Rightarrow> (nat \<times> ('k \<times> 'v) option) list" where
  "fh_slots m = map (\<lambda>i. (psl m ! i, kv m ! i)) [0..<fh_capacity m]"

definition empty_table :: "nat \<Rightarrow> ('k, 'v) fhm" where
  "empty_table n =
     \<lparr>kv = replicate n None, psl = replicate n kEmpty, fh_capacity = n, fh_mask = n - 1, fh_size = 0\<rparr>"

definition rehash :: "'k hasher \<Rightarrow> nat \<Rightarrow> ('k, 'v) fhm \<Rightarrow> ('k, 'v) fhm option" where
  "rehash hash newCapacity m = insertAll hash (fh_slots m) (empty_table newCapacity)"

definition growIfNeeded :: "'k hasher \<Rightarrow> ('k, 'v) fhm \<Rightarrow> ('k, 'v) fhm option" where
  "growIfNeeded hash m =
     (if fh_size m + 1 > (fh_capacity m * 3) div 4
      then rehash hash (if fh_capacity m = 0 then 8 else fh_capacity m * 2) m
      else Some m)"

definition fh_emplace :: "'k hasher \<Rightarrow> 'k \<Rightarrow> 'v \<Rightarrow> ('k, 'v) fhm \<Rightarrow> (('k, 'v) fhm \<times> nat option \<times> bool) option" where
  "fh_emplace hash key val m =
     (case findSlot hash m key of
        Some slot \<Rightarrow> Some (m, Some slot, False)
      | None \<Rightarrow>
          (case growIfNeeded hash m of
             None \<Rightarrow> None
           | Some m \<Rightarrow>
               (case insertUnchecked hash key val m of
                  None \<Rightarrow> None
                | Some (m, slot) \<Rightarrow> Some (m, slot, True))))"

text \<open>\<open>operator[]\<close>: the slot whose value the caller gets a reference to; \<open>dflt\<close> is \<open>Value{}\<close>.\<close>

definition insertOrGet :: "'k hasher \<Rightarrow> 'v \<Rightarrow> 'k \<Rightarrow> ('k, 'v) fhm \<Rightarrow> (('k, 'v) fhm \<times> nat option) option" where
  "insertOrGet hash dflt key m =
     (case findSlot hash m key of
        Some slot \<Rightarrow> Some (m, Some slot)
      | None \<Rightarrow>
          (case growIfNeeded hash m of
             None \<Rightarrow> None
           | Some m \<Rightarrow> insertUnchecked hash key dflt m))"

definition fh_reserve :: "'k hasher \<Rightarrow> nat \<Rightarrow> ('k, 'v) fhm \<Rightarrow> ('k, 'v) fhm option" where
  "fh_reserve hash n m =
     (let needed = wrap64 (n * 4 + 2) div 3
      in if needed > fh_capacity m then rehash hash (unat (nextPow2 (of_nat needed))) m else Some m)"

subsection \<open>Deletion\<close>

text \<open>\<open>destroyPayload\<close> ends the life of the pair in a slot; the counter in front of the table counts the calls
  on a slot where none lives.\<close>

definition destroyPayload :: "nat \<Rightarrow> nat \<times> ('k, 'v) fhm \<Rightarrow> nat \<times> ('k, 'v) fhm" where
  "destroyPayload i = (\<lambda>(dead, m). (if kv m ! i = None then dead + 1 else dead, m\<lparr>kv := (kv m)[i := None]\<rparr>))"

definition kv_moveFrom :: "nat \<Rightarrow> nat \<Rightarrow> nat \<times> ('k, 'v) fhm \<Rightarrow> nat \<times> ('k, 'v) fhm" where
  "kv_moveFrom current next = (\<lambda>(dead, m). (dead, m\<lparr>kv := (kv m)[current := kv m ! next]\<rparr>))"

definition set_psl :: "nat \<Rightarrow> nat \<Rightarrow> nat \<times> ('k, 'v) fhm \<Rightarrow> nat \<times> ('k, 'v) fhm" where
  "set_psl i p = (\<lambda>(dead, m). (dead, m\<lparr>psl := (psl m)[i := p]\<rparr>))"

partial_function (option) backwardShift_loop ::
    "nat \<Rightarrow> nat \<times> ('k, 'v) fhm \<Rightarrow> (nat \<times> ('k, 'v) fhm) option" where
  "backwardShift_loop current s =
     (let next = slotOf (snd s) (current + 1);
          nextPsl = psl (snd s) ! next
      in if nextPsl \<le> 1
         then Some (set_psl current kEmpty (destroyPayload current s))
         else backwardShift_loop next
                (set_psl current (nextPsl - 1)
                   (destroyPayload next (kv_moveFrom current next (destroyPayload current s)))))"

definition backwardShiftErase :: "nat \<Rightarrow> ('k, 'v) fhm \<Rightarrow> (nat \<times> ('k, 'v) fhm) option" where
  "backwardShiftErase slot m = backwardShift_loop slot (0, m)"

definition fh_erase :: "'k hasher \<Rightarrow> 'k \<Rightarrow> ('k, 'v) fhm \<Rightarrow> (nat \<times> ('k, 'v) fhm) option" where
  "fh_erase hash key m =
     (case findSlot hash m key of
        None \<Rightarrow> Some (0, m)
      | Some slot \<Rightarrow>
          (case backwardShiftErase slot m of
             None \<Rightarrow> None
           | Some (_, m) \<Rightarrow> Some (1, m\<lparr>fh_size := fh_size m - 1\<rparr>)))"

subsection \<open>Iteration\<close>

function next_occupied :: "('k, 'v) fhm \<Rightarrow> nat \<Rightarrow> nat" where
  "next_occupied m i = (if i < fh_capacity m \<and> psl m ! i = kEmpty then next_occupied m (i + 1) else i)"
  by pat_completeness auto
termination
  by (relation "measure (\<lambda>(m, i). fh_capacity m - i)") auto

declare next_occupied.simps [simp del]

definition fh_begin :: "('k, 'v) fhm \<Rightarrow> nat" where
  "fh_begin m = next_occupied m 0"

definition fh_end :: "('k, 'v) fhm \<Rightarrow> nat" where
  "fh_end m = fh_capacity m"

definition iterator_next :: "('k, 'v) fhm \<Rightarrow> nat \<Rightarrow> nat" where
  "iterator_next m i = next_occupied m (i + 1)"

definition erase_iterator :: "nat \<Rightarrow> ('k, 'v) fhm \<Rightarrow> (nat \<times> ('k, 'v) fhm) option" where
  "erase_iterator it m =
     (if it = fh_end m then Some (fh_end m, m)
      else case backwardShiftErase it m of
        None \<Rightarrow> None
      | Some (_, m) \<Rightarrow>
          let m = m\<lparr>fh_size := fh_size m - 1\<rparr> in Some (next_occupied m it, m))"

subsection \<open>Clearing, construction and moves\<close>

fun clear_loop :: "nat \<Rightarrow> nat \<times> ('k, 'v) fhm \<Rightarrow> nat \<times> ('k, 'v) fhm" where
  "clear_loop 0 s = s"
| "clear_loop (Suc n) s =
     (let i = fh_capacity (snd s) - Suc n
      in clear_loop n (if psl (snd s) ! i \<noteq> kEmpty then set_psl i kEmpty (destroyPayload i s) else s))"

definition fh_clear :: "('k, 'v) fhm \<Rightarrow> ('k, 'v) fhm" where
  "fh_clear m = (snd (clear_loop (fh_capacity m) (0, m)))\<lparr>fh_size := 0\<rparr>"

definition no_table :: "('k, 'v) fhm" where
  "no_table = \<lparr>kv = [], psl = [], fh_capacity = 0, fh_mask = 0, fh_size = 0\<rparr>"

definition fh_new :: "'k hasher \<Rightarrow> nat \<Rightarrow> ('k, 'v) fhm option" where
  "fh_new hash initialCapacity = rehash hash (unat (nextPow2 (of_nat (max initialCapacity 4)))) no_table"

definition fh_copy_construct :: "'k hasher \<Rightarrow> ('k, 'v) fhm \<Rightarrow> ('k, 'v) fhm option" where
  "fh_copy_construct hash other =
     (if fh_capacity other > 0
      then case rehash hash (fh_capacity other) no_table of
             None \<Rightarrow> None
           | Some m \<Rightarrow> insertAll hash (fh_slots other) m
      else Some no_table)"

definition fh_copy_assign :: "'k hasher \<Rightarrow> ('k, 'v) fhm \<Rightarrow> ('k, 'v) fhm \<Rightarrow> ('k, 'v) fhm option" where
  "fh_copy_assign hash this other =
     (let this = fh_clear this
      in if fh_capacity other > 0
         then case (if fh_capacity this \<noteq> fh_capacity other then rehash hash (fh_capacity other) this else Some this) of
                None \<Rightarrow> None
              | Some m \<Rightarrow> insertAll hash (fh_slots other) m
         else Some no_table)"

definition fh_move :: "('k, 'v) fhm \<Rightarrow> ('k, 'v) fhm \<times> ('k, 'v) fhm" where
  "fh_move other = (other, no_table)"

subsection \<open>The Robin Hood invariant\<close>

definition occupied :: "('k, 'v) fhm \<Rightarrow> nat \<Rightarrow> bool" where
  "occupied m i \<longleftrightarrow> i < fh_capacity m \<and> psl m ! i \<noteq> kEmpty"

definition fh_key :: "('k, 'v) fhm \<Rightarrow> nat \<Rightarrow> 'k" where
  "fh_key m i = fst (the (kv m ! i))"

definition fh_val :: "('k, 'v) fhm \<Rightarrow> nat \<Rightarrow> 'v" where
  "fh_val m i = snd (the (kv m ! i))"

definition entry_at :: "('k, 'v) fhm \<Rightarrow> nat \<Rightarrow> 'k \<times> 'v" where
  "entry_at m i = (fh_key m i, fh_val m i)"

definition fh_entries :: "('k, 'v) fhm \<Rightarrow> ('k \<times> 'v) set" where
  "fh_entries m = entry_at m ` {i. occupied m i}"

definition table_shape :: "('k, 'v) fhm \<Rightarrow> bool" where
  "table_shape m \<longleftrightarrow> length (kv m) = fh_capacity m \<and> length (psl m) = fh_capacity m \<and>
     fh_mask m = fh_capacity m - 1 \<and> (\<exists>j. fh_capacity m = 2 ^ j) \<and> (\<forall>i < fh_capacity m. psl m ! i < kPslMax)"

text \<open>Probe lengths drop by at most one from a slot to the one before it, so that the slots from the home of a
  pair to the pair itself are all at least as far from home as the probe is when it passes them.\<close>

definition psl_chain :: "('k, 'v) fhm \<Rightarrow> bool" where
  "psl_chain m \<longleftrightarrow>
     (\<forall>i < fh_capacity m. psl m ! ((i + 1) mod fh_capacity m) - 1 \<le> psl m ! i)"

definition at_home :: "'k hasher \<Rightarrow> ('k, 'v) fhm \<Rightarrow> nat \<Rightarrow> bool" where
  "at_home hash m i \<longleftrightarrow> (hashOf hash (fh_key m i) + psl m ! i - 1) mod fh_capacity m = i"

definition rh_inv :: "'k hasher \<Rightarrow> ('k, 'v) fhm \<Rightarrow> bool" where
  "rh_inv hash m \<longleftrightarrow> table_shape m \<and> psl_chain m \<and>
     (\<forall>i. occupied m i \<longrightarrow> kv m ! i \<noteq> None \<and> at_home hash m i) \<and> inj_on (fh_key m) {i. occupied m i}"

definition fh_wf :: "'k hasher \<Rightarrow> ('k, 'v) fhm \<Rightarrow> bool" where
  "fh_wf hash m \<longleftrightarrow> rh_inv hash m \<and> fh_size m = card {i. occupied m i}"

lemma and_mask_mod: "h AND (2 ^ j - 1) = h mod 2 ^ j" for h :: nat
  by (simp only: mask_eq_exp_minus_1 [symmetric] take_bit_eq_mask [symmetric] take_bit_eq_mod)

lemma slotOf_mod: "table_shape m \<Longrightarrow> slotOf m h = h mod fh_capacity m"
  using and_mask_mod [of h] by (auto simp: table_shape_def slotOf_def)

lemma capacity_pos: "table_shape m \<Longrightarrow> 0 < fh_capacity m"
  by (auto simp: table_shape_def)

lemma rh_shape: "rh_inv hash m \<Longrightarrow> table_shape m"
  by (simp add: rh_inv_def)

lemma wf_rh: "fh_wf hash m \<Longrightarrow> rh_inv hash m"
  by (simp add: fh_wf_def)

lemma slotOf_step: "table_shape m \<Longrightarrow> slotOf m (i mod fh_capacity m + 1) = (i + 1) mod fh_capacity m"
  by (simp add: slotOf_mod mod_simps)

lemma finite_occupied [simp]: "finite {i. occupied m i}"
  by (rule finite_subset [of _ "{..<fh_capacity m}"]) (auto simp: occupied_def)

lemma chain_back:
  assumes "table_shape m" "psl_chain m" "n < psl m ! ((h + n) mod fh_capacity m)" "j \<le> n"
  shows "j < psl m ! ((h + j) mod fh_capacity m)"
  using assms(4)
proof (induction rule: inc_induct)
  case (step i)
  have "Suc ((h + i) mod fh_capacity m) mod fh_capacity m = (h + Suc i) mod fh_capacity m"
    by (simp add: mod_Suc_eq)
  moreover have "(h + i) mod fh_capacity m < fh_capacity m" using capacity_pos [OF assms(1)] by simp
  ultimately show ?case using assms(2) step.IH unfolding psl_chain_def by force
qed (rule assms(3))

subsection \<open>Lookup finds exactly the pairs in the table\<close>

lemma findSlot_loop_sound:
  "table_shape m \<Longrightarrow> slot < fh_capacity m \<Longrightarrow> findSlot_loop m key slot dist = Some i \<Longrightarrow>
   occupied m i \<and> fh_key m i = key"
proof (induction m key slot dist rule: findSlot_loop.induct)
  case (1 m key slot dist)
  have "slotOf m (slot + 1) < fh_capacity m" using slotOf_mod [OF 1(2)] capacity_pos [OF 1(2)] by simp
  with 1 show ?case
    by (subst (asm) (2) findSlot_loop.simps) (auto simp: Let_def occupied_def fh_key_def split: if_splits)
qed

lemma findSlot_loop_hit:
  assumes "rh_inv hash m" "occupied m i" "fh_key m i = key"
  shows "psl m ! i = dist + n \<Longrightarrow> i = (h + n) mod fh_capacity m \<Longrightarrow>
     \<forall>j \<le> n. dist + j \<le> psl m ! ((h + j) mod fh_capacity m) \<Longrightarrow> 0 < dist \<Longrightarrow>
     findSlot_loop m key (h mod fh_capacity m) dist = Some i"
proof (induction n arbitrary: h dist)
  case 0
  then show ?case using assms by (subst findSlot_loop.simps) (simp add: occupied_def fh_key_def)
next
  case (Suc n)
  let ?s = "h mod fh_capacity m"
  note sh = rh_shape [OF assms(1)]
  have ge: "dist \<le> psl m ! ?s" using Suc.prems(3) [rule_format, of 0] by simp
  have lim: "dist + Suc n < kPslMax" using Suc.prems(1) assms sh by (auto simp: occupied_def table_shape_def)
  have other: "\<not> (psl m ! ?s = dist \<and> fst (the (kv m ! ?s)) = key)"
  proof
    assume *: "psl m ! ?s = dist \<and> fst (the (kv m ! ?s)) = key"
    then have "occupied m ?s" using Suc.prems(4) capacity_pos [OF sh] by (simp add: occupied_def kEmpty_def)
    with * assms have "?s = i" unfolding rh_inv_def inj_on_def fh_key_def by auto
    with * Suc.prems(1) show False by simp
  qed
  have "findSlot_loop m key ((h + 1) mod fh_capacity m) (dist + 1) = Some i"
  proof (rule Suc.IH)
    show "\<forall>j\<le>n. dist + 1 + j \<le> psl m ! ((h + 1 + j) mod fh_capacity m)"
    proof (intro allI impI)
      fix j assume "j \<le> n"
      then show "dist + 1 + j \<le> psl m ! ((h + 1 + j) mod fh_capacity m)"
        using Suc.prems(3) [rule_format, of "Suc j"] by simp
    qed
  qed (use Suc.prems in simp_all)
  then show ?case
    using ge lim other Suc.prems(4) slotOf_step [OF sh, of h]
    by (subst findSlot_loop.simps) (auto simp: Let_def kEmpty_def)
qed

lemma findSlot_iff:
  assumes "rh_inv hash m"
  shows "findSlot hash m key = Some i \<longleftrightarrow> occupied m i \<and> fh_key m i = key"
proof
  note sh = rh_shape [OF assms]
  have s: "slotOf m (hashOf hash key) < fh_capacity m" using slotOf_mod [OF sh] capacity_pos [OF sh] by simp
  show "findSlot hash m key = Some i \<Longrightarrow> occupied m i \<and> fh_key m i = key"
    using findSlot_loop_sound [OF sh s] by (simp add: findSlot_def split: if_splits)
  assume *: "occupied m i \<and> fh_key m i = key"
  define n where "n = psl m ! i - 1"
  have n: "psl m ! i = 1 + n" using * by (simp add: n_def occupied_def kEmpty_def)
  have home: "i = (hashOf hash key + n) mod fh_capacity m"
    using * assms n by (auto simp: rh_inv_def at_home_def)
  have "\<forall>j \<le> n. 1 + j \<le> psl m ! ((hashOf hash key + j) mod fh_capacity m)"
    using chain_back [OF sh, of n "hashOf hash key"] assms n home by (auto simp: rh_inv_def Suc_le_eq)
  from findSlot_loop_hit [OF assms _ _ n home this]
  show "findSlot hash m key = Some i"
    using * capacity_pos [OF sh] slotOf_mod [OF sh] by (simp add: findSlot_def)
qed

definition fh_lookup :: "'k hasher \<Rightarrow> ('k, 'v) fhm \<Rightarrow> 'k \<Rightarrow> 'v option" where
  "fh_lookup hash m key = map_option (fh_val m) (findSlot hash m key)"

lemma fh_lookup_iff:
  assumes "rh_inv hash m"
  shows "fh_lookup hash m key = Some val \<longleftrightarrow> (key, val) \<in> fh_entries m"
  using findSlot_iff [OF assms] by (auto simp: fh_lookup_def fh_entries_def entry_at_def)

lemma findSlot_None_iff:
  assumes "rh_inv hash m"
  shows "findSlot hash m key = None \<longleftrightarrow> key \<notin> fst ` fh_entries m"
  by (auto simp: findSlot_iff [OF assms] fh_entries_def entry_at_def image_image simp flip: not_Some_eq)

subsection \<open>Insertion\<close>

definition put_slot :: "nat \<Rightarrow> 'k \<times> 'v \<Rightarrow> nat \<Rightarrow> ('k, 'v) fhm \<Rightarrow> ('k, 'v) fhm" where
  "put_slot s e p m = m\<lparr>kv := (kv m)[s := Some e], psl := (psl m)[s := p]\<rparr>"

definition behind :: "('k, 'v) fhm \<Rightarrow> nat \<Rightarrow> nat \<Rightarrow> bool" where
  "behind m s p \<longleftrightarrow> (\<forall>x < fh_capacity m. (x + 1) mod fh_capacity m = s \<longrightarrow> p - 1 \<le> psl m ! x)"

lemma put_slot_simps [simp]:
  "fh_capacity (put_slot s e p m) = fh_capacity m" "fh_size (put_slot s e p m) = fh_size m"
  "fh_mask (put_slot s e p m) = fh_mask m"
  by (simp_all add: put_slot_def)

lemma put_slot_same:
  assumes "table_shape m" "s < fh_capacity m"
  shows "kv (put_slot s e p m) ! s = Some e" "psl (put_slot s e p m) ! s = p"
  using assms by (simp_all add: put_slot_def table_shape_def)

lemma put_slot_other:
  assumes "i \<noteq> s"
  shows "kv (put_slot s e p m) ! i = kv m ! i" "psl (put_slot s e p m) ! i = psl m ! i"
  using assms by (simp_all add: put_slot_def)

lemma succ_mod_inj: "x < c \<Longrightarrow> s < c \<Longrightarrow> (x + 1) mod c = (s + 1) mod c \<Longrightarrow> x = (s :: nat)"
  by (cases "x + 1 = c"; cases "s + 1 = c") auto

lemma ahead_neq: "s < c \<Longrightarrow> 0 < n \<Longrightarrow> n < c \<Longrightarrow> (s + n) mod c \<noteq> (s :: nat)"
  by (cases "s + n < c") (auto simp: mod_if)

lemma put_slot_ok:
  assumes inv: "rh_inv hash m" and s: "s < fh_capacity m" and p: "0 < p" "p < kPslMax"
    and home: "(hashOf hash k + p - 1) mod fh_capacity m = s" and rich: "psl m ! s < p"
    and prev: "behind m s p" and fresh: "k \<notin> fh_key m ` ({i. occupied m i} - {s})"
  shows "rh_inv hash (put_slot s (k, v) p m)"
    "{i. occupied (put_slot s (k, v) p m) i} = insert s {i. occupied m i}"
    "fh_entries (put_slot s (k, v) p m) = insert (k, v) (fh_entries m - (if occupied m s then {entry_at m s} else {}))"
proof -
  let ?m = "put_slot s (k, v) p m"
  note sh = rh_shape [OF inv]
  note same = put_slot_same [OF sh s, of "(k, v)" p]
  note other = put_slot_other [of _ s "(k, v)" p m]
  have occ: "occupied ?m i \<longleftrightarrow> i = s \<or> occupied m i" for i
    using s p same(2) other(2) [of i] by (cases "i = s") (auto simp: occupied_def kEmpty_def)
  then show occs: "{i. occupied ?m i} = insert s {i. occupied m i}" by auto
  have key: "fh_key ?m i = (if i = s then k else fh_key m i)" "entry_at ?m i = (if i = s then (k, v) else entry_at m i)" for i
    using same(1) other(1) [of i] by (simp_all add: fh_key_def entry_at_def fh_val_def)
  have "table_shape ?m"
    using sh p same(2) other(2) s unfolding table_shape_def
    by (auto simp: put_slot_def nth_list_update)
  moreover have "psl_chain ?m"
    unfolding psl_chain_def put_slot_simps
  proof (intro allI impI)
    fix i assume i: "i < fh_capacity m"
    let ?n = "(i + 1) mod fh_capacity m"
    have old: "psl m ! ?n - 1 \<le> psl m ! i" using inv i by (simp add: rh_inv_def psl_chain_def)
    consider "?n = s" "i = s" | "?n = s" "i \<noteq> s" | "?n \<noteq> s" "i = s" | "?n \<noteq> s" "i \<noteq> s" by blast
    then show "psl ?m ! ?n - 1 \<le> psl ?m ! i"
    proof cases
      case 2 with prev i same other(2) show ?thesis by (simp add: behind_def)
    next
      case 3 with old rich same other(2) [of ?n] show ?thesis by simp
    qed (use old same other(2) in simp_all)
  qed
  moreover have "kv ?m ! i \<noteq> None \<and> at_home hash ?m i" if "occupied ?m i" for i
  proof (cases "i = s")
    case True then show ?thesis using same home key by (simp add: at_home_def)
  next
    case False
    then have "occupied m i" using that occ by simp
    with False inv other [OF False] key show ?thesis by (simp add: rh_inv_def at_home_def)
  qed
  moreover have "inj_on (fh_key ?m) {i. occupied ?m i}"
  proof (rule inj_onI)
    fix i j assume "i \<in> {i. occupied ?m i}" "j \<in> {i. occupied ?m i}" "fh_key ?m i = fh_key ?m j"
    moreover have "inj_on (fh_key m) {i. occupied m i}" using inv by (simp add: rh_inv_def)
    ultimately show "i = j" using fresh key(1) by (auto simp: occ inj_on_def split: if_splits)
  qed
  ultimately show "rh_inv hash ?m" by (simp add: rh_inv_def)
  have "inj_on (entry_at m) {i. occupied m i}"
    using inv by (auto simp: rh_inv_def inj_on_def entry_at_def)
  then have "entry_at m ` ({i. occupied m i} - {s}) = fh_entries m - (if occupied m s then {entry_at m s} else {})"
    unfolding fh_entries_def inj_on_def by auto
  moreover have "fh_entries ?m = insert (k, v) (entry_at m ` ({i. occupied m i} - {s}))"
    unfolding fh_entries_def occs using key(2) by auto
  ultimately show "fh_entries ?m = insert (k, v) (fh_entries m - (if occupied m s then {entry_at m s} else {}))"
    by simp
qed

text \<open>What one insertion does: a pair is added and counted, or, when a probe reaches the limit of 255, one of the
  pairs is dropped and the size stays.\<close>

definition inserted :: "'k hasher \<Rightarrow> 'k \<Rightarrow> 'v \<Rightarrow> ('k, 'v) fhm \<Rightarrow> ('k, 'v) fhm \<Rightarrow> bool" where
  "inserted hash k v m m' \<longleftrightarrow> rh_inv hash m' \<and> fh_capacity m' = fh_capacity m \<and>
     (fh_size m' = fh_size m + 1 \<and> card {i. occupied m' i} = card {i. occupied m i} + 1 \<and>
        fh_entries m' = insert (k, v) (fh_entries m) \<or>
      fh_size m' = fh_size m \<and> card {i. occupied m' i} = card {i. occupied m i} \<and>
        (\<exists>lost \<in> insert (k, v) (fh_entries m). fh_entries m' = insert (k, v) (fh_entries m) - {lost}))"

lemma occupied_nth: "s < fh_capacity m \<Longrightarrow> occupied m s \<longleftrightarrow> psl m ! s \<noteq> kEmpty"
  by (simp add: occupied_def)

lemma fresh_entry: "k \<notin> fh_key m ` {i. occupied m i} \<Longrightarrow> (k, v) \<notin> fh_entries m"
  by (auto simp: fh_entries_def entry_at_def)

lemma inserted_place:
  assumes "rh_inv hash m" "slot < fh_capacity m" "0 < dist" "dist < kPslMax"
    "(hashOf hash k + dist - 1) mod fh_capacity m = slot" "behind m slot dist" "k \<notin> fh_key m ` {i. occupied m i}"
    "psl m ! slot = kEmpty"
  shows "inserted hash k v m ((put_slot slot (k, v) dist m)\<lparr>fh_size := fh_size m + 1\<rparr>)"
proof -
  let ?m = "put_slot slot (k, v) dist m"
  have free: "\<not> occupied m slot" using assms(8) by (simp add: occupied_def)
  note put = put_slot_ok [OF assms(1-5) _ assms(6), of v]
  have "fh_entries ?m = insert (k, v) (fh_entries m)" "{i. occupied ?m i} = insert slot {i. occupied m i}" "rh_inv hash ?m"
    using put assms(3,7,8) free by (auto simp: kEmpty_def)
  moreover have "occupied (?m\<lparr>fh_size := n\<rparr>) = occupied ?m" "entry_at (?m\<lparr>fh_size := n\<rparr>) = entry_at ?m" for n
    by (simp_all add: fun_eq_iff occupied_def entry_at_def fh_key_def fh_val_def)
  moreover have "rh_inv hash (?m\<lparr>fh_size := n\<rparr>) = rh_inv hash ?m" for n
    by (simp add: rh_inv_def table_shape_def psl_chain_def at_home_def occupied_def fh_key_def inj_on_def)
  ultimately show ?thesis using free by (simp add: inserted_def fh_entries_def)
qed

lemma inserted_swap:
  assumes m1: "rh_inv hash (put_slot s (k, v) p m)" "{i. occupied (put_slot s (k, v) p m) i} = {i. occupied m i}"
      "fh_entries (put_slot s (k, v) p m) = insert (k, v) (fh_entries m - {(k2, v2)})"
    and old: "(k2, v2) \<in> fh_entries m" and fresh: "(k, v) \<notin> fh_entries m"
  shows "inserted hash k v m (put_slot s (k, v) p m)"
    "inserted hash k2 v2 (put_slot s (k, v) p m) m' \<Longrightarrow> inserted hash k v m m'"
proof -
  have neq: "(k, v) \<noteq> (k2, v2)" using old fresh by auto
  have "fh_entries (put_slot s (k, v) p m) = insert (k, v) (fh_entries m) - {(k2, v2)}" using m1(3) neq by auto
  with m1 old show "inserted hash k v m (put_slot s (k, v) p m)" by (auto simp: inserted_def)
  have eq: "insert (k2, v2) (fh_entries (put_slot s (k, v) p m)) = insert (k, v) (fh_entries m)" using m1(3) old by auto
  show "inserted hash k2 v2 (put_slot s (k, v) p m) m' \<Longrightarrow> inserted hash k v m m'"
    unfolding inserted_def eq m1(2) put_slot_simps .
qed

lemma behind_next:
  assumes "s < fh_capacity m" "p - 1 \<le> psl m ! s"
  shows "behind m ((s + 1) mod fh_capacity m) p"
  unfolding behind_def using assms succ_mod_inj by blast

definition kept_outside :: "nat \<Rightarrow> nat \<Rightarrow> ('k, 'v) fhm \<Rightarrow> ('k, 'v) fhm \<Rightarrow> bool" where
  "kept_outside slot d m m' \<longleftrightarrow>
     (\<forall>i. (\<forall>j \<le> d. i \<noteq> (slot + j) mod fh_capacity m) \<longrightarrow> kv m' ! i = kv m ! i \<and> psl m' ! i = psl m ! i)"

lemma kept_outside_step:
  assumes "slot < fh_capacity m" "fh_capacity m1 = fh_capacity m"
    and "kept_outside ((slot + 1) mod fh_capacity m) d m1 m'"
    and "\<And>i. i \<noteq> slot \<Longrightarrow> kv m1 ! i = kv m ! i \<and> psl m1 ! i = psl m ! i"
  shows "kept_outside slot (Suc d) m m'"
  unfolding kept_outside_def
proof (intro allI impI)
  fix i assume i: "\<forall>j \<le> Suc d. i \<noteq> (slot + j) mod fh_capacity m"
  have "i \<noteq> slot" using i [rule_format, of 0] assms(1) by simp
  moreover have "\<forall>j \<le> d. i \<noteq> ((slot + 1) mod fh_capacity m + j) mod fh_capacity m"
    using i by (auto simp: mod_simps dest: spec [of _ "Suc _"])
  ultimately show "kv m' ! i = kv m ! i \<and> psl m' ! i = psl m ! i"
    using assms(2-4) unfolding kept_outside_def by metis
qed

lemma home_next:
  assumes "0 < (dist :: nat)" "(h + dist - 1) mod c = slot"
  shows "(h + (dist + 1) - 1) mod c = (slot + 1) mod c"
  using assms by (auto simp: mod_Suc_eq gr0_conv_Suc)

text \<open>The state of the loop when \<open>d\<close> occupied slots are ahead before the first empty one, and how it ends.\<close>

definition insert_pre :: "'k hasher \<Rightarrow> 'k \<Rightarrow> nat \<Rightarrow> nat \<Rightarrow> nat \<Rightarrow> ('k, 'v) fhm \<Rightarrow> bool" where
  "insert_pre hash k slot dist d m \<longleftrightarrow>
     rh_inv hash m \<and> slot < fh_capacity m \<and> 0 < dist \<and> dist < kPslMax \<and>
     (hashOf hash k + dist - 1) mod fh_capacity m = slot \<and> behind m slot dist \<and> k \<notin> fh_key m ` {i. occupied m i} \<and>
     psl m ! ((slot + d) mod fh_capacity m) = kEmpty \<and>
     (\<forall>j < d. psl m ! ((slot + j) mod fh_capacity m) \<noteq> kEmpty) \<and> d < fh_capacity m"

definition insert_post :: "'k hasher \<Rightarrow> 'k \<Rightarrow> 'v \<Rightarrow> nat \<Rightarrow> nat \<Rightarrow> nat \<Rightarrow> nat option \<Rightarrow> ('k, 'v) fhm \<Rightarrow>
    ('k, 'v) fhm \<times> nat option \<Rightarrow> bool" where
  "insert_post hash k v slot dist d fi m = (\<lambda>(m', f).
     inserted hash k v m m' \<and> kept_outside slot d m m' \<and>
     (dist + d < kPslMax \<longrightarrow> fh_size m' = fh_size m + 1) \<and>
     (fh_size m' = fh_size m + 1 \<longrightarrow>
        (if fi = None then \<exists>s. f = Some s \<and> occupied m' s \<and> entry_at m' s = (k, v) else f = fi)))"

lemma insert_loop_place:
  assumes "insert_pre hash k slot dist 0 m"
  shows "\<exists>r. insert_loop m k v slot dist fi = Some r \<and> insert_post hash k v slot dist 0 fi m r"
proof -
  let ?m = "(put_slot slot (k, v) dist m)\<lparr>fh_size := fh_size m + 1\<rparr>"
  have pre: "rh_inv hash m" "slot < fh_capacity m" "0 < dist" "dist < kPslMax"
      "(hashOf hash k + dist - 1) mod fh_capacity m = slot" "behind m slot dist" "k \<notin> fh_key m ` {i. occupied m i}"
    using assms by (simp_all add: insert_pre_def)
  have e: "psl m ! slot = kEmpty" using assms pre(2) by (simp add: insert_pre_def)
  have "insert_loop m k v slot dist fi = Some (?m, if fi = None then Some slot else fi)"
    using e by (subst insert_loop.simps) (simp add: put_slot_def)
  moreover have "occupied ?m slot" "entry_at ?m slot = (k, v)"
    using put_slot_same [OF rh_shape [OF pre(1)] pre(2), of "(k, v)" dist] pre(2,3)
    by (simp_all add: occupied_def entry_at_def fh_key_def fh_val_def kEmpty_def)
  moreover have "kept_outside slot 0 m ?m"
    using pre(2) by (simp add: kept_outside_def put_slot_def)
  ultimately show ?thesis using inserted_place [OF pre e, of v] by (simp add: insert_post_def)
qed

lemma insert_ahead:
  assumes "insert_pre hash k slot dist (Suc d) m"
  defines "next \<equiv> (slot + 1) mod fh_capacity m"
  shows "psl m ! ((next + d) mod fh_capacity m) = kEmpty"
    "\<forall>j < d. psl m ! ((next + j) mod fh_capacity m) \<noteq> kEmpty" "d < fh_capacity m" "next < fh_capacity m"
    "\<And>j. j \<le> d \<Longrightarrow> (next + j) mod fh_capacity m \<noteq> slot" "slotOf m (slot + 1) = next"
    "psl m ! slot \<noteq> kEmpty" "occupied m slot"
proof -
  have pre: "table_shape m" "slot < fh_capacity m" "psl m ! ((slot + Suc d) mod fh_capacity m) = kEmpty"
      "\<forall>j < Suc d. psl m ! ((slot + j) mod fh_capacity m) \<noteq> kEmpty" "Suc d < fh_capacity m"
    using assms(1) by (simp_all add: insert_pre_def rh_inv_def)
  show "psl m ! ((next + d) mod fh_capacity m) = kEmpty" "d < fh_capacity m" "next < fh_capacity m"
    using pre(3,5) by (simp_all add: next_def mod_simps)
  show "\<forall>j < d. psl m ! ((next + j) mod fh_capacity m) \<noteq> kEmpty"
    using pre(4) by (auto simp: next_def mod_simps dest: spec [of _ "Suc _"])
  show "(next + j) mod fh_capacity m \<noteq> slot" if "j \<le> d" for j
    using ahead_neq [OF pre(2), of "Suc j"] that pre(5) by (simp add: next_def mod_simps)
  show "slotOf m (slot + 1) = next" using slotOf_mod [OF pre(1)] by (simp add: next_def)
  show "psl m ! slot \<noteq> kEmpty" "occupied m slot"
    using pre(4) [rule_format, of 0] pre(2) by (simp_all add: occupied_def)
qed

lemma insert_loop_pass:
  assumes pre: "insert_pre hash k slot dist (Suc d) m" and rich: "\<not> psl m ! slot < dist" and lim: "dist + 1 \<noteq> kPslMax"
  defines "next \<equiv> (slot + 1) mod fh_capacity m"
  shows "insert_loop m k v slot dist fi = insert_loop m k v next (dist + 1) fi"
    "insert_pre hash k next (dist + 1) d m"
    "insert_post hash k v next (dist + 1) d fi m r \<Longrightarrow> insert_post hash k v slot dist (Suc d) fi m r"
proof -
  note ahead = insert_ahead [OF pre, folded next_def]
  show "insert_loop m k v slot dist fi = insert_loop m k v next (dist + 1) fi"
    using ahead rich lim by (subst insert_loop.simps) (simp add: Let_def)
  have p: "slot < fh_capacity m" "0 < dist" "dist < kPslMax" "(hashOf hash k + dist - 1) mod fh_capacity m = slot"
    using pre by (simp_all add: insert_pre_def)
  have "(hashOf hash k + (dist + 1) - 1) mod fh_capacity m = next"
    unfolding next_def by (rule home_next [OF p(2,4)])
  moreover have "behind m next (dist + 1)"
    using behind_next [OF p(1), of "dist + 1"] rich by (simp add: next_def)
  ultimately show "insert_pre hash k next (dist + 1) d m"
    using pre ahead lim p(3) by (simp add: insert_pre_def)
  show "insert_post hash k v next (dist + 1) d fi m r \<Longrightarrow> insert_post hash k v slot dist (Suc d) fi m r"
    using kept_outside_step [OF p(1) refl, of d] by (auto simp: insert_post_def next_def split: prod.splits)
qed

lemma insert_swap_fresh:
  assumes "rh_inv hash m" "occupied m slot" "k \<notin> fh_key m ` {i. occupied m i}"
    "{i. occupied (put_slot slot (k, v) dist m) i} = {i. occupied m i}"
  shows "fh_key m slot \<notin> fh_key (put_slot slot (k, v) dist m) ` {i. occupied (put_slot slot (k, v) dist m) i}"
proof
  let ?m = "put_slot slot (k, v) dist m"
  assume "fh_key m slot \<in> fh_key ?m ` {i. occupied ?m i}"
  then obtain i where i: "occupied m i" "fh_key m slot = fh_key ?m i" unfolding assms(4) by blast
  show False
  proof (cases "i = slot")
    case True
    have "slot < fh_capacity m" using assms(2) by (simp add: occupied_def)
    with True i(2) put_slot_same(1) [OF rh_shape [OF assms(1)], of slot "(k, v)" dist] have "fh_key m slot = k"
      by (simp add: fh_key_def)
    with assms(2,3) show False by blast
  next
    case False
    with i put_slot_other(1) [OF False, of "(k, v)" dist m] have "fh_key m slot = fh_key m i" by (simp add: fh_key_def)
    with i(1) assms(1,2) False show False by (auto simp: rh_inv_def inj_on_def)
  qed
qed

lemma insert_loop_swap:
  fixes m :: "('k, 'v) fhm" and v :: 'v and fi :: "nat option"
  assumes pre: "insert_pre hash k slot dist (Suc d) m" and rich: "psl m ! slot < dist"
  defines "next \<equiv> (slot + 1) mod fh_capacity m" and "m1 \<equiv> put_slot slot (k, v) dist m"
    and "f1 \<equiv> if fi = None then Some slot else fi"
  shows "insert_loop m k v slot dist fi = insert_loop m1 (fh_key m slot) (fh_val m slot) next (psl m ! slot + 1) f1"
    "insert_pre hash (fh_key m slot) next (psl m ! slot + 1) d m1"
    "insert_post hash (fh_key m slot) (fh_val m slot) next (psl m ! slot + 1) d f1 m1 r \<Longrightarrow>
     insert_post hash k v slot dist (Suc d) fi m r"
proof -
  let ?p = "psl m ! slot"
  note ahead = insert_ahead [OF pre, folded next_def]
  have p: "rh_inv hash m" "slot < fh_capacity m" "0 < dist" "dist < kPslMax"
      "(hashOf hash k + dist - 1) mod fh_capacity m = slot" "behind m slot dist" "k \<notin> fh_key m ` {i. occupied m i}"
    using pre by (simp_all add: insert_pre_def)
  note same = put_slot_same [OF rh_shape [OF p(1)] p(2), of "(k, v)" dist, folded m1_def]
  have "k \<notin> fh_key m ` ({i. occupied m i} - {slot})" using p(7) by auto
  note put = put_slot_ok [OF p(1-5) rich p(6) this, of v, folded m1_def]
  have occ1: "{i. occupied m1 i} = {i. occupied m i}" and inv1: "rh_inv hash m1"
    and ent1: "fh_entries m1 = insert (k, v) (fh_entries m - {(fh_key m slot, fh_val m slot)})"
    using put ahead(8) by (simp_all add: entry_at_def insert_absorb)
  have "(fh_key m slot, fh_val m slot) \<in> fh_entries m"
    using ahead(8) by (force simp: fh_entries_def entry_at_def)
  note swap = inserted_swap [OF inv1 [unfolded m1_def] occ1 [unfolded m1_def] ent1 [unfolded m1_def] this
      fresh_entry [OF p(7)], folded m1_def]
  have lim: "?p + 1 < kPslMax" using rich p(4) by simp
  then show "insert_loop m k v slot dist fi = insert_loop m1 (fh_key m slot) (fh_val m slot) next (?p + 1) f1"
    using ahead rich
    by (subst insert_loop.simps) (simp add: Let_def put_slot_def m1_def f1_def fh_key_def fh_val_def)
  have "(hashOf hash (fh_key m slot) + (?p + 1) - 1) mod fh_capacity m = next"
    unfolding next_def using p(1) ahead(7,8)
    by (intro home_next) (auto simp: kEmpty_def rh_inv_def at_home_def)
  moreover have "behind m1 next (?p + 1)"
    using behind_next [of slot m1 "?p + 1"] p(2) rich same by (simp add: next_def m1_def)
  moreover have "fh_key m slot \<notin> fh_key m1 ` {i. occupied m1 i}"
    using insert_swap_fresh [OF p(1) ahead(8) p(7)] occ1 unfolding m1_def by blast
  ultimately show "insert_pre hash (fh_key m slot) next (?p + 1) d m1"
    using inv1 lim ahead(1-5) by (simp add: insert_pre_def m1_def put_slot_other)
  assume post: "insert_post hash (fh_key m slot) (fh_val m slot) next (?p + 1) d f1 m1 r"
  obtain m' f where r: "r = (m', f)" by (cases r)
  have kept: "kept_outside slot (Suc d) m m'"
    using kept_outside_step [OF p(2), of m1 d m'] post by (simp add: r insert_post_def next_def m1_def put_slot_other)
  have ins: "inserted hash k v m m'" using post swap(2) [of m'] by (simp add: r insert_post_def)
  then have caps: "fh_capacity m' = fh_capacity m" by (simp add: inserted_def)
  have "kv m' ! slot = Some (k, v) \<and> psl m' ! slot = dist"
  proof -
    have "\<forall>j \<le> d. slot \<noteq> (next + j) mod fh_capacity m1" using ahead(5) [THEN not_sym] by (simp add: m1_def)
    moreover have "kept_outside next d m1 m'" using post by (simp add: r insert_post_def)
    ultimately show ?thesis using same unfolding kept_outside_def by simp
  qed
  then have "occupied m' slot" "entry_at m' slot = (k, v)"
    using caps p(2,3) by (simp_all add: occupied_def kEmpty_def entry_at_def fh_key_def fh_val_def)
  then show "insert_post hash k v slot dist (Suc d) fi m r"
    using kept ins post rich by (simp add: r insert_post_def m1_def f1_def split: if_splits)
qed

lemma insert_loop_ok:
  "insert_pre hash k slot dist d m \<Longrightarrow>
   \<exists>r. insert_loop m k v slot dist fi = Some r \<and> insert_post hash k v slot dist d fi m r"
proof (induction d arbitrary: m k v slot dist fi)
  case 0
  then show ?case by (rule insert_loop_place)
next
  case (Suc d)
  consider "psl m ! slot < dist" | "\<not> psl m ! slot < dist" "dist + 1 \<noteq> kPslMax"
    | "\<not> psl m ! slot < dist" "dist + 1 = kPslMax" by blast
  then show ?case
  proof cases
    case 1
    from insert_loop_swap [OF Suc.prems 1] Suc.IH show ?thesis by metis
  next
    case 2
    from insert_loop_pass [OF Suc.prems 2] Suc.IH show ?thesis by metis
  next
    case 3
    then have "insert_loop m k v slot dist fi = Some (m, fi)"
      using insert_ahead(7) [OF Suc.prems] by (subst insert_loop.simps) (simp add: Let_def)
    moreover have "rh_inv hash m" "k \<notin> fh_key m ` {i. occupied m i}" using Suc.prems by (simp_all add: insert_pre_def)
    then have "inserted hash k v m m" using fresh_entry [of k m v] by (auto simp: inserted_def)
    ultimately show ?thesis using 3 by (simp add: insert_post_def kept_outside_def)
  qed
qed

lemma first_ahead:
  assumes "slot < (c :: nat)" "i < c" "P i"
  shows "\<exists>d < c. P ((slot + d) mod c) \<and> (\<forall>j < d. \<not> P ((slot + j) mod c))"
proof -
  define e where "e = (if slot \<le> i then i - slot else i + c - slot)"
  have e: "(slot + e) mod c = i" "e < c" using assms by (auto simp: e_def)
  let ?d = "LEAST d. P ((slot + d) mod c)"
  have "P ((slot + ?d) mod c)" using e assms(3) by (intro LeastI [of "\<lambda>d. P ((slot + d) mod c)" e]) simp
  moreover have "?d \<le> e" using e assms(3) by (intro Least_le) simp
  moreover have "\<forall>j < ?d. \<not> P ((slot + j) mod c)" using not_less_Least by blast
  ultimately show ?thesis using e(2) by (intro exI [of _ ?d]) simp
qed

lemma empty_slot_exists:
  assumes "card {i. occupied m i} < fh_capacity m"
  shows "\<exists>i < fh_capacity m. psl m ! i = kEmpty"
proof (rule ccontr)
  assume "\<not> ?thesis"
  then have "{i. occupied m i} = {..<fh_capacity m}" by (auto simp: occupied_def)
  with assms show False by simp
qed

lemma entries_keys: "fst ` fh_entries m = fh_key m ` {i. occupied m i}"
  by (auto simp: fh_entries_def entry_at_def image_image)

lemma inserted_wf: "inserted hash k v m m' \<Longrightarrow> fh_wf hash m \<Longrightarrow> fh_wf hash m'"
  unfolding inserted_def fh_wf_def by (elim conjE disjE) simp_all

lemma insertedD:
  assumes "inserted hash k v m m'"
  shows "fh_capacity m' = fh_capacity m" "fh_entries m' \<subseteq> insert (k, v) (fh_entries m)" "fh_size m' \<le> fh_size m + 1"
    "fh_size m' = fh_size m + 1 \<Longrightarrow> fh_entries m' = insert (k, v) (fh_entries m)"
proof -
  note i = assms [unfolded inserted_def, THEN conjunct2]
  show "fh_capacity m' = fh_capacity m" using i by blast
  show "fh_entries m' \<subseteq> insert (k, v) (fh_entries m)" using i by blast
  show "fh_size m' \<le> fh_size m + 1" using i by linarith
  show "fh_size m' = fh_size m + 1 \<Longrightarrow> fh_entries m' = insert (k, v) (fh_entries m)" using i by linarith
qed

lemma insertUnchecked_ok:
  assumes wf: "fh_wf hash m" and room: "fh_size m < fh_capacity m" and fresh: "k \<notin> fst ` fh_entries m"
  shows "\<exists>m' f. insertUnchecked hash k v m = Some (m', f) \<and> fh_wf hash m' \<and> inserted hash k v m m' \<and>
    (fh_capacity m < kPslMax \<longrightarrow> fh_size m' = fh_size m + 1) \<and>
    (fh_size m' = fh_size m + 1 \<longrightarrow> (\<exists>s. f = Some s \<and> occupied m' s \<and> entry_at m' s = (k, v)))"
proof -
  let ?s = "slotOf m (hashOf hash k)"
  note sh = rh_shape [OF wf_rh [OF wf]]
  have s: "?s < fh_capacity m" using slotOf_mod [OF sh] capacity_pos [OF sh] by simp
  obtain i where "i < fh_capacity m" "psl m ! i = kEmpty"
    using empty_slot_exists [of m] wf room by (auto simp: fh_wf_def)
  then obtain d where d: "d < fh_capacity m" "psl m ! ((?s + d) mod fh_capacity m) = kEmpty"
      "\<forall>j < d. psl m ! ((?s + j) mod fh_capacity m) \<noteq> kEmpty"
    using first_ahead [OF s, of i "\<lambda>i. psl m ! i = kEmpty"] by blast
  have "insert_pre hash k ?s 1 d m"
    using wf_rh [OF wf] s d fresh slotOf_mod [OF sh]
    by (simp add: insert_pre_def behind_def kPslMax_def entries_keys)
  from insert_loop_ok [OF this, of v None] obtain m' f where
    r: "insert_loop m k v ?s 1 None = Some (m', f)" "insert_post hash k v ?s 1 d None m (m', f)" by auto
  then have "inserted hash k v m m'" by (simp add: insert_post_def)
  from inserted_wf [OF this wf] r d(1) show ?thesis by (simp add: insert_post_def insertUnchecked_def)
qed

subsection \<open>Rebuilding a table\<close>

definition slot_pairs :: "(nat \<times> ('k \<times> 'v) option) list \<Rightarrow> ('k \<times> 'v) list" where
  "slot_pairs slots = map (\<lambda>(p, e). the e) (filter (\<lambda>(p, e). p \<noteq> kEmpty) slots)"

text \<open>What inserting a list of pairs does: no pair but those is added, and when the size shows that none was
  dropped, all are there.\<close>

definition merged :: "'k hasher \<Rightarrow> ('k \<times> 'v) list \<Rightarrow> ('k, 'v) fhm \<Rightarrow> ('k, 'v) fhm \<Rightarrow> bool" where
  "merged hash ps m m' \<longleftrightarrow> fh_wf hash m' \<and> fh_capacity m' = fh_capacity m \<and>
     fh_size m' \<le> fh_size m + length ps \<and> fh_entries m' \<subseteq> fh_entries m \<union> set ps \<and>
     (fh_size m' = fh_size m + length ps \<longrightarrow> fh_entries m' = fh_entries m \<union> set ps) \<and>
     (fh_capacity m < kPslMax \<longrightarrow> fh_size m' = fh_size m + length ps)"

lemma merged_Cons:
  assumes "inserted hash k v m m1" "fh_capacity m < kPslMax \<longrightarrow> fh_size m1 = fh_size m + 1" "merged hash ps m1 m'"
  shows "merged hash ((k, v) # ps) m m'"
proof -
  note i = insertedD [OF assms(1)]
  have g: "fh_wf hash m'" "fh_capacity m' = fh_capacity m1" "fh_size m' \<le> fh_size m1 + length ps"
      "fh_entries m' \<subseteq> fh_entries m1 \<union> set ps"
      "fh_size m' = fh_size m1 + length ps \<Longrightarrow> fh_entries m' = fh_entries m1 \<union> set ps"
      "fh_capacity m1 < kPslMax \<Longrightarrow> fh_size m' = fh_size m1 + length ps"
    using assms(3) by (simp_all add: merged_def)
  have "fh_entries m' = fh_entries m \<union> set ((k, v) # ps)" if "fh_size m' = fh_size m + length ((k, v) # ps)"
  proof -
    have "fh_size m1 = fh_size m + 1" "fh_size m' = fh_size m1 + length ps" using that i(3) g(3) by simp_all
    then show ?thesis using i(4) g(5) by auto
  qed
  moreover have "fh_entries m' \<subseteq> fh_entries m \<union> set ((k, v) # ps)" using g(4) i(2) by auto
  ultimately show ?thesis using i g assms(2) by (simp add: merged_def)
qed

lemma insertAll_ok:
  assumes "fh_wf hash m" "distinct (map fst (slot_pairs slots))" "fst ` set (slot_pairs slots) \<inter> fst ` fh_entries m = {}"
    "fh_size m + length (slot_pairs slots) < fh_capacity m"
  shows "\<exists>m'. insertAll hash slots m = Some m' \<and> merged hash (slot_pairs slots) m m'"
  using assms
proof (induction slots arbitrary: m)
  case Nil
  then show ?case by (simp add: merged_def slot_pairs_def)
next
  case (Cons pe slots)
  obtain p e where pe: "pe = (p, e)" by (cases pe)
  show ?case
  proof (cases "p = kEmpty")
    case True
    then have "slot_pairs (pe # slots) = slot_pairs slots" by (simp add: pe slot_pairs_def)
    with Cons True show ?thesis by (simp add: pe)
  next
    case False
    obtain k v where kv: "the e = (k, v)" by (cases "the e")
    have ps: "slot_pairs (pe # slots) = (k, v) # slot_pairs slots" using False by (simp add: pe slot_pairs_def kv)
    note prems = Cons.prems [unfolded ps]
    from insertUnchecked_ok [OF prems(1), of k v] prems(3,4) obtain m1 f where
      r: "insertUnchecked hash k v m = Some (m1, f)" "fh_wf hash m1" "inserted hash k v m m1"
        "fh_capacity m < kPslMax \<longrightarrow> fh_size m1 = fh_size m + 1" by auto
    note i = insertedD [OF r(3)]
    have "fst ` fh_entries m1 \<subseteq> insert k (fst ` fh_entries m)" using i(2) by force
    moreover have "k \<notin> fst ` set (slot_pairs slots)" "fst ` set (slot_pairs slots) \<inter> fst ` fh_entries m = {}"
      using prems(2,3) by simp_all
    ultimately have "fst ` set (slot_pairs slots) \<inter> fst ` fh_entries m1 = {}" by blast
    with Cons.IH [OF r(2)] prems(2,4) i(1,3) obtain m' where
      "insertAll hash slots m1 = Some m'" "merged hash (slot_pairs slots) m1 m'" by auto
    with merged_Cons [OF r(3,4)] r(1) False show ?thesis
      unfolding ps by (simp add: pe kv)
  qed
qed

lemma slot_pairs_table:
  assumes "rh_inv hash m"
  shows "set (slot_pairs (fh_slots m)) = fh_entries m" "length (slot_pairs (fh_slots m)) = card {i. occupied m i}"
    "distinct (map fst (slot_pairs (fh_slots m)))"
proof -
  let ?is = "filter (\<lambda>i. psl m ! i \<noteq> kEmpty) [0..<fh_capacity m]"
  have eq: "slot_pairs (fh_slots m) = map (entry_at m) ?is"
    by (simp add: slot_pairs_def fh_slots_def filter_map o_def split_def entry_at_def fh_key_def fh_val_def)
  have s: "set ?is = {i. occupied m i}" by (auto simp: occupied_def)
  show "set (slot_pairs (fh_slots m)) = fh_entries m" unfolding eq by (simp add: s [symmetric] fh_entries_def)
  show "length (slot_pairs (fh_slots m)) = card {i. occupied m i}"
    unfolding eq s [symmetric] using distinct_card [of ?is] by simp
  have "map fst (slot_pairs (fh_slots m)) = map (fh_key m) ?is" unfolding eq by (simp add: entry_at_def)
  moreover have "inj_on (fh_key m) (set ?is)" using assms unfolding s rh_inv_def by blast
  ultimately show "distinct (map fst (slot_pairs (fh_slots m)))" by (simp add: distinct_map)
qed

subsection \<open>The class invariant\<close>

definition fh_inv :: "'k hasher \<Rightarrow> ('k, 'v) fhm \<Rightarrow> bool" where
  "fh_inv hash m \<longleftrightarrow> m = no_table \<or> fh_wf hash m \<and> 4 * fh_size m \<le> 3 * fh_capacity m"

lemma empty_table_simps [simp]: "fh_size (empty_table n) = 0" "fh_capacity (empty_table n) = n"
  by (simp_all add: empty_table_def)

lemma empty_table_free [simp]: "\<not> occupied (empty_table n) i"
  by (simp add: occupied_def empty_table_def)

lemma empty_table_entries [simp]: "fh_entries (empty_table n) = {}"
  by (simp add: fh_entries_def)

lemma empty_table_wf: "fh_wf hash (empty_table (2 ^ j))"
proof -
  have "table_shape (empty_table (2 ^ j))" "psl_chain (empty_table (2 ^ j))"
    by (auto simp: table_shape_def psl_chain_def empty_table_def kEmpty_def kPslMax_def)
  then show ?thesis by (simp add: fh_wf_def rh_inv_def)
qed

lemma no_table_simps [simp]:
  "fh_capacity no_table = 0" "fh_size no_table = 0" "fh_slots no_table = []" "fh_entries no_table = {}"
  "findSlot hash no_table k = None"
  by (simp_all add: no_table_def fh_slots_def fh_entries_def occupied_def findSlot_def)

lemma inv_cases:
  assumes "fh_inv hash m"
  obtains "m = no_table" | "fh_wf hash m" "4 * fh_size m \<le> 3 * fh_capacity m" "0 < fh_capacity m"
  using assms capacity_pos [of m] by (auto simp: fh_inv_def fh_wf_def rh_inv_def)

lemma slot_pairs_inv:
  assumes "fh_inv hash m"
  shows "set (slot_pairs (fh_slots m)) = fh_entries m" "length (slot_pairs (fh_slots m)) = fh_size m"
    "distinct (map fst (slot_pairs (fh_slots m)))"
  using assms
  by (cases rule: inv_cases; simp add: slot_pairs_table [OF wf_rh]; simp add: slot_pairs_def fh_wf_def)+

lemma rehash_ok:
  assumes "fh_inv hash m" "fh_size m < 2 ^ j"
  shows "\<exists>m'. rehash hash (2 ^ j) m = Some m' \<and> fh_wf hash m' \<and> fh_capacity m' = 2 ^ j \<and> fh_size m' \<le> fh_size m \<and>
    fh_entries m' \<subseteq> fh_entries m \<and> (fh_size m' = fh_size m \<longrightarrow> fh_entries m' = fh_entries m) \<and>
    (2 ^ j < kPslMax \<longrightarrow> fh_size m' = fh_size m)"
proof -
  note ps = slot_pairs_inv [OF assms(1)]
  from insertAll_ok [OF empty_table_wf [of hash j], where slots = "fh_slots m"] ps assms(2) obtain m' where
    "insertAll hash (fh_slots m) (empty_table (2 ^ j)) = Some m'"
    "merged hash (slot_pairs (fh_slots m)) (empty_table (2 ^ j)) m'"
    by auto
  then show ?thesis
    by (simp add: rehash_def merged_def ps)
qed

lemma growIfNeeded_ok:
  assumes "fh_inv hash m"
  shows "\<exists>m'. growIfNeeded hash m = Some m' \<and> fh_wf hash m' \<and> 4 * (fh_size m' + 1) \<le> 3 * fh_capacity m' \<and>
    fh_capacity m \<le> fh_capacity m' \<and> fh_size m' \<le> fh_size m \<and> fh_entries m' \<subseteq> fh_entries m \<and>
    (fh_size m' = fh_size m \<longrightarrow> fh_entries m' = fh_entries m) \<and> (fh_capacity m' < kPslMax \<longrightarrow> fh_size m' = fh_size m)"
  using assms
proof (cases rule: inv_cases)
  case 1
  with rehash_ok [OF assms, of 3] show ?thesis by (auto simp: growIfNeeded_def)
next
  case 2
  obtain j where j: "fh_capacity m = 2 ^ j" using 2(1) by (auto simp: fh_wf_def rh_inv_def table_shape_def)
  show ?thesis
  proof (cases "fh_size m + 1 > (fh_capacity m * 3) div 4")
    case True
    have "fh_size m < 2 ^ Suc j" using 2(2,3) unfolding j power_Suc by linarith
    from rehash_ok [OF assms this] obtain m' where m': "rehash hash (2 ^ Suc j) m = Some m'" "fh_wf hash m'"
        "fh_capacity m' = 2 ^ Suc j" "fh_size m' \<le> fh_size m" "fh_entries m' \<subseteq> fh_entries m"
        "fh_size m' = fh_size m \<longrightarrow> fh_entries m' = fh_entries m" "2 ^ Suc j < kPslMax \<longrightarrow> fh_size m' = fh_size m"
      by blast
    have "4 * (fh_size m' + 1) \<le> 3 * fh_capacity m'"
    proof (cases j)
      case 0 with 2(2) m'(3,4) j show ?thesis by simp
    next
      case (Suc n)
      define x :: nat where "x = 2 ^ n"
      have "1 \<le> x" by (simp add: x_def)
      with 2(2) m'(4) show ?thesis unfolding m'(3) j Suc power_Suc x_def [symmetric] by simp
    qed
    moreover have "growIfNeeded hash m = Some m'" using True m'(1) j by (simp add: growIfNeeded_def mult.commute)
    moreover have "fh_capacity m \<le> fh_capacity m'" by (simp add: j m'(3))
    ultimately show ?thesis using m' by (intro exI [of _ m']) simp
  next
    case False
    then have "4 * (fh_size m + 1) \<le> 3 * fh_capacity m" by simp
    with False 2(1) show ?thesis by (simp add: growIfNeeded_def)
  qed
qed

subsection \<open>Deletion\<close>

text \<open>The state of the shift loop: the pair in slot \<open>cur\<close> no longer counts, the others satisfy the invariant, and
  \<open>d\<close> slots ahead hold pairs that are not at home.\<close>

definition shift_pre :: "'k hasher \<Rightarrow> nat \<Rightarrow> nat \<Rightarrow> ('k, 'v) fhm \<Rightarrow> bool" where
  "shift_pre hash cur d m \<longleftrightarrow> table_shape m \<and> psl_chain m \<and> occupied m cur \<and>
     (\<forall>i. occupied m i \<and> i \<noteq> cur \<longrightarrow> kv m ! i \<noteq> None \<and> at_home hash m i) \<and>
     inj_on (fh_key m) ({i. occupied m i} - {cur}) \<and> psl m ! ((cur + Suc d) mod fh_capacity m) \<le> 1 \<and>
     (\<forall>j < d. psl m ! ((cur + Suc j) mod fh_capacity m) \<ge> 2) \<and> Suc d < fh_capacity m"

definition rest_entries :: "('k, 'v) fhm \<Rightarrow> nat \<Rightarrow> ('k \<times> 'v) set" where
  "rest_entries m cur = entry_at m ` ({i. occupied m i} - {cur})"

definition shift_post :: "'k hasher \<Rightarrow> nat \<Rightarrow> nat \<Rightarrow> nat \<times> ('k, 'v) fhm \<Rightarrow> nat \<times> ('k, 'v) fhm \<Rightarrow> bool" where
  "shift_post hash cur d = (\<lambda>(dead, m) (dead', m').
     rh_inv hash m' \<and> fh_capacity m' = fh_capacity m \<and> fh_size m' = fh_size m \<and>
     fh_entries m' = rest_entries m cur \<and> card {i. occupied m' i} + 1 = card {i. occupied m i} \<and>
     dead' = dead + (if kv m ! cur = None then 1 else 0) + d)"

text \<open>The table with slot \<open>cur\<close> emptied, and with the pair of the next slot moved into it.\<close>

definition vacate :: "nat \<Rightarrow> ('k, 'v) fhm \<Rightarrow> ('k, 'v) fhm" where
  "vacate cur m = m\<lparr>kv := (kv m)[cur := None], psl := (psl m)[cur := kEmpty]\<rparr>"

definition pull_back :: "nat \<Rightarrow> nat \<Rightarrow> ('k, 'v) fhm \<Rightarrow> ('k, 'v) fhm" where
  "pull_back cur next m =
     m\<lparr>kv := (kv m)[cur := kv m ! next, next := None], psl := (psl m)[cur := psl m ! next - 1]\<rparr>"

lemma shift_simps [simp]:
  "fh_capacity (vacate cur m) = fh_capacity m" "fh_size (vacate cur m) = fh_size m"
  "fh_capacity (pull_back cur next m) = fh_capacity m" "fh_size (pull_back cur next m) = fh_size m"
  by (simp_all add: vacate_def pull_back_def)

lemma vacate_ok:
  assumes "shift_pre hash cur 0 m"
  shows "shift_post hash cur 0 (dead, m) (dead + (if kv m ! cur = None then 1 else 0), vacate cur m)"
proof -
  let ?m = "vacate cur m"
  have pre: "table_shape m" "psl_chain m" "occupied m cur" "psl m ! ((cur + 1) mod fh_capacity m) \<le> 1"
      "\<And>i. occupied m i \<Longrightarrow> i \<noteq> cur \<Longrightarrow> kv m ! i \<noteq> None \<and> at_home hash m i"
      "inj_on (fh_key m) ({i. occupied m i} - {cur})"
    using assms by (auto simp: shift_pre_def)
  have cur: "cur < fh_capacity m" using pre(3) by (simp add: occupied_def)
  have at: "i \<noteq> cur \<Longrightarrow> kv ?m ! i = kv m ! i" "i \<noteq> cur \<Longrightarrow> psl ?m ! i = psl m ! i" for i
    by (simp_all add: vacate_def)
  have cur0: "psl ?m ! cur = 0"
    using pre(1) cur by (simp_all add: vacate_def table_shape_def kEmpty_def)
  have occ: "occupied ?m i \<longleftrightarrow> occupied m i \<and> i \<noteq> cur" for i
    using at [of i] cur0 by (cases "i = cur") (auto simp: occupied_def kEmpty_def)
  then have occs: "{i. occupied ?m i} = {i. occupied m i} - {cur}" by auto
  have "table_shape ?m"
    using pre(1) cur unfolding table_shape_def by (auto simp: vacate_def nth_list_update kEmpty_def kPslMax_def)
  moreover have "psl_chain ?m"
    unfolding psl_chain_def
  proof (intro allI impI)
    fix i assume i: "i < fh_capacity ?m"
    let ?n = "(i + 1) mod fh_capacity ?m"
    have "psl m ! ?n - 1 \<le> psl m ! i" using pre(2) i by (simp add: psl_chain_def)
    then show "psl ?m ! ?n - 1 \<le> psl ?m ! i"
      using pre(4) at cur0 by (cases "?n = cur"; cases "i = cur") auto
  qed
  moreover have key: "fh_key ?m i = fh_key m i" "entry_at ?m i = entry_at m i" "at_home hash ?m i = at_home hash m i"
    if "i \<noteq> cur" for i
    using at [OF that] by (simp_all add: fh_key_def entry_at_def fh_val_def at_home_def)
  moreover have "inj_on (fh_key ?m) ({i. occupied m i} - {cur})"
    using pre(6) key(1) by (simp add: inj_on_def)
  ultimately have "rh_inv hash ?m"
    unfolding rh_inv_def occs using occ pre(5) at by simp
  moreover have "fh_entries ?m = rest_entries m cur"
    unfolding fh_entries_def rest_entries_def occs by (rule image_cong) (simp_all add: key)
  moreover have "card {i. occupied ?m i} + 1 = card {i. occupied m i}"
    unfolding occs using pre(3) card.remove [of "{i. occupied m i}" cur] by simp
  ultimately show ?thesis by (simp add: shift_post_def)
qed

lemma shift_ahead:
  assumes "shift_pre hash cur (Suc d) m"
  defines "next \<equiv> (cur + 1) mod fh_capacity m"
  shows "next < fh_capacity m" "next \<noteq> cur" "occupied m next" "psl m ! next \<ge> 2"
    "psl m ! ((next + Suc d) mod fh_capacity m) \<le> 1" "\<forall>j < d. psl m ! ((next + Suc j) mod fh_capacity m) \<ge> 2"
    "\<And>j. j \<le> d \<Longrightarrow> (next + Suc j) mod fh_capacity m \<noteq> cur" "psl m ! next - 1 \<le> psl m ! cur"
proof -
  have pre: "cur < fh_capacity m" "psl m ! ((cur + Suc (Suc d)) mod fh_capacity m) \<le> 1"
      "\<forall>j < Suc d. psl m ! ((cur + Suc j) mod fh_capacity m) \<ge> 2" "Suc (Suc d) < fh_capacity m" "psl_chain m"
    using assms(1) by (simp_all add: shift_pre_def occupied_def)
  have nx: "(next + Suc j) mod fh_capacity m = (cur + Suc (Suc j)) mod fh_capacity m" for j
    using mod_add_left_eq [of "cur + 1" "fh_capacity m" "Suc j"] by (simp add: next_def)
  show n: "next < fh_capacity m" using pre(1) by (simp add: next_def)
  show "next \<noteq> cur" using ahead_neq [OF pre(1), of 1] pre(4) by (simp add: next_def)
  show p: "psl m ! next \<ge> 2" using pre(3) [rule_format, of 0] by (simp add: next_def)
  then show "occupied m next" using n by (simp add: occupied_def kEmpty_def)
  show "psl m ! ((next + Suc d) mod fh_capacity m) \<le> 1" using pre(2) unfolding nx .
  show "\<forall>j < d. psl m ! ((next + Suc j) mod fh_capacity m) \<ge> 2"
    using pre(3) unfolding nx by blast
  show "(next + Suc j) mod fh_capacity m \<noteq> cur" if "j \<le> d" for j
    unfolding nx using ahead_neq [OF pre(1), of "Suc (Suc j)"] that pre(4) by simp
  show "psl m ! next - 1 \<le> psl m ! cur" using pre(1,5) by (simp add: psl_chain_def next_def)
qed

lemma home_prev:
  assumes "2 \<le> (q :: nat)" "cur < c" "(h + q - 1) mod c = (cur + 1) mod c"
  shows "(h + (q - 1) - 1) mod c = cur"
proof -
  obtain n where q: "q = 2 + n" using le_Suc_ex [OF assms(1)] by auto
  have "((h + n) mod c + 1) mod c = (cur + 1) mod c"
    using assms(3) by (simp add: q mod_Suc_eq)
  then show ?thesis using succ_mod_inj [of "(h + n) mod c" c cur] assms(2) by (simp add: q)
qed

lemma pull_back_ok:
  assumes pre: "shift_pre hash cur (Suc d) m"
  defines "next \<equiv> (cur + 1) mod fh_capacity m" and "m1 \<equiv> pull_back cur ((cur + 1) mod fh_capacity m) m"
  shows "shift_pre hash next d m1" "rest_entries m1 next = rest_entries m cur" "{i. occupied m1 i} = {i. occupied m i}"
    "kv m1 ! next = None"
proof -
  note ahead = shift_ahead [OF pre, folded next_def]
  have m1: "m1 = pull_back cur next m" by (simp add: m1_def next_def)
  let ?q = "psl m ! next"
  have p: "table_shape m" "psl_chain m" "occupied m cur" "cur < fh_capacity m"
      "\<And>i. occupied m i \<Longrightarrow> i \<noteq> cur \<Longrightarrow> kv m ! i \<noteq> None \<and> at_home hash m i"
      "inj_on (fh_key m) ({i. occupied m i} - {cur})"
    using pre by (auto simp: shift_pre_def occupied_def)
  have l: "length (kv m) = fh_capacity m" "length (psl m) = fh_capacity m" "fh_capacity m1 = fh_capacity m"
    using p(1) by (simp_all add: table_shape_def m1)
  have kv1: "kv m1 ! cur = kv m ! next" "kv m1 ! next = None" and psl1: "psl m1 ! cur = ?q - 1"
    using ahead p(4) l by (simp_all add: m1 pull_back_def)
  have other: "i \<noteq> cur \<Longrightarrow> psl m1 ! i = psl m ! i" "i \<noteq> cur \<Longrightarrow> i \<noteq> next \<Longrightarrow> kv m1 ! i = kv m ! i" for i
    by (simp_all add: m1 pull_back_def)
  show "kv m1 ! next = None" by (rule kv1(2))
  have occ: "occupied m1 i = occupied m i" for i
    using ahead(4) p(3) psl1 other(1) [of i] l by (cases "i = cur") (simp_all add: occupied_def kEmpty_def)
  then show "{i. occupied m1 i} = {i. occupied m i}" by simp
  have key: "fh_key m1 i = fh_key m (if i = cur then next else i)"
      "entry_at m1 i = entry_at m (if i = cur then next else i)" if "i \<noteq> next" for i
    using kv1(1) other(2) [of i] that by (simp_all add: fh_key_def entry_at_def fh_val_def)
  have "{i. occupied m i} - {next} = insert cur ({i. occupied m i} - {cur, next})" using p(3) ahead(2) by auto
  moreover have "{i. occupied m i} - {cur} = insert next ({i. occupied m i} - {cur, next})" using ahead(2,3) by auto
  moreover have "entry_at m1 ` ({i. occupied m i} - {cur, next}) = entry_at m ` ({i. occupied m i} - {cur, next})"
    by (rule image_cong) (simp_all add: key)
  ultimately show "rest_entries m1 next = rest_entries m cur"
    unfolding rest_entries_def occ using key(2) [of cur] ahead(2) by simp
  have "table_shape m1"
    using p(1,4) ahead(1,4) unfolding table_shape_def by (auto simp: m1 pull_back_def nth_list_update intro: less_imp_diff_less)
  moreover have "psl_chain m1"
    unfolding psl_chain_def l(3)
  proof (intro allI impI)
    fix i assume i: "i < fh_capacity m"
    let ?n = "(i + 1) mod fh_capacity m"
    have old: "psl m ! ?n - 1 \<le> psl m ! i" using p(2) i by (simp add: psl_chain_def)
    consider "i = cur" | "i \<noteq> cur" "?n = cur" | "i \<noteq> cur" "?n \<noteq> cur" by blast
    then show "psl m1 ! ?n - 1 \<le> psl m1 ! i"
    proof cases
      case 1 then show ?thesis using psl1 other(1) [of "next"] ahead(2) by (simp add: next_def)
    qed (use old ahead(8) psl1 other(1) in auto)
  qed
  moreover have "kv m1 ! i \<noteq> None \<and> at_home hash m1 i" if i: "occupied m i" "i \<noteq> next" for i
  proof (cases "i = cur")
    case True
    have "kv m ! next \<noteq> None" "at_home hash m next" using p(5) [OF ahead(3,2)] by simp_all
    moreover from this(2) have "(hashOf hash (fh_key m next) + (?q - 1) - 1) mod fh_capacity m = cur"
      by (intro home_prev [OF ahead(4) p(4)]) (simp add: at_home_def next_def)
    ultimately show ?thesis using True kv1 psl1 key(1) [OF i(2)] l(3) by (simp add: at_home_def)
  next
    case False
    then show ?thesis using p(5) [OF i(1) False] other [of i] i key(1) [OF i(2)] l(3) by (simp add: at_home_def)
  qed
  moreover have "inj_on (fh_key m1) ({i. occupied m i} - {next})"
  proof (rule inj_onI)
    fix i j assume ij: "i \<in> {i. occupied m i} - {next}" "j \<in> {i. occupied m i} - {next}" "fh_key m1 i = fh_key m1 j"
    let ?t = "\<lambda>i. if i = cur then next else i"
    have "?t i \<in> {i. occupied m i} - {cur}" "?t j \<in> {i. occupied m i} - {cur}" using ij(1,2) ahead(2,3) by auto
    moreover have "fh_key m (?t i) = fh_key m (?t j)" using ij key(1) [of i] key(1) [of j] by simp
    ultimately have "?t i = ?t j" using p(6) inj_onD by metis
    then show "i = j" using ij(1,2) by (simp split: if_splits)
  qed
  ultimately show "shift_pre hash next d m1"
    unfolding shift_pre_def occ l(3) using ahead other(1) pre by (simp add: shift_pre_def)
qed

lemma backwardShift_loop_ok:
  "shift_pre hash cur d m \<Longrightarrow>
   \<exists>r. backwardShift_loop cur (dead, m) = Some r \<and> shift_post hash cur d (dead, m) r"
proof (induction d arbitrary: cur m dead)
  case 0
  have sl: "slotOf m (cur + 1) = (cur + 1) mod fh_capacity m" "psl m ! ((cur + 1) mod fh_capacity m) \<le> 1"
    using "0.prems" slotOf_mod [of m] by (simp_all add: shift_pre_def)
  then have "backwardShift_loop cur (dead, m) = Some (dead + (if kv m ! cur = None then 1 else 0), vacate cur m)"
    by (subst backwardShift_loop.simps) (simp add: set_psl_def destroyPayload_def vacate_def)
  then show ?case using vacate_ok [OF "0.prems"] by simp
next
  case (Suc d)
  let ?n = "(cur + 1) mod fh_capacity m"
  let ?dead = "dead + (if kv m ! cur = None then 1 else 0)"
  note ahead = shift_ahead [OF Suc.prems]
  note pull = pull_back_ok [OF Suc.prems]
  have "kv m ! ?n \<noteq> None" using Suc.prems ahead(2,3) unfolding shift_pre_def by blast
  then obtain e where live: "kv m ! ?n = Some e" by blast
  have sl: "slotOf m (cur + 1) = ?n" using Suc.prems slotOf_mod [of m] by (simp add: shift_pre_def)
  have "set_psl cur (psl m ! ?n - 1) (destroyPayload ?n (kv_moveFrom cur ?n (destroyPayload cur (dead, m)))) =
      (?dead, pull_back cur ?n m)"
    using ahead(2) live by (simp add: set_psl_def destroyPayload_def kv_moveFrom_def pull_back_def)
  moreover have "\<not> psl m ! ?n \<le> 1" using ahead(4) by simp
  ultimately have "backwardShift_loop cur (dead, m) = backwardShift_loop ?n (?dead, pull_back cur ?n m)"
    using sl by (subst backwardShift_loop.simps) (simp add: Let_def del: One_nat_def)
  moreover obtain r where "backwardShift_loop ?n (?dead, pull_back cur ?n m) = Some r"
      "shift_post hash ?n d (?dead, pull_back cur ?n m) r"
    using Suc.IH [OF pull(1)] by blast
  ultimately show ?case using pull(2-4) by (auto simp: shift_post_def)
qed

lemma shift_pre_exists:
  assumes "fh_wf hash m" "fh_size m < fh_capacity m" "occupied m slot"
  shows "\<exists>d. shift_pre hash slot d m"
proof -
  let ?c = "fh_capacity m"
  let ?n = "(slot + 1) mod ?c"
  note inv = wf_rh [OF assms(1)]
  obtain i where i: "i < ?c" "psl m ! i = kEmpty"
    using empty_slot_exists [of m] assms(1,2) by (auto simp: fh_wf_def)
  have slot: "slot < ?c" "i \<noteq> slot" using assms(3) i by (auto simp: occupied_def)
  have n: "(?n + j) mod ?c = (slot + Suc j) mod ?c" for j
    using mod_add_left_eq [of "slot + 1" ?c j] by simp
  obtain d where d: "d < ?c" "psl m ! ((?n + d) mod ?c) \<le> 1" "\<forall>j < d. \<not> psl m ! ((?n + j) mod ?c) \<le> 1"
    using first_ahead [of ?n ?c i "\<lambda>i. psl m ! i \<le> 1"] i slot by (auto simp: kEmpty_def)
  have "Suc d \<noteq> ?c"
  proof
    assume full: "Suc d = ?c"
    obtain e where e: "e < ?c" "(?n + e) mod ?c = i"
      using first_ahead [of ?n ?c i "\<lambda>x. x = i"] i slot by auto
    have "e = d" using d(3) e full i(2) by (metis kEmpty_def less_SucE zero_le)
    then have "i = (slot + ?c) mod ?c" using e(2) n [of d] full by simp
    then show False using slot by simp
  qed
  with d inv assms(3) show ?thesis
    unfolding n by (intro exI [of _ d]) (auto simp: shift_pre_def rh_inv_def not_le inj_on_def)
qed

lemma backwardShiftErase_ok:
  assumes "fh_wf hash m" "fh_size m < fh_capacity m" "occupied m slot"
  shows "\<exists>n m'. backwardShiftErase slot m = Some (n, m') \<and> rh_inv hash m' \<and> fh_capacity m' = fh_capacity m \<and>
    fh_size m' = fh_size m \<and> fh_entries m' = fh_entries m - {entry_at m slot} \<and>
    card {i. occupied m' i} + 1 = card {i. occupied m i} \<and>
    (0 < n \<longleftrightarrow> 2 \<le> psl m ! ((slot + 1) mod fh_capacity m))"
proof -
  obtain d where d: "shift_pre hash slot d m" using shift_pre_exists [OF assms] by blast
  obtain n m' where r: "backwardShift_loop slot (0, m) = Some (n, m')" "shift_post hash slot d (0, m) (n, m')"
    using backwardShift_loop_ok [OF d, of 0] by auto
  note inv = wf_rh [OF assms(1)]
  have "inj_on (entry_at m) {i. occupied m i}" using inv by (auto simp: rh_inv_def inj_on_def entry_at_def)
  then have "rest_entries m slot = fh_entries m - {entry_at m slot}"
    using assms(3) by (auto simp: rest_entries_def fh_entries_def inj_on_def)
  moreover obtain e where "kv m ! slot = Some e" using inv assms(3) unfolding rh_inv_def by blast
  moreover have "0 < d \<longleftrightarrow> 2 \<le> psl m ! ((slot + 1) mod fh_capacity m)"
    using d unfolding shift_pre_def by (cases d) (auto dest: spec [of _ 0])
  ultimately show ?thesis using r by (simp add: shift_post_def backwardShiftErase_def)
qed

lemma set_size [simp]:
  "rh_inv hash (m\<lparr>fh_size := n\<rparr>) = rh_inv hash m" "fh_entries (m\<lparr>fh_size := n\<rparr>) = fh_entries m"
  "occupied (m\<lparr>fh_size := n\<rparr>) i = occupied m i"
proof -
  show o: "occupied (m\<lparr>fh_size := n\<rparr>) i = occupied m i" for i by (simp add: occupied_def)
  show "fh_entries (m\<lparr>fh_size := n\<rparr>) = fh_entries m"
    by (simp add: o fh_entries_def entry_at_def fh_key_def fh_val_def image_def)
  show "rh_inv hash (m\<lparr>fh_size := n\<rparr>) = rh_inv hash m"
    by (simp add: o rh_inv_def table_shape_def psl_chain_def at_home_def fh_key_def inj_on_def)
qed

lemma erased_inv:
  assumes "fh_wf hash m" "4 * fh_size m \<le> 3 * fh_capacity m" "rh_inv hash m'" "fh_capacity m' = fh_capacity m"
    "fh_size m' = fh_size m" "card {i. occupied m' i} + 1 = card {i. occupied m i}"
  shows "fh_inv hash (m'\<lparr>fh_size := fh_size m' - 1\<rparr>)"
  using assms by (auto simp: fh_inv_def fh_wf_def)

lemma fh_erase_ok:
  assumes "fh_inv hash m"
  shows "\<exists>m'. fh_erase hash k m = Some (if findSlot hash m k = None then 0 else 1, m') \<and> fh_inv hash m' \<and>
    fh_capacity m' = fh_capacity m \<and> fh_entries m' = {e \<in> fh_entries m. fst e \<noteq> k}"
  using assms
proof (cases rule: inv_cases)
  case 1
  then show ?thesis using assms by (simp add: fh_erase_def)
next
  case 2
  show ?thesis
  proof (cases "findSlot hash m k")
    case None
    then have "{e \<in> fh_entries m. fst e \<noteq> k} = fh_entries m"
      using findSlot_None_iff [OF wf_rh [OF 2(1)]] by force
    with None assms show ?thesis by (simp add: fh_erase_def)
  next
    case (Some slot)
    then have slot: "occupied m slot" "fh_key m slot = k" using findSlot_iff [OF wf_rh [OF 2(1)]] by auto
    have "fh_size m < fh_capacity m" using 2(2,3) by linarith
    from backwardShiftErase_ok [OF 2(1) this slot(1)] obtain n m' where r: "backwardShiftErase slot m = Some (n, m')"
        "rh_inv hash m'" "fh_capacity m' = fh_capacity m" "fh_size m' = fh_size m"
        "fh_entries m' = fh_entries m - {entry_at m slot}" "card {i. occupied m' i} + 1 = card {i. occupied m i}"
      by blast
    have "fh_entries m - {entry_at m slot} = {e \<in> fh_entries m. fst e \<noteq> k}"
      using slot 2(1) by (auto simp: fh_entries_def entry_at_def fh_wf_def rh_inv_def inj_on_def)
    with r(1,3,5) Some erased_inv [OF 2(1,2) r(2,3,4,6)] show ?thesis by (simp add: fh_erase_def)
  qed
qed

lemma fh_emplace_ok:
  assumes "fh_inv hash m" "findSlot hash m k = None"
  shows "\<exists>m' f. fh_emplace hash k v m = Some (m', f, True) \<and> fh_inv hash m' \<and> fh_capacity m \<le> fh_capacity m' \<and>
    fh_size m' \<le> fh_size m + 1 \<and>
    (fh_size m' = fh_size m + 1 \<longrightarrow> fh_entries m' = insert (k, v) (fh_entries m) \<and> f = findSlot hash m' k) \<and>
    (fh_capacity m' < kPslMax \<longrightarrow> fh_size m' = fh_size m + 1)"
proof -
  from growIfNeeded_ok [OF assms(1)] obtain m1 where g: "growIfNeeded hash m = Some m1" "fh_wf hash m1"
      "4 * (fh_size m1 + 1) \<le> 3 * fh_capacity m1" "fh_capacity m \<le> fh_capacity m1" "fh_size m1 \<le> fh_size m"
      "fh_entries m1 \<subseteq> fh_entries m" "fh_size m1 = fh_size m \<longrightarrow> fh_entries m1 = fh_entries m"
      "fh_capacity m1 < kPslMax \<longrightarrow> fh_size m1 = fh_size m"
    by blast
  have "k \<notin> fst ` fh_entries m"
    using assms findSlot_None_iff [of hash m] by (cases rule: inv_cases) (auto simp: fh_wf_def)
  then have fresh: "k \<notin> fst ` fh_entries m1" using g(6) by blast
  have room: "fh_size m1 < fh_capacity m1" using g(3) by simp
  from insertUnchecked_ok [OF g(2) room fresh, of v] obtain m' f where i: "insertUnchecked hash k v m1 = Some (m', f)" "fh_wf hash m'" "inserted hash k v m1 m'"
      "fh_capacity m1 < kPslMax \<longrightarrow> fh_size m' = fh_size m1 + 1"
      "fh_size m' = fh_size m1 + 1 \<longrightarrow> (\<exists>s. f = Some s \<and> occupied m' s \<and> entry_at m' s = (k, v))"
    by blast
  note ins = insertedD [OF i(3)]
  have "fh_inv hash m'" using i(2) ins(1,3) g(3) by (simp add: fh_inv_def)
  moreover have "fh_entries m' = insert (k, v) (fh_entries m) \<and> f = findSlot hash m' k" if "fh_size m' = fh_size m + 1"
  proof -
    have s: "fh_size m1 = fh_size m" "fh_size m' = fh_size m1 + 1" using that ins(3) g(5) by simp_all
    then obtain s where "f = Some s" "occupied m' s" "entry_at m' s = (k, v)" using i(5) by blast
    then have "f = findSlot hash m' k"
      using findSlot_iff [OF wf_rh [OF i(2)], of k s] by (simp add: entry_at_def)
    then show ?thesis using ins(4) s g(7) by simp
  qed
  ultimately show ?thesis
    using g i ins assms(2) by (simp add: fh_emplace_def)
qed

subsection \<open>The map contract\<close>

datatype ('k, 'v) map_op = Emplace 'k 'v | Erase 'k

text \<open>A history of insertions and erasures. The flag stays true as long as the size accounts for every pair that
  was reported as inserted.\<close>

fun run_map :: "('k \<Rightarrow> 'v \<Rightarrow> 's \<Rightarrow> ('s \<times> bool) option) \<Rightarrow> ('k \<Rightarrow> 's \<Rightarrow> (nat \<times> 's) option) \<Rightarrow> ('s \<Rightarrow> nat) \<Rightarrow>
    ('k, 'v) map_op list \<Rightarrow> 's \<Rightarrow> ('s \<times> bool) option" where
  "run_map emplace erase count [] s = Some (s, True)"
| "run_map emplace erase count (Emplace k v # ops) s =
     (case emplace k v s of
        None \<Rightarrow> None
      | Some (s1, b) \<Rightarrow>
          map_option (\<lambda>(s2, ok). (s2, ok \<and> count s1 = count s + (if b then 1 else 0)))
            (run_map emplace erase count ops s1))"
| "run_map emplace erase count (Erase k # ops) s =
     (case erase k s of None \<Rightarrow> None | Some (_, s1) \<Rightarrow> run_map emplace erase count ops s1)"

fun spec_map :: "('k, 'v) map_op list \<Rightarrow> ('k \<rightharpoonup> 'v) \<Rightarrow> ('k \<rightharpoonup> 'v)" where
  "spec_map [] f = f"
| "spec_map (Emplace k v # ops) f = spec_map ops (if f k = None then f(k \<mapsto> v) else f)"
| "spec_map (Erase k # ops) f = spec_map ops (f(k := None))"

locale hash_table =
  fixes inv :: "'s \<Rightarrow> bool" and lookup :: "'s \<Rightarrow> 'k \<rightharpoonup> 'v" and count :: "'s \<Rightarrow> nat" and small :: "'s \<Rightarrow> bool"
    and emplace :: "'k \<Rightarrow> 'v \<Rightarrow> 's \<Rightarrow> ('s \<times> bool) option" and erase :: "'k \<Rightarrow> 's \<Rightarrow> (nat \<times> 's) option"
  assumes emplace_old: "inv s \<Longrightarrow> lookup s k \<noteq> None \<Longrightarrow> emplace k v s = Some (s, False)"
    and emplace_new: "inv s \<Longrightarrow> lookup s k = None \<Longrightarrow>
      \<exists>s'. emplace k v s = Some (s', True) \<and> inv s' \<and> (count s' = count s + 1 \<longrightarrow> lookup s' = (lookup s)(k \<mapsto> v)) \<and>
        (small s' \<longrightarrow> small s \<and> count s' = count s + 1)"
    and erase_law: "inv s \<Longrightarrow>
      \<exists>s'. erase k s = Some (if lookup s k = None then 0 else 1, s') \<and> inv s' \<and> lookup s' = (lookup s)(k := None) \<and>
        (small s' \<longrightarrow> small s)"
begin

lemma run_map_spec:
  "inv s \<Longrightarrow> \<exists>s' ok. run_map emplace erase count ops s = Some (s', ok) \<and> inv s' \<and>
     (ok \<longrightarrow> lookup s' = spec_map ops (lookup s)) \<and> (small s' \<longrightarrow> small s \<and> ok)"
proof (induction ops arbitrary: s)
  case (Cons op ops)
  show ?case
  proof (cases op)
    case (Emplace k v)
    show ?thesis
    proof (cases "lookup s k = None")
      case True
      then obtain s1 where s1: "emplace k v s = Some (s1, True)" "inv s1"
          "count s1 = count s + 1 \<longrightarrow> lookup s1 = (lookup s)(k \<mapsto> v)" "small s1 \<longrightarrow> small s \<and> count s1 = count s + 1"
        using emplace_new [OF Cons.prems True] by blast
      obtain s' ok where ih: "run_map emplace erase count ops s1 = Some (s', ok)" "inv s'"
          "ok \<longrightarrow> lookup s' = spec_map ops (lookup s1)" "small s' \<longrightarrow> small s1 \<and> ok"
        using Cons.IH [OF s1(2)] by blast
      have "run_map emplace erase count (op # ops) s = Some (s', ok \<and> count s1 = count s + 1)"
        using s1(1) ih(1) Emplace by simp
      moreover have "spec_map (op # ops) (lookup s) = spec_map ops ((lookup s)(k \<mapsto> v))"
        using Emplace True by simp
      ultimately show ?thesis using s1(3,4) ih(2-4) by simp
    next
      case False
      obtain s' ok where ih: "run_map emplace erase count ops s = Some (s', ok)" "inv s'"
          "ok \<longrightarrow> lookup s' = spec_map ops (lookup s)" "small s' \<longrightarrow> small s \<and> ok"
        using Cons.IH [OF Cons.prems] by blast
      then show ?thesis using emplace_old [OF Cons.prems False] Emplace False by auto
    qed
  next
    case (Erase k)
    obtain s1 where s1: "erase k s = Some (if lookup s k = None then 0 else 1, s1)" "inv s1"
        "lookup s1 = (lookup s)(k := None)" "small s1 \<longrightarrow> small s"
      using erase_law [OF Cons.prems] by blast
    obtain s' ok where ih: "run_map emplace erase count ops s1 = Some (s', ok)" "inv s'"
        "ok \<longrightarrow> lookup s' = spec_map ops (lookup s1)" "small s' \<longrightarrow> small s1 \<and> ok"
      using Cons.IH [OF s1(2)] by blast
    then show ?thesis using s1 Erase by simp
  qed
qed auto

end

definition emplace_flag :: "'k hasher \<Rightarrow> 'k \<Rightarrow> 'v \<Rightarrow> ('k, 'v) fhm \<Rightarrow> (('k, 'v) fhm \<times> bool) option" where
  "emplace_flag hash k v m = map_option (\<lambda>(m, slot, b). (m, b)) (fh_emplace hash k v m)"

lemma lookup_entries:
  assumes "fh_inv hash m"
  shows "fh_lookup hash m k = Some v \<longleftrightarrow> (k, v) \<in> fh_entries m"
    "fh_lookup hash m k = None \<longleftrightarrow> findSlot hash m k = None"
proof -
  show "fh_lookup hash m k = Some v \<longleftrightarrow> (k, v) \<in> fh_entries m"
    using assms by (cases rule: inv_cases) (simp add: fh_lookup_def, simp add: fh_lookup_iff [OF wf_rh])
qed (simp add: fh_lookup_def)

lemma lookup_eqI:
  assumes "\<And>v. fh_lookup hash m k = Some v \<longleftrightarrow> f k = Some v"
  shows "fh_lookup hash m k = f k"
  using assms by (cases "f k"; cases "fh_lookup hash m k") auto

interpretation fh: hash_table "fh_inv hash" "fh_lookup hash" fh_size "\<lambda>m. fh_capacity m < kPslMax"
  "emplace_flag hash" "fh_erase hash" for hash :: "'k hasher"
proof
  fix s :: "('k, 'v) fhm" and k :: 'k and v :: 'v
  assume inv: "fh_inv hash s"
  show "emplace_flag hash k v s = Some (s, False)" if some: "fh_lookup hash s k \<noteq> None"
  proof -
    obtain slot where "findSlot hash s k = Some slot" using some by (auto simp: fh_lookup_def)
    then show ?thesis by (simp add: emplace_flag_def fh_emplace_def)
  qed
  show "\<exists>s'. emplace_flag hash k v s = Some (s', True) \<and> fh_inv hash s' \<and>
      (fh_size s' = fh_size s + 1 \<longrightarrow> fh_lookup hash s' = (fh_lookup hash s)(k \<mapsto> v)) \<and>
      (fh_capacity s' < kPslMax \<longrightarrow> fh_capacity s < kPslMax \<and> fh_size s' = fh_size s + 1)"
    if none: "fh_lookup hash s k = None"
  proof -
    obtain m' f where m': "fh_emplace hash k v s = Some (m', f, True)" "fh_inv hash m'" "fh_capacity s \<le> fh_capacity m'"
        "fh_size m' = fh_size s + 1 \<longrightarrow> fh_entries m' = insert (k, v) (fh_entries s)"
        "fh_capacity m' < kPslMax \<longrightarrow> fh_size m' = fh_size s + 1"
      using fh_emplace_ok [OF inv] none lookup_entries(2) [OF inv] by blast
    have "fh_lookup hash m' = (fh_lookup hash s)(k \<mapsto> v)" if "fh_size m' = fh_size s + 1"
    proof
      fix x
      have "(x, w) \<in> fh_entries s \<Longrightarrow> x \<noteq> k" for w using none lookup_entries(1) [OF inv, of x w] by auto
      then show "fh_lookup hash m' x = ((fh_lookup hash s)(k \<mapsto> v)) x"
        using that m'(4) lookup_entries(1) [OF m'(2)] lookup_entries(1) [OF inv] by (intro lookup_eqI) auto
    qed
    with m' show ?thesis by (intro exI [of _ m']) (simp add: emplace_flag_def)
  qed
  obtain m' where e: "fh_erase hash k s = Some (if findSlot hash s k = None then 0 else 1, m')" "fh_inv hash m'"
      "fh_capacity m' = fh_capacity s" "fh_entries m' = {e \<in> fh_entries s. fst e \<noteq> k}"
    using fh_erase_ok [OF inv] by blast
  have "fh_lookup hash m' = (fh_lookup hash s)(k := None)"
  proof
    fix x
    show "fh_lookup hash m' x = ((fh_lookup hash s)(k := None)) x"
      using e(4) lookup_entries(1) [OF e(2)] lookup_entries(1) [OF inv] by (intro lookup_eqI) auto
  qed
  with e lookup_entries(2) [OF inv] show "\<exists>s'. fh_erase hash k s = Some (if fh_lookup hash s k = None then 0 else 1, s') \<and>
      fh_inv hash s' \<and> fh_lookup hash s' = (fh_lookup hash s)(k := None) \<and>
      (fh_capacity s' < kPslMax \<longrightarrow> fh_capacity s < kPslMax)" by simp
qed

subsection \<open>Capacities\<close>

lemma smear_step:
  fixes x a :: "64 word"
  assumes "\<And>i. bit a i \<longleftrightarrow> (\<exists>j < w. bit x (i + j))"
  shows "bit (a OR drop_bit w a) i \<longleftrightarrow> (\<exists>j < 2 * w. bit x (i + j))"
proof -
  have "(\<exists>j < 2 * w. bit x (i + j)) \<longleftrightarrow> (\<exists>j < w. bit x (i + j)) \<or> (\<exists>j < w. bit x (i + w + j))"
  proof (intro iffI)
    assume "\<exists>j < 2 * w. bit x (i + j)"
    then obtain j where j: "j < 2 * w" "bit x (i + j)" by blast
    show "(\<exists>j < w. bit x (i + j)) \<or> (\<exists>j < w. bit x (i + w + j))"
    proof (cases "j < w")
      case False
      then have "j - w < w" "i + w + (j - w) = i + j" using j(1) by simp_all
      with j(2) show ?thesis by metis
    qed (use j in blast)
  next
    assume "(\<exists>j < w. bit x (i + j)) \<or> (\<exists>j < w. bit x (i + w + j))"
    then show "\<exists>j < 2 * w. bit x (i + j)"
    proof
      assume "\<exists>j < w. bit x (i + j)"
      then obtain j where "j < w" "bit x (i + j)" by blast
      then show ?thesis by (intro exI [of _ j]) simp
    next
      assume "\<exists>j < w. bit x (i + w + j)"
      then obtain j where "j < w" "bit x (i + w + j)" by blast
      then show ?thesis by (intro exI [of _ "w + j"]) (simp add: ac_simps)
    qed
  qed
  then show ?thesis using assms by (simp add: bit_or_iff bit_drop_bit_eq ac_simps)
qed

definition smear :: "64 word \<Rightarrow> 64 word" where
  "smear n =
     (let n = n OR drop_bit 1 n;
          n = n OR drop_bit 2 n;
          n = n OR drop_bit 4 n;
          n = n OR drop_bit 8 n;
          n = n OR drop_bit 16 n
      in n OR drop_bit 32 n)"

lemma bit_smear: "bit (smear x) i \<longleftrightarrow> (\<exists>j < 64. bit x (i + j))"
proof -
  define a where "a = x OR drop_bit 1 x"
  define b where "b = a OR drop_bit 2 a"
  define c where "c = b OR drop_bit 4 b"
  define d where "d = c OR drop_bit 8 c"
  define e where "e = d OR drop_bit 16 d"
  have "bit a i \<longleftrightarrow> (\<exists>j < 2. bit x (i + j))" for i
    using smear_step [of x 1 x i] by (simp add: a_def)
  from smear_step [OF this] have "bit b i \<longleftrightarrow> (\<exists>j < 4. bit x (i + j))" for i by (simp add: b_def)
  from smear_step [OF this] have "bit c i \<longleftrightarrow> (\<exists>j < 8. bit x (i + j))" for i by (simp add: c_def)
  from smear_step [OF this] have "bit d i \<longleftrightarrow> (\<exists>j < 16. bit x (i + j))" for i by (simp add: d_def)
  from smear_step [OF this] have "bit e i \<longleftrightarrow> (\<exists>j < 32. bit x (i + j))" for i by (simp add: e_def)
  from smear_step [OF this] have "bit (e OR drop_bit 32 e) i \<longleftrightarrow> (\<exists>j < 64. bit x (i + j))" by simp
  then show ?thesis unfolding smear_def Let_def a_def b_def c_def d_def e_def .
qed

lemma bit_top:
  fixes x :: "64 word"
  assumes "2 ^ (k - 1) \<le> unat x" "unat x < 2 ^ k" "0 < k"
  shows "bit x (k - 1)"
proof -
  have "unat x div 2 ^ (k - 1) = 1"
    using assms by (cases k) (auto simp: div_nat_eqI)
  then have "bit (unat x) (k - 1)" by (simp add: bit_iff_odd)
  then show ?thesis by (simp add: bit_unsigned_iff)
qed

lemma bit_above:
  fixes x :: "64 word"
  assumes "unat x < 2 ^ k" "k \<le> i"
  shows "\<not> bit x i"
proof -
  have "unat x div 2 ^ i = 0"
    using assms(1) power_increasing [OF assms(2), of "2 :: nat"] by (intro div_less) linarith
  then have "\<not> bit (unat x) i" by (simp add: bit_iff_odd)
  then show ?thesis by (simp add: bit_unsigned_iff)
qed

lemma nextPow2_least:
  assumes "0 < unat n" "unat n \<le> 2 ^ 63"
  shows "\<exists>k. unat (nextPow2 n) = 2 ^ k \<and> unat n \<le> 2 ^ k \<and> (\<forall>j. unat n \<le> 2 ^ j \<longrightarrow> k \<le> j)"
proof (cases "unat n = 1")
  case True
  then have "n = 1" by (metis unat_1 unsigned_word_eqI)
  then show ?thesis by (intro exI [of _ 0]) (simp add: nextPow2_def)
next
  case False
  define x where "x = n - 1"
  have nz: "n \<noteq> 0" using assms(1) by auto
  then have x: "unat x = unat n - 1" by (simp add: x_def unat_minus_one)
  define k where "k = (LEAST k. unat n \<le> 2 ^ k)"
  have k: "unat n \<le> 2 ^ k" "\<And>j. unat n \<le> 2 ^ j \<Longrightarrow> k \<le> j"
    unfolding k_def using LeastI [of "\<lambda>k. unat n \<le> 2 ^ k", OF assms(2)] Least_le [of "\<lambda>k. unat n \<le> 2 ^ k"] by auto
  have k63: "k \<le> 63" using k(2) [OF assms(2)] .
  have k0: "0 < k" using k(1) False assms(1) by (cases k) auto
  have low: "2 ^ (k - 1) \<le> unat x" "unat x < 2 ^ k"
  proof -
    have "\<not> unat n \<le> 2 ^ (k - 1)" using k(2) [of "k - 1"] k0 by linarith
    then show "2 ^ (k - 1) \<le> unat x" using x by linarith
    show "unat x < 2 ^ k" using k(1) x assms(1) by linarith
  qed
  note top = bit_top [OF low k0] and above = bit_above [OF low(2)]
  have smear: "(\<exists>j < 64. bit x (i + j)) \<longleftrightarrow> i < k" for i
  proof
    show "\<exists>j < 64. bit x (i + j) \<Longrightarrow> i < k" using above by (meson le_add1 le_trans not_le)
    show "i < k \<Longrightarrow> \<exists>j < 64. bit x (i + j)" using top k63 k0 by (intro exI [of _ "k - 1 - i"]) simp
  qed
  have "smear x = mask k"
    by (rule bit_word_eqI) (use smear in \<open>simp add: bit_smear bit_mask_iff\<close>)
  then have "nextPow2 n = mask k + 1"
    using nz by (simp add: nextPow2_def smear_def x_def Let_def)
  moreover have "mask k + 1 = (2 ^ k :: 64 word)" by (simp add: mask_eq_exp_minus_1)
  moreover have "unat (2 ^ k :: 64 word) = 2 ^ k"
  proof -
    have "unat (2 ^ k :: 64 word) = unat (of_nat (2 ^ k) :: 64 word)" by simp
    also have "\<dots> = 2 ^ k mod 2 ^ 64" unfolding unat_of_nat by simp
    also have "\<dots> = 2 ^ k" using k63 by (intro mod_less power_strict_increasing) simp_all
    finally show ?thesis .
  qed
  ultimately show ?thesis using k by auto
qed

lemma fh_reserve_ok:
  assumes "fh_inv hash m" "n * 4 + 2 \<le> 3 * 2 ^ 62"
  shows "\<exists>m'. fh_reserve hash n m = Some m' \<and> fh_inv hash m' \<and> n \<le> fh_capacity m' * 3 div 4 \<and>
    fh_size m' \<le> fh_size m \<and> (fh_size m' = fh_size m \<longrightarrow> fh_entries m' = fh_entries m)"
proof -
  define needed where "needed = (n * 4 + 2) div 3"
  have w: "wrap64 (n * 4 + 2) = n * 4 + 2" using assms(2) by (simp add: wrap64_def)
  have eq: "fh_reserve hash n m =
      (if needed > fh_capacity m then rehash hash (unat (nextPow2 (of_nat needed))) m else Some m)"
    unfolding fh_reserve_def w needed_def [symmetric] Let_def ..
  have fits: "n \<le> c * 3 div 4" if "needed \<le> c" for c using that unfolding needed_def by linarith
  show ?thesis
  proof (cases "needed > fh_capacity m")
    case False
    then show ?thesis using assms(1) fits [of "fh_capacity m"]
      by (intro exI [of _ m]) (simp add: eq)
  next
    case True
    have un: "unat (of_nat needed :: 64 word) = needed"
      using assms(2) by (simp add: unsigned_of_nat needed_def take_bit_nat_eq_self)
    have "0 < needed" "needed \<le> 2 ^ 63" using assms(2) True by (simp_all add: needed_def)
    then obtain k where k: "unat (nextPow2 (of_nat needed)) = 2 ^ k" "needed \<le> 2 ^ k"
      using nextPow2_least [of "of_nat needed"] unfolding un by blast
    have size: "4 * fh_size m \<le> 3 * fh_capacity m" using assms(1) by (cases rule: inv_cases) simp_all
    then have lt: "fh_size m < 2 ^ k" using True k(2) by linarith
    obtain m' where m': "rehash hash (2 ^ k) m = Some m'" "fh_wf hash m'" "fh_capacity m' = 2 ^ k"
        "fh_size m' \<le> fh_size m" "fh_size m' = fh_size m \<longrightarrow> fh_entries m' = fh_entries m"
      using rehash_ok [OF assms(1) lt] by blast
    have "4 * fh_size m' \<le> 3 * fh_capacity m'" using m'(3,4) size True k(2) by linarith
    with m' k fits [of "2 ^ k"] True show ?thesis
      by (intro exI [of _ m']) (simp add: eq fh_inv_def)
  qed
qed

subsection \<open>Iteration\<close>

text \<open>The loop \<open>for (it = begin(); it != end(); ++it)\<close>.\<close>

function iterate_from :: "('k, 'v) fhm \<Rightarrow> nat \<Rightarrow> nat list" where
  "iterate_from m i = (if i < fh_end m then i # iterate_from m (iterator_next m i) else [])"
  by pat_completeness auto

lemma next_occupied_ge: "i \<le> next_occupied m i"
proof (induction m i rule: next_occupied.induct)
  case (1 m i)
  then show ?case by (subst next_occupied.simps) auto
qed

termination iterate_from
proof (relation "measure (\<lambda>(m, i). fh_capacity m - i)")
  fix m :: "('k, 'v) fhm" and i
  assume "i < fh_end m"
  then show "((m, iterator_next m i), m, i) \<in> measure (\<lambda>(m, i). fh_capacity m - i)"
    using next_occupied_ge [of "i + 1" m] by (simp add: iterator_next_def fh_end_def)
qed simp

declare iterate_from.simps [simp del]

lemma iterate_next:
  "i \<le> fh_capacity m \<Longrightarrow> iterate_from m (next_occupied m i) = filter (occupied m) [i..<fh_capacity m]"
proof (induction "fh_capacity m - i" arbitrary: i)
  case 0
  then show ?case by (subst next_occupied.simps, subst iterate_from.simps) (simp add: fh_end_def)
next
  case (Suc n)
  then have i: "i < fh_capacity m" by simp
  have rest: "iterate_from m (next_occupied m (i + 1)) = filter (occupied m) [i + 1..<fh_capacity m]"
    using Suc.hyps(1) [of "i + 1"] Suc.hyps(2) i by simp
  have up: "[i..<fh_capacity m] = i # [i + 1..<fh_capacity m]" using i by (simp add: upt_conv_Cons)
  show ?case
  proof (cases "psl m ! i = kEmpty")
    case True
    then have "next_occupied m i = next_occupied m (i + 1)" using i by (subst next_occupied.simps) simp
    then show ?thesis using rest True by (simp add: up occupied_def)
  next
    case False
    then have "next_occupied m i = i" by (subst next_occupied.simps) simp
    then show ?thesis using rest False i
      by (simp, subst iterate_from.simps) (simp add: up fh_end_def iterator_next_def occupied_def)
  qed
qed

subsection \<open>Properties\<close>

text \<open>C2: A table behaves as a finite map: every sequence of insertions and erasures terminates and keeps the class
  invariant; as long as the size accounts for every pair reported as inserted, lookups afterwards are those of the
  map with the same insertions (an existing key keeps its value) and erasures; and no pair is lost while the
  capacity is below 255, for any hash function.\<close>

theorem flat_map_history:
  assumes "fh_inv hash m"
  shows "\<exists>m' ok. run_map (emplace_flag hash) (fh_erase hash) fh_size ops m = Some (m', ok) \<and> fh_inv hash m' \<and>
    (ok \<longrightarrow> fh_lookup hash m' = spec_map ops (fh_lookup hash m)) \<and> (fh_capacity m' < kPslMax \<longrightarrow> ok)"
  using fh.run_map_spec [OF assms] by blast

theorem flat_map_history_witness:
  "fh_inv (\<lambda>_ :: nat. 0) (no_table :: (nat, bool) fhm) \<and>
   (\<exists>m' ok. run_map (emplace_flag (\<lambda>_ :: nat. 0)) (fh_erase (\<lambda>_. 0)) fh_size
      [Emplace 1 True, Emplace 2 False, Erase 1] no_table = Some (m', ok) \<and> fh_inv (\<lambda>_. 0) m')"
proof -
  have inv: "fh_inv (\<lambda>_ :: nat. 0) (no_table :: (nat, bool) fhm)" by (simp add: fh_inv_def)
  from flat_map_history [OF inv, of "[Emplace 1 True, Emplace 2 False, Erase 1]"] inv show ?thesis by blast
qed

text \<open>The slot returned by \<open>emplace\<close> for a new key is the slot where \<open>find\<close> then finds that key.\<close>

theorem flat_map_emplace_slot:
  assumes "fh_inv hash m" "findSlot hash m k = None" "fh_emplace hash k v m = Some (m', f, b)"
    "fh_size m' = fh_size m + 1"
  shows "b \<and> f = findSlot hash m' k \<and> fh_lookup hash m' k = Some v"
proof -
  from fh_emplace_ok [OF assms(1,2), of v] assms(3,4) have *: "b" "f = findSlot hash m' k" "fh_inv hash m'"
      "(k, v) \<in> fh_entries m'" by auto
  then show ?thesis using lookup_entries(1) [OF *(3)] by simp
qed

theorem flat_map_emplace_slot_witness:
  "\<exists>m' f b. fh_emplace (\<lambda>_ :: nat. 0) 5 True no_table = Some (m', f, b) \<and> f = findSlot (\<lambda>_. 0) m' 5"
proof -
  have inv: "fh_inv (\<lambda>_ :: nat. 0) (no_table :: (nat, bool) fhm)" by (simp add: fh_inv_def)
  have none: "findSlot (\<lambda>_ :: nat. 0) (no_table :: (nat, bool) fhm) 5 = None" by simp
  have "growIfNeeded (\<lambda>_ :: nat. 0) (no_table :: (nat, bool) fhm) = Some (empty_table 8)"
    by (simp add: growIfNeeded_def rehash_def)
  moreover have "insertUnchecked (\<lambda>_ :: nat. 0) 5 True (empty_table 8) =
      Some ((put_slot 0 (5, True) 1 (empty_table 8))\<lparr>fh_size := 1\<rparr>, Some 0)"
    unfolding insertUnchecked_def
    by (subst insert_loop.simps) (simp add: slotOf_def hashOf_def empty_table_def put_slot_def Let_def)
  ultimately have r: "fh_emplace (\<lambda>_ :: nat. 0) 5 True no_table =
      Some ((put_slot 0 (5, True) 1 (empty_table 8))\<lparr>fh_size := 1\<rparr>, Some 0, True)"
    by (simp add: fh_emplace_def)
  have "fh_size ((put_slot 0 (5 :: nat, True) 1 (empty_table 8))\<lparr>fh_size := 1\<rparr>) =
      fh_size (no_table :: (nat, bool) fhm) + 1" by simp
  from flat_map_emplace_slot [OF inv none r this] r show ?thesis by blast
qed

text \<open>C27: Backward-shift deletion calls the destructor on storage that holds no live pair exactly when the slot after
  the erased one holds a pair that is not at its home slot, that is, whenever a pair is shifted.\<close>

theorem erase_destroys_twice:
  assumes "fh_inv hash m" "findSlot hash m k = Some slot"
  shows "\<exists>n m'. backwardShiftErase slot m = Some (n, m') \<and>
    (0 < n \<longleftrightarrow> 2 \<le> psl m ! ((slot + 1) mod fh_capacity m))"
proof -
  from assms(1) have wf: "fh_wf hash m \<and> fh_size m < fh_capacity m"
  proof (cases rule: inv_cases)
    case 1 with assms(2) show ?thesis by simp
  next
    case 2 then show ?thesis by linarith
  qed
  then have "occupied m slot" using findSlot_iff [OF wf_rh, of hash m k slot] assms(2) by simp
  from backwardShiftErase_ok [OF conjunct1 [OF wf] conjunct2 [OF wf] this] show ?thesis by blast
qed

definition two_pairs :: "(nat, bool) fhm" where
  "two_pairs = \<lparr>kv = [Some (1, True), Some (2, False), None, None], psl = [1, 2, 0, 0], fh_capacity = 4,
     fh_mask = 3, fh_size = 2\<rparr>"

lemma occupied_two_pairs: "occupied two_pairs i \<longleftrightarrow> i = 0 \<or> i = 1"
proof -
  have "i < 4 \<longleftrightarrow> i = 0 \<or> i = 1 \<or> i = 2 \<or> i = 3" by auto
  then show ?thesis by (auto simp: occupied_def two_pairs_def kEmpty_def)
qed

lemma two_pairs_inv: "fh_inv (\<lambda>_. 0) two_pairs"
proof -
  have four: "(\<forall>i < 4. P i) \<longleftrightarrow> P 0 \<and> P 1 \<and> P 2 \<and> P (3 :: nat)" for P
    by (auto simp: numeral_eq_Suc less_Suc_eq)
  have occ: "{i. occupied two_pairs i} = {0, 1}" by (auto simp: occupied_two_pairs)
  have "(4 :: nat) = 2 ^ 2" by simp
  then have "\<exists>j. (4 :: nat) = 2 ^ j" by blast
  then have "table_shape two_pairs" "psl_chain two_pairs"
    unfolding table_shape_def psl_chain_def by (simp_all add: two_pairs_def four kPslMax_def)
  moreover have "at_home (\<lambda>_. 0) two_pairs 0" "at_home (\<lambda>_. 0) two_pairs 1" "inj_on (fh_key two_pairs) {0, 1}"
    by (simp_all add: at_home_def hashOf_def two_pairs_def fh_key_def)
  moreover have "kv two_pairs ! 0 \<noteq> None" "kv two_pairs ! 1 \<noteq> None" "fh_size two_pairs = 2" "fh_capacity two_pairs = 4"
    by (simp_all add: two_pairs_def)
  moreover from calculation have "\<forall>i. occupied two_pairs i \<longrightarrow> kv two_pairs ! i \<noteq> None \<and> at_home (\<lambda>_. 0) two_pairs i"
    unfolding occupied_two_pairs by blast
  ultimately show ?thesis unfolding fh_inv_def fh_wf_def rh_inv_def occ by simp
qed

theorem erase_destroys_twice_witness:
  "findSlot (\<lambda>_. 0) two_pairs 1 = Some 0 \<and> (\<exists>n m'. backwardShiftErase 0 two_pairs = Some (n, m') \<and> 0 < n)"
proof -
  have f: "findSlot (\<lambda>_. 0) two_pairs 1 = Some 0"
    by (simp add: findSlot_def findSlot_loop.simps slotOf_def hashOf_def two_pairs_def kEmpty_def)
  with erase_destroys_twice [OF two_pairs_inv f] show ?thesis by (simp add: two_pairs_def)
qed

text \<open>A loop from \<open>begin()\<close> to \<open>end()\<close> visits every occupied slot once, in slot order, so it sees exactly the
  pairs of the map.\<close>

theorem flat_map_iteration:
  "iterate_from m (fh_begin m) = filter (occupied m) [0..<fh_capacity m] \<and>
   set (map (entry_at m) (iterate_from m (fh_begin m))) = fh_entries m"
proof -
  have "iterate_from m (fh_begin m) = filter (occupied m) [0..<fh_capacity m]"
    using iterate_next [of 0 m] by (simp add: fh_begin_def)
  moreover have "{i. occupied m i} = {i \<in> {0..<fh_capacity m}. occupied m i}" by (auto simp: occupied_def)
  ultimately show ?thesis by (simp add: fh_entries_def)
qed

text \<open>\<open>reserve(n)\<close> succeeds on every valid table (for \<open>n\<close> below \<open>3 \<cdot> 2\<^sup>6\<^sup>0\<close>), never adds pairs, and leaves room for
  \<open>n\<close> pairs below the growth threshold, because \<open>nextPow2\<close> gives the least power of two that is large enough.\<close>

theorem flat_map_reserve:
  assumes "fh_inv hash m" "n * 4 + 2 \<le> 3 * 2 ^ 62" "0 < unat x" "unat x \<le> 2 ^ 63"
  shows "(\<exists>m'. fh_reserve hash n m = Some m' \<and> fh_inv hash m' \<and> n \<le> fh_capacity m' * 3 div 4 \<and>
      fh_size m' \<le> fh_size m \<and> (fh_size m' = fh_size m \<longrightarrow> fh_entries m' = fh_entries m)) \<and>
    (\<exists>k. unat (nextPow2 x) = 2 ^ k \<and> unat x \<le> 2 ^ k \<and> (\<forall>j. unat x \<le> 2 ^ j \<longrightarrow> k \<le> j))"
  using fh_reserve_ok [OF assms(1,2)] nextPow2_least [OF assms(3,4)] by blast

theorem flat_map_reserve_witness:
  "\<exists>m'. fh_reserve (\<lambda>_. 0) 100 two_pairs = Some m' \<and> 100 \<le> fh_capacity m' * 3 div 4"
  using flat_map_reserve [OF two_pairs_inv, of 100 1] by auto

end
