(* ===== verification/Configuration.thy ===== *)
theory Configuration
  imports Http_Text
begin

text \<open>
  \<open>src/src/Configuration.cpp\<close>: the typed key-value configuration with defaults, validation, a text file
  format, environment variables and merging.

  A configuration is a record of the class's two containers: the \<open>std::map\<close> of options (sorted
  association list, ordered by the position of the option in the enumeration) and the set of options that were set
  explicitly. Files and environment variables are arguments: the content of a file, or \<^term>\<open>None\<close> when it
  cannot be opened, and a function from variable names to values. The mutex only serialises the
  operations. Reading and writing \<open>double\<close> values goes through the standard library's conversions, which are
  arguments as well.
\<close>

subsection \<open>Options\<close>

datatype conf_option =
    MaxConnections | ConnectionTimeout | ReadTimeout | WriteTimeout | ThreadPoolSize | ThreadIdleTimeout
  | BufferSize | MaxBufferSize | LogLevel | LogFilePath | EnableSSL | CertificateFile | PrivateKeyFile
  | CAFile | VerifyPeer | MaxHttpRequestSize | MaxHttpResponseSize | EnableCompression
  | CompressionLevel | WebSocketPingInterval | WebSocketPongTimeout | EnablePerformanceMonitoring
  | PerformanceReportInterval | LoadBalancingStrategy | HealthCheckInterval | CircuitBreakerEnabled
  | FailureThreshold | RecoveryTimeout | HalfOpenAttempts

primrec option_index :: "conf_option \<Rightarrow> nat" where
  "option_index MaxConnections = 0"
| "option_index ConnectionTimeout = 1"
| "option_index ReadTimeout = 2"
| "option_index WriteTimeout = 3"
| "option_index ThreadPoolSize = 4"
| "option_index ThreadIdleTimeout = 5"
| "option_index BufferSize = 6"
| "option_index MaxBufferSize = 7"
| "option_index LogLevel = 8"
| "option_index LogFilePath = 9"
| "option_index EnableSSL = 10"
| "option_index CertificateFile = 11"
| "option_index PrivateKeyFile = 12"
| "option_index CAFile = 13"
| "option_index VerifyPeer = 14"
| "option_index MaxHttpRequestSize = 15"
| "option_index MaxHttpResponseSize = 16"
| "option_index EnableCompression = 17"
| "option_index CompressionLevel = 18"
| "option_index WebSocketPingInterval = 19"
| "option_index WebSocketPongTimeout = 20"
| "option_index EnablePerformanceMonitoring = 21"
| "option_index PerformanceReportInterval = 22"
| "option_index LoadBalancingStrategy = 23"
| "option_index HealthCheckInterval = 24"
| "option_index CircuitBreakerEnabled = 25"
| "option_index FailureThreshold = 26"
| "option_index RecoveryTimeout = 27"
| "option_index HalfOpenAttempts = 28"

definition all_options :: "conf_option list" where
  "all_options =
     [MaxConnections, ConnectionTimeout, ReadTimeout, WriteTimeout, ThreadPoolSize, ThreadIdleTimeout,
      BufferSize, MaxBufferSize, LogLevel, LogFilePath, EnableSSL, CertificateFile, PrivateKeyFile,
      CAFile, VerifyPeer, MaxHttpRequestSize, MaxHttpResponseSize, EnableCompression,
      CompressionLevel, WebSocketPingInterval, WebSocketPongTimeout, EnablePerformanceMonitoring,
      PerformanceReportInterval, LoadBalancingStrategy, HealthCheckInterval, CircuitBreakerEnabled,
      FailureThreshold, RecoveryTimeout, HalfOpenAttempts]"

lemma all_options_index: "option_index x < 29 \<and> all_options ! option_index x = x"
  by (cases x) (simp_all add: all_options_def)

lemma option_index_inject: "option_index x = option_index y \<longleftrightarrow> x = y"
  using all_options_index [of x] all_options_index [of y] by metis

instantiation conf_option :: linorder
begin

definition less_eq_conf_option :: "conf_option \<Rightarrow> conf_option \<Rightarrow> bool" where
  "x \<le> y \<longleftrightarrow> option_index x \<le> option_index y"

definition less_conf_option :: "conf_option \<Rightarrow> conf_option \<Rightarrow> bool" where
  "x < y \<longleftrightarrow> option_index x < option_index y"

instance
  by standard (auto simp: less_eq_conf_option_def less_conf_option_def option_index_inject)

end

definition kOptionEntries :: "(conf_option \<times> string) list" where
  "kOptionEntries =
     [(MaxConnections, ''MaxConnections''), (ConnectionTimeout, ''ConnectionTimeout''),
      (ReadTimeout, ''ReadTimeout''), (WriteTimeout, ''WriteTimeout''),
      (ThreadPoolSize, ''ThreadPoolSize''), (ThreadIdleTimeout, ''ThreadIdleTimeout''),
      (BufferSize, ''BufferSize''), (MaxBufferSize, ''MaxBufferSize''), (LogLevel, ''LogLevel''),
      (LogFilePath, ''LogFilePath''), (EnableSSL, ''EnableSSL''),
      (CertificateFile, ''CertificateFile''), (PrivateKeyFile, ''PrivateKeyFile''),
      (CAFile, ''CAFile''), (VerifyPeer, ''VerifyPeer''),
      (MaxHttpRequestSize, ''MaxHttpRequestSize''), (MaxHttpResponseSize, ''MaxHttpResponseSize''),
      (EnableCompression, ''EnableCompression''), (CompressionLevel, ''CompressionLevel''),
      (WebSocketPingInterval, ''WebSocketPingInterval''),
      (WebSocketPongTimeout, ''WebSocketPongTimeout''),
      (EnablePerformanceMonitoring, ''EnablePerformanceMonitoring''),
      (PerformanceReportInterval, ''PerformanceReportInterval''),
      (LoadBalancingStrategy, ''LoadBalancingStrategy''),
      (HealthCheckInterval, ''HealthCheckInterval''),
      (CircuitBreakerEnabled, ''CircuitBreakerEnabled''), (FailureThreshold, ''FailureThreshold''),
      (RecoveryTimeout, ''RecoveryTimeout''), (HalfOpenAttempts, ''HalfOpenAttempts'')]"

definition kDefaultOptionValues :: "(conf_option \<times> string) list" where
  "kDefaultOptionValues =
     [(MaxConnections, ''1000''), (ConnectionTimeout, ''30000''), (ReadTimeout, ''30000''),
      (WriteTimeout, ''30000''), (ThreadPoolSize, ''4''), (ThreadIdleTimeout, ''60000''),
      (BufferSize, ''4096''), (MaxBufferSize, ''65536''), (LogLevel, ''INFO''),
      (LogFilePath, ''fastnet.log''), (EnableSSL, ''false''), (CertificateFile, ''''),
      (PrivateKeyFile, ''''), (CAFile, ''''), (VerifyPeer, ''true''),
      (MaxHttpRequestSize, ''1048576''), (MaxHttpResponseSize, ''1048576''),
      (EnableCompression, ''true''), (CompressionLevel, ''6''), (WebSocketPingInterval, ''30000''),
      (WebSocketPongTimeout, ''10000''), (EnablePerformanceMonitoring, ''true''),
      (PerformanceReportInterval, ''5000''), (LoadBalancingStrategy, ''RoundRobin''),
      (HealthCheckInterval, ''30000''), (CircuitBreakerEnabled, ''true''), (FailureThreshold, ''5''),
      (RecoveryTimeout, ''60000''), (HalfOpenAttempts, ''3'')]"

definition getDefaultOptionValue :: "conf_option \<Rightarrow> string option" where
  "getDefaultOptionValue opt = map_option snd (find (\<lambda>entry. fst entry = opt) kDefaultOptionValues)"

subsection \<open>Text helpers\<close>

definition cUnderscore :: char where "cUnderscore = CHR ''_''"
definition cQuote :: char where "cQuote = CHR 0x22"
definition cMinus :: char where "cMinus = CHR ''-''"

definition is_blank :: "char \<Rightarrow> bool" where
  "is_blank c \<longleftrightarrow> c = cSpace \<or> c = cTab \<or> c = CR \<or> c = LF"

definition trimCopy :: "string \<Rightarrow> string" where
  "trimCopy text = rev (dropWhile is_blank (rev (dropWhile is_blank text)))"

definition toLowerCopy :: "string \<Rightarrow> string" where
  "toLowerCopy text = map tolower text"

definition toUpperCopy :: "string \<Rightarrow> string" where
  "toUpperCopy text = map toupper text"

definition canonicalizeOptionName :: "string \<Rightarrow> string" where
  "canonicalizeOptionName text =
     (let normalized = map tolower (filter isalnum text); prefix = ''fastnet''
      in if take (length prefix) normalized = prefix then drop (length prefix) normalized else normalized)"

definition parseBoolValue :: "string \<Rightarrow> bool option" where
  "parseBoolValue text =
     (let normalized = toLowerCopy (trimCopy text)
      in if normalized = ''true'' \<or> normalized = ''1'' \<or> normalized = ''yes'' \<or> normalized = ''on'' then Some True
         else if normalized = ''false'' \<or> normalized = ''0'' \<or> normalized = ''no'' \<or> normalized = ''off''
         then Some False
         else None)"

text \<open>\<open>std::stoll\<close> in base 10: white space, an optional sign, then the longest run of digits; the value and
  the number of characters consumed. No digits, or a value outside 64 bits, is an exception.\<close>

definition stoll :: "string \<Rightarrow> (int \<times> nat) option" where
  "stoll text =
     (let body = dropWhile isspace text;
          negative = (body \<noteq> [] \<and> hd body = cMinus);
          unsigned = (if body \<noteq> [] \<and> (hd body = cMinus \<or> hd body = cPlus) then tl body else body);
          digits = takeWhile isdigit unsigned;
          number = int (num_value 10 decDigit 0 digits);
          number = (if negative then - number else number)
      in if digits = [] then None
         else if number < - (2 ^ 63) \<or> number \<ge> 2 ^ 63 then None
         else Some (number, length text - length (dropWhile isdigit unsigned)))"

definition parseIntegerStrict :: "string \<Rightarrow> int option" where
  "parseIntegerStrict text =
     (let trimmed = trimCopy text
      in if trimmed = [] then None
         else case stoll trimmed of
           None \<Rightarrow> None
         | Some (number, consumed) \<Rightarrow> if consumed \<noteq> length trimmed then None else Some number)"

text \<open>\<open>stod\<close> is the standard library's conversion, with the number of characters it consumes.\<close>

definition parseDoubleStrict :: "(string \<Rightarrow> ('d \<times> nat) option) \<Rightarrow> string \<Rightarrow> 'd option" where
  "parseDoubleStrict stod text =
     (let trimmed = trimCopy text
      in if trimmed = [] then None
         else case stod trimmed of
           None \<Rightarrow> None
         | Some (number, consumed) \<Rightarrow> if consumed \<noteq> length trimmed then None else Some number)"

definition toEnvironmentKey :: "string \<Rightarrow> string" where
  "toEnvironmentKey optionName =
     concat (map (\<lambda>i.
       let current = optionName ! i;
           previousLower = (i > 0 \<and> islower (optionName ! (i - 1)));
           nextLower = (i + 1 < length optionName \<and> islower (optionName ! (i + 1)))
       in (if i > 0 \<and> isupper current \<and> (previousLower \<or> nextLower) then [cUnderscore] else []) @ [toupper current])
       [0..<length optionName])"

fun stripInlineComment_loop :: "string \<Rightarrow> nat \<Rightarrow> bool \<Rightarrow> string \<Rightarrow> string" where
  "stripInlineComment_loop line i inQuotes [] = trimCopy line"
| "stripInlineComment_loop line i inQuotes (ch # rest) =
     (if ch = cQuote then stripInlineComment_loop line (i + 1) (\<not> inQuotes) rest
      else if inQuotes then stripInlineComment_loop line (i + 1) inQuotes rest
      else if (ch = cHash \<or> ch = cSemicolon) \<and> (i = 0 \<or> isspace (line ! (i - 1))) then trimCopy (take i line)
      else stripInlineComment_loop line (i + 1) inQuotes rest)"

definition stripInlineComment :: "string \<Rightarrow> string" where
  "stripInlineComment line = stripInlineComment_loop line 0 False line"

subsection \<open>The configuration object\<close>

type_synonym conf_map = "(conf_option, string) omap"

record conf =
  options :: conf_map
  explicitOptions :: "conf_option set"

definition optionToString :: "conf_option \<Rightarrow> string" where
  "optionToString opt = (case find (\<lambda>entry. fst entry = opt) kOptionEntries of None \<Rightarrow> [] | Some entry \<Rightarrow> snd entry)"

definition stringToOption :: "string \<Rightarrow> conf_option option" where
  "stringToOption text =
     (let normalized = canonicalizeOptionName text
      in if normalized = [] then None
         else map_option fst (find (\<lambda>entry. canonicalizeOptionName (snd entry) = normalized) kOptionEntries))"

definition in_range :: "string \<Rightarrow> int \<Rightarrow> int \<Rightarrow> bool" where
  "in_range text lo hi = (case parseIntegerStrict text of None \<Rightarrow> False | Some number \<Rightarrow> lo \<le> number \<and> number \<le> hi)"

fun validateOption :: "conf_option \<Rightarrow> string \<Rightarrow> bool" where
  "validateOption MaxConnections text = in_range text 1 100000"
| "validateOption ConnectionTimeout text = in_range text 0 3600000"
| "validateOption ReadTimeout text = in_range text 0 3600000"
| "validateOption WriteTimeout text = in_range text 0 3600000"
| "validateOption ThreadIdleTimeout text = in_range text 0 3600000"
| "validateOption HealthCheckInterval text = in_range text 0 3600000"
| "validateOption RecoveryTimeout text = in_range text 0 3600000"
| "validateOption WebSocketPingInterval text = in_range text 0 3600000"
| "validateOption WebSocketPongTimeout text = in_range text 0 3600000"
| "validateOption PerformanceReportInterval text = in_range text 0 3600000"
| "validateOption ThreadPoolSize text = in_range text 1 256"
| "validateOption BufferSize text = in_range text 1024 10485760"
| "validateOption MaxBufferSize text = in_range text 1024 10485760"
| "validateOption MaxHttpRequestSize text = in_range text 1024 104857600"
| "validateOption MaxHttpResponseSize text = in_range text 1024 104857600"
| "validateOption CompressionLevel text = in_range text 0 9"
| "validateOption FailureThreshold text = in_range text 1 100"
| "validateOption HalfOpenAttempts text = in_range text 1 100"
| "validateOption EnableSSL text = (parseBoolValue text \<noteq> None)"
| "validateOption VerifyPeer text = (parseBoolValue text \<noteq> None)"
| "validateOption EnableCompression text = (parseBoolValue text \<noteq> None)"
| "validateOption EnablePerformanceMonitoring text = (parseBoolValue text \<noteq> None)"
| "validateOption CircuitBreakerEnabled text = (parseBoolValue text \<noteq> None)"
| "validateOption LogLevel text =
     (toUpperCopy (trimCopy text) \<in> set [''TRACE'', ''DEBUG'', ''INFO'', ''WARN'', ''ERROR'', ''FATAL''])"
| "validateOption LoadBalancingStrategy text =
     (canonicalizeOptionName text \<in>
        set [''roundrobin'', ''random'', ''leastconnections'', ''weightedroundrobin'', ''iphash''])"
| "validateOption LogFilePath text = True"
| "validateOption CertificateFile text = True"
| "validateOption PrivateKeyFile text = True"
| "validateOption CAFile text = True"

definition put_explicit :: "conf_option \<Rightarrow> string \<Rightarrow> conf \<Rightarrow> conf" where
  "put_explicit opt text c =
     c\<lparr>options := omap_put opt text (options c), explicitOptions := insert opt (explicitOptions c)\<rparr>"

definition populateDefaults :: "conf \<Rightarrow> conf" where
  "populateDefaults c =
     c\<lparr>options := foldl (\<lambda>m (opt, text). omap_put opt text m) [] kDefaultOptionValues, explicitOptions := {}\<rparr>"

definition conf_new :: conf where
  "conf_new = populateDefaults \<lparr>options = [], explicitOptions = {}\<rparr>"

definition conf_copy :: "conf \<Rightarrow> conf" where
  "conf_copy other = \<lparr>options = options other, explicitOptions = explicitOptions other\<rparr>"

definition conf_assign :: "conf \<Rightarrow> conf \<Rightarrow> conf" where
  "conf_assign this other = this\<lparr>options := options other, explicitOptions := explicitOptions other\<rparr>"

subsection \<open>Reading and writing values\<close>

definition getString :: "conf \<Rightarrow> conf_option \<Rightarrow> string \<Rightarrow> string" where
  "getString c opt dflt = (case map_of (options c) opt of None \<Rightarrow> dflt | Some text \<Rightarrow> text)"

definition getInt :: "conf \<Rightarrow> conf_option \<Rightarrow> int \<Rightarrow> int" where
  "getInt c opt dflt =
     (case map_of (options c) opt of
        None \<Rightarrow> dflt
      | Some text \<Rightarrow>
          (case parseIntegerStrict text of
             None \<Rightarrow> dflt
           | Some number \<Rightarrow> if number < - (2 ^ 31) \<or> number > 2 ^ 31 - 1 then dflt else number))"

definition getBool :: "conf \<Rightarrow> conf_option \<Rightarrow> bool \<Rightarrow> bool" where
  "getBool c opt dflt =
     (case map_of (options c) opt of
        None \<Rightarrow> dflt
      | Some text \<Rightarrow> (case parseBoolValue text of None \<Rightarrow> dflt | Some b \<Rightarrow> b))"

definition getDouble :: "(string \<Rightarrow> ('d \<times> nat) option) \<Rightarrow> conf \<Rightarrow> conf_option \<Rightarrow> 'd \<Rightarrow> 'd" where
  "getDouble stod c opt dflt =
     (case map_of (options c) opt of
        None \<Rightarrow> dflt
      | Some text \<Rightarrow> (case parseDoubleStrict stod text of None \<Rightarrow> dflt | Some number \<Rightarrow> number))"

definition conf_set :: "conf_option \<Rightarrow> string \<Rightarrow> conf \<Rightarrow> conf" where
  "conf_set opt text c = put_explicit opt (trimCopy text) c"

definition conf_set_cstr :: "conf_option \<Rightarrow> string option \<Rightarrow> conf \<Rightarrow> conf" where
  "conf_set_cstr opt text c = conf_set opt (case text of None \<Rightarrow> [] | Some s \<Rightarrow> s) c"

definition conf_set_int :: "conf_option \<Rightarrow> int \<Rightarrow> conf \<Rightarrow> conf" where
  "conf_set_int opt number c = conf_set opt (appendSignedDecimal [] number) c"

definition conf_set_bool :: "conf_option \<Rightarrow> bool \<Rightarrow> conf \<Rightarrow> conf" where
  "conf_set_bool opt b c = conf_set opt (if b then ''true'' else ''false'') c"

definition conf_set_double :: "('d \<Rightarrow> string) \<Rightarrow> conf_option \<Rightarrow> 'd \<Rightarrow> conf \<Rightarrow> conf" where
  "conf_set_double to_string opt number c = conf_set opt (to_string number) c"

definition conf_has :: "conf \<Rightarrow> conf_option \<Rightarrow> bool" where
  "conf_has c opt \<longleftrightarrow> opt \<in> explicitOptions c"

definition conf_validate :: "conf \<Rightarrow> bool" where
  "conf_validate c = list_all (\<lambda>(opt, text). validateOption opt text) (options c)"

definition conf_remove :: "conf_option \<Rightarrow> conf \<Rightarrow> conf" where
  "conf_remove opt c =
     (let c = c\<lparr>explicitOptions := explicitOptions c - {opt}\<rparr>
      in case getDefaultOptionValue opt of
           Some text \<Rightarrow> c\<lparr>options := omap_put opt text (options c)\<rparr>
         | None \<Rightarrow> c\<lparr>options := omap_erase opt (options c)\<rparr>)"

definition conf_clear :: "conf \<Rightarrow> conf" where
  "conf_clear c = populateDefaults c"

definition getAllKeys :: "conf \<Rightarrow> string set" where
  "getAllKeys c = set (map (\<lambda>entry. optionToString (fst entry)) (options c))"

subsection \<open>Merging\<close>

datatype MergeMode = OverrideExisting | PreserveExisting

definition merge_step :: "MergeMode \<Rightarrow> conf_map \<Rightarrow> conf \<Rightarrow> conf_option \<Rightarrow> conf" where
  "merge_step mode otherValues c opt =
     (case map_of otherValues opt of
        None \<Rightarrow> c
      | Some text \<Rightarrow>
          if \<not> validateOption opt text then c
          else if mode = PreserveExisting \<and> opt \<in> explicitOptions c then c
          else put_explicit opt text c)"

text \<open>The loop visits the explicit options of the other object in the order of the enumeration.\<close>

definition conf_merge :: "MergeMode \<Rightarrow> conf \<Rightarrow> conf \<Rightarrow> conf" where
  "conf_merge mode other c =
     foldl (merge_step mode (options other)) c (filter (\<lambda>opt. opt \<in> explicitOptions other) all_options)"

subsection \<open>Files and environment variables\<close>

text \<open>The lines \<open>std::getline\<close> delivers.\<close>

function getlines :: "string \<Rightarrow> string list" where
  "getlines content =
     (if content = [] then []
      else case find_pred (\<lambda>c. c = LF) content of
        None \<Rightarrow> [content]
      | Some i \<Rightarrow> take i content # getlines (drop (i + 1) content))"
  by pat_completeness auto
termination
  by (relation "measure length") (auto dest: find_pred_less)

declare getlines.simps [simp del]

definition strip_bom :: "string \<Rightarrow> string" where
  "strip_bom line =
     (if length line \<ge> 3 \<and> code_of (line ! 0) = 0xEF \<and> code_of (line ! 1) = 0xBB \<and> code_of (line ! 2) = 0xBF
      then drop 3 line else line)"

fun parseConfigFile_lines :: "string list \<Rightarrow> conf_map \<Rightarrow> bool \<times> conf_map" where
  "parseConfigFile_lines [] parsed = (True, parsed)"
| "parseConfigFile_lines (line # lines) parsed =
     (let stripped = stripInlineComment (strip_bom line)
      in if stripped = [] then parseConfigFile_lines lines parsed
         else case find_pred (\<lambda>c. c = cEquals) stripped of
           None \<Rightarrow> parseConfigFile_lines lines parsed
         | Some separator \<Rightarrow>
             let key = trimCopy (take separator stripped);
                 text = trimCopy (drop (separator + 1) stripped)
             in (case stringToOption key of
                   None \<Rightarrow> parseConfigFile_lines lines parsed
                 | Some opt \<Rightarrow>
                     if \<not> validateOption opt text then (False, parsed)
                     else parseConfigFile_lines lines (omap_put opt text parsed)))"

definition parseConfigFile :: "string \<Rightarrow> bool \<times> conf_map" where
  "parseConfigFile content = parseConfigFile_lines (getlines content) []"

definition conf_serialize :: "conf \<Rightarrow> string" where
  "conf_serialize c = concat (map (\<lambda>(opt, text). optionToString opt @ [cEquals] @ text @ [LF]) (options c))"

definition put_all :: "conf_map \<Rightarrow> conf \<Rightarrow> conf" where
  "put_all parsed c = foldl (\<lambda>c (opt, text). put_explicit opt text c) c parsed"

definition loadFromFile :: "string option \<Rightarrow> conf \<Rightarrow> bool \<times> conf" where
  "loadFromFile file c =
     (case file of
        None \<Rightarrow> (False, c)
      | Some content \<Rightarrow>
          (case parseConfigFile content of
             (False, _) \<Rightarrow> (False, c)
           | (True, parsed) \<Rightarrow> (True, put_all parsed c)))"

text \<open>\<open>writable\<close> says whether the output file can be opened and written; the second component is its content.\<close>

definition saveToFile :: "bool \<Rightarrow> conf \<Rightarrow> bool \<times> string option" where
  "saveToFile writable c = (if \<not> writable then (False, None) else (True, Some (conf_serialize c)))"

definition env_candidates :: "string \<Rightarrow> string \<Rightarrow> string list" where
  "env_candidates prefix optionName =
     (let upperName = toUpperCopy optionName; snakeName = toEnvironmentKey optionName
      in (if prefix \<noteq> [] then [prefix @ snakeName, prefix @ upperName] else []) @ [snakeName, upperName])"

definition env_step :: "(string \<Rightarrow> string option) \<Rightarrow> string \<Rightarrow> conf_map \<Rightarrow> conf_option \<times> string \<Rightarrow> conf_map" where
  "env_step env prefix parsed = (\<lambda>(opt, optionName).
     case List.map_filter env (env_candidates prefix optionName) of
       [] \<Rightarrow> parsed
     | found # _ \<Rightarrow>
         let trimmedValue = trimCopy found
         in if validateOption opt trimmedValue then omap_put opt trimmedValue parsed else parsed)"

definition loadFromEnvironment :: "(string \<Rightarrow> string option) \<Rightarrow> string \<Rightarrow> conf \<Rightarrow> conf" where
  "loadFromEnvironment env prefix c = put_all (foldl (env_step env prefix) [] kOptionEntries) c"

subsection \<open>Option names\<close>

lemma all_options_UNIV: "set all_options = UNIV"
proof -
  have "x \<in> set all_options" for x
    by (cases x) (simp_all add: all_options_def)
  then show ?thesis by blast
qed

lemma canonical_names:
  "map (\<lambda>entry. canonicalizeOptionName (snd entry)) kOptionEntries =
     [''maxconnections'', ''connectiontimeout'', ''readtimeout'', ''writetimeout'',
      ''threadpoolsize'', ''threadidletimeout'', ''buffersize'', ''maxbuffersize'', ''loglevel'',
      ''logfilepath'', ''enablessl'', ''certificatefile'', ''privatekeyfile'', ''cafile'',
      ''verifypeer'', ''maxhttprequestsize'', ''maxhttpresponsesize'', ''enablecompression'',
      ''compressionlevel'', ''websocketpinginterval'', ''websocketpongtimeout'',
      ''enableperformancemonitoring'', ''performancereportinterval'', ''loadbalancingstrategy'',
      ''healthcheckinterval'', ''circuitbreakerenabled'', ''failurethreshold'', ''recoverytimeout'',
      ''halfopenattempts'']"
  by (simp add: canonicalizeOptionName_def kOptionEntries_def ctype_simps char_of_def bit_0)

lemma canonical_names_distinct: "distinct (map (\<lambda>entry. canonicalizeOptionName (snd entry)) kOptionEntries)"
  unfolding canonical_names by simp

lemma option_entry: "(opt, optionToString opt) \<in> set kOptionEntries"
  by (cases opt) (simp_all add: optionToString_def kOptionEntries_def)

lemma entry_names: "list_all (\<lambda>entry. snd entry \<noteq> [] \<and> list_all isalnum (snd entry)) kOptionEntries"
  by (simp add: kOptionEntries_def ctype_simps)

lemma option_name_chars: "optionToString opt \<noteq> []" "list_all isalnum (optionToString opt)"
  using entry_names option_entry [of opt] by (auto simp: list_all_iff)

lemma find_key:
  "distinct (map f xs) \<Longrightarrow> x \<in> set xs \<Longrightarrow> find (\<lambda>y. f y = f x) xs = Some x"
  by (induction xs) force+

lemma canonical_not_Nil: "entry \<in> set kOptionEntries \<Longrightarrow> canonicalizeOptionName (snd entry) \<noteq> []"
proof -
  assume "entry \<in> set kOptionEntries"
  then have "canonicalizeOptionName (snd entry) \<in> set (map (\<lambda>entry. canonicalizeOptionName (snd entry)) kOptionEntries)"
    by simp
  then show ?thesis unfolding canonical_names by auto
qed

lemma stringToOption_name: "stringToOption (optionToString opt) = Some opt"
  using find_key [OF canonical_names_distinct option_entry [of opt]] canonical_not_Nil [OF option_entry [of opt]]
  by (simp add: stringToOption_def)

lemma conf_new_options: "options conf_new = kDefaultOptionValues" "explicitOptions conf_new = {}"
proof -
  have "omap_inv kDefaultOptionValues"
    by (simp add: omap_inv_def kDefaultOptionValues_def less_conf_option_def)
  then show "options conf_new = kDefaultOptionValues"
    by (simp add: conf_new_def populateDefaults_def fold_put_id)
  show "explicitOptions conf_new = {}" by (simp add: conf_new_def populateDefaults_def)
qed

subsection \<open>Validity\<close>

lemmas conf_eval =
  in_range_def parseIntegerStrict_def stoll_def trimCopy_def is_blank_def char_consts cMinus_def num_value_def
  decDigit_def ctype_simps parseBoolValue_def toLowerCopy_def toUpperCopy_def canonicalizeOptionName_def
  char_of_def bit_0

lemma defaults_valid: "list_all (\<lambda>(opt, text). validateOption opt text) kDefaultOptionValues"
  by (simp add: kDefaultOptionValues_def conf_eval)

definition map_valid :: "conf_map \<Rightarrow> bool" where
  "map_valid m \<longleftrightarrow> (\<forall>(opt, text) \<in> set m. validateOption opt text)"

lemma conf_validate_iff: "conf_validate c \<longleftrightarrow> map_valid (options c)"
  by (simp add: conf_validate_def map_valid_def list_all_iff)

lemma map_valid_simps [simp]:
  "map_valid []" "map_valid (e # m) \<longleftrightarrow> validateOption (fst e) (snd e) \<and> map_valid m"
  by (auto simp: map_valid_def)

lemma set_omap_put: "set (omap_put k v m) \<subseteq> insert (k, v) (set m)"
  by (induction k v m rule: omap_put.induct) auto

lemma map_valid_put: "map_valid m \<Longrightarrow> validateOption opt text \<Longrightarrow> map_valid (omap_put opt text m)"
  using set_omap_put [of opt "text" m] by (auto simp: map_valid_def)

lemma map_valid_defaults: "map_valid kDefaultOptionValues"
  using defaults_valid by (simp add: map_valid_def list_all_iff)

lemma default_valid: "getDefaultOptionValue opt = Some text \<Longrightarrow> validateOption opt text"
  using map_valid_defaults
  by (auto simp: getDefaultOptionValue_def map_valid_def find_Some_iff dest!: nth_mem)

lemma options_put_all: "options (put_all parsed c) = foldl (\<lambda>m (opt, text). omap_put opt text m) (options c) parsed"
  by (induction parsed arbitrary: c) (auto simp: put_all_def put_explicit_def)

lemma explicit_put_all: "explicitOptions (put_all parsed c) = explicitOptions c \<union> fst ` set parsed"
  by (induction parsed arbitrary: c) (auto simp: put_all_def put_explicit_def)

lemma map_valid_fold:
  "map_valid m \<Longrightarrow> map_valid parsed \<Longrightarrow> map_valid (foldl (\<lambda>m (opt, text). omap_put opt text m) m parsed)"
proof (induction parsed arbitrary: m)
  case (Cons e parsed)
  then show ?case by (cases e) (simp add: map_valid_put)
qed simp

lemma map_valid_lines:
  "map_valid acc \<Longrightarrow> map_valid (snd (parseConfigFile_lines lines acc))"
proof (induction lines arbitrary: acc)
  case (Cons line lines)
  then show ?case
    by (auto simp: Let_def split: option.splits intro: map_valid_put)
qed simp

lemma omap_inv_lines: "omap_inv acc \<Longrightarrow> omap_inv (snd (parseConfigFile_lines lines acc))"
proof (induction lines arbitrary: acc)
  case (Cons line lines)
  then show ?case
    by (auto simp: Let_def split: option.splits intro: omap_inv_put)
qed simp

lemma map_valid_env:
  "map_valid m \<Longrightarrow> map_valid (foldl (env_step env prefix) m entries)"
proof (induction entries arbitrary: m)
  case (Cons e entries)
  have "map_valid (env_step env prefix m e)"
    using Cons.prems by (auto simp: env_step_def Let_def intro: map_valid_put split: prod.splits list.splits)
  with Cons.IH show ?case by simp
qed simp

lemma merge_step_valid: "map_valid (options c) \<Longrightarrow> map_valid (options (merge_step mode vals c opt))"
  by (auto simp: merge_step_def put_explicit_def split: option.splits intro: map_valid_put)

lemma merge_valid: "map_valid (options c) \<Longrightarrow> map_valid (options (foldl (merge_step mode vals) c opts))"
  by (induction opts arbitrary: c) (auto simp: merge_step_valid)

lemma loadFromFile_valid:
  assumes "conf_validate c"
  shows "conf_validate (snd (loadFromFile file c))"
proof (cases "file")
  case (Some content)
  obtain ok parsed where p: "parseConfigFile content = (ok, parsed)" by (cases "parseConfigFile content")
  then have "map_valid parsed"
    using map_valid_lines [of "[]" "getlines content"] by (simp add: parseConfigFile_def)
  with assms p Some show ?thesis
    by (auto simp: loadFromFile_def conf_validate_iff options_put_all map_valid_fold split: bool.splits)
qed (use assms in \<open>simp add: loadFromFile_def\<close>)

lemma map_of_fold_put:
  "distinct (map fst parsed) \<Longrightarrow>
   map_of (foldl (\<lambda>m (opt, text). omap_put opt text m) m parsed) = map_of m ++ map_of parsed"
proof (induction parsed arbitrary: m)
  case (Cons e parsed)
  obtain k v where e: "e = (k, v)" by (cases e)
  have "map_of parsed k = None" using Cons.prems by (simp add: e map_of_eq_None_iff)
  with Cons show ?case by (auto simp: e map_of_omap_put map_add_def fun_eq_iff split: option.splits)
qed simp

subsection \<open>The file format\<close>

definition plain_value :: "string \<Rightarrow> bool" where
  "plain_value v \<longleftrightarrow> trimCopy v = v \<and> LF \<notin> set v \<and> cQuote \<notin> set v \<and> cHash \<notin> set v \<and> cSemicolon \<notin> set v"

lemma getlines_line:
  assumes "LF \<notin> set l"
  shows "getlines (l @ LF # rest) = l # getlines rest"
proof -
  have "find_pred (\<lambda>c. c = LF) (l @ LF # rest) = Some (length l)"
    using assms by (intro find_pred_append_hit) auto
  then show ?thesis by (subst getlines.simps) simp
qed

lemma stripInlineComment_plain:
  assumes "cQuote \<notin> set line" "cHash \<notin> set line" "cSemicolon \<notin> set line"
  shows "stripInlineComment line = trimCopy line"
proof -
  have "set rest \<subseteq> set line \<Longrightarrow> stripInlineComment_loop line i False rest = trimCopy line" for i rest
    using assms by (induction rest arbitrary: i) auto
  then show ?thesis by (simp add: stripInlineComment_def)
qed

lemma dropWhile_hd: "xs \<noteq> [] \<Longrightarrow> \<not> P (hd xs) \<Longrightarrow> dropWhile P xs = xs"
  by (cases xs) auto

lemma trimCopy_id: "xs \<noteq> [] \<Longrightarrow> \<not> is_blank (hd xs) \<Longrightarrow> \<not> is_blank (last xs) \<Longrightarrow> trimCopy xs = xs"
  by (simp add: trimCopy_def dropWhile_hd hd_rev)

lemma trimCopy_ends: "trimCopy v = v \<Longrightarrow> v \<noteq> [] \<Longrightarrow> \<not> is_blank (last v)"
proof -
  assume v: "trimCopy v = v" "v \<noteq> []"
  then have "dropWhile is_blank (rev (dropWhile is_blank v)) = rev v" unfolding trimCopy_def by (metis rev_rev_ident)
  then have "\<not> is_blank (hd (rev v))" using v(2) by (metis hd_dropWhile rev_is_Nil_conv)
  then show ?thesis by (simp add: hd_rev v(2))
qed

lemma alnum_plain:
  "isalnum c \<Longrightarrow> \<not> is_blank c" "isalnum c \<Longrightarrow> c \<noteq> cEquals" "isalnum c \<Longrightarrow> c \<noteq> cQuote" "isalnum c \<Longrightarrow> c \<noteq> cHash"
  "isalnum c \<Longrightarrow> c \<noteq> cSemicolon" "isalnum c \<Longrightarrow> c \<noteq> LF" "isalnum c \<Longrightarrow> code_of c \<noteq> 0xEF"
  by (auto simp: ctype_simps is_blank_def char_consts cQuote_def)

lemma equals_plain: "\<not> is_blank cEquals" "cEquals \<noteq> cQuote" "cEquals \<noteq> cHash" "cEquals \<noteq> cSemicolon" "cEquals \<noteq> LF"
  by (auto simp: is_blank_def char_consts cQuote_def)

definition config_line :: "conf_option \<Rightarrow> string \<Rightarrow> string" where
  "config_line opt v = optionToString opt @ [cEquals] @ v"

lemma config_line_read:
  assumes "plain_value v"
  shows "LF \<notin> set (config_line opt v)" "stripInlineComment (strip_bom (config_line opt v)) = config_line opt v"
    "config_line opt v \<noteq> []" "find_pred (\<lambda>c. c = cEquals) (config_line opt v) = Some (length (optionToString opt))"
    "trimCopy (optionToString opt) = optionToString opt"
proof -
  let ?n = "optionToString opt" let ?l = "config_line opt v"
  have al: "c \<in> set ?n \<Longrightarrow> isalnum c" for c using option_name_chars(2) [of opt] by (simp add: list_all_iff)
  have ne: "?n \<noteq> []" by (rule option_name_chars(1))
  have hd: "isalnum (hd ?n)" "isalnum (last ?n)" using al ne by simp_all
  have v: "trimCopy v = v" "LF \<notin> set v" "cQuote \<notin> set v" "cHash \<notin> set v" "cSemicolon \<notin> set v"
    using assms by (simp_all add: plain_value_def)
  show "LF \<notin> set ?l" using v(2) equals_plain(5) alnum_plain(6) al by (auto simp: config_line_def)
  show "?l \<noteq> []" by (simp add: config_line_def)
  have "?l ! 0 = hd ?n" using ne by (cases ?n) (simp_all add: config_line_def)
  then have bom: "strip_bom ?l = ?l" using alnum_plain(7) [OF hd(1)] by (simp add: strip_bom_def)
  have "cQuote \<notin> set ?l" "cHash \<notin> set ?l" "cSemicolon \<notin> set ?l"
    using v equals_plain al alnum_plain(3-5) by (auto simp: config_line_def)
  then have "stripInlineComment ?l = trimCopy ?l" by (rule stripInlineComment_plain)
  also have "\<dots> = ?l"
  proof (rule trimCopy_id)
    show "\<not> is_blank (hd ?l)" using alnum_plain(1) [OF hd(1)] ne by (simp add: config_line_def)
    show "\<not> is_blank (last ?l)" using trimCopy_ends [OF v(1)] equals_plain(1) by (cases "v = []") (simp_all add: config_line_def)
  qed (simp add: config_line_def)
  finally show "stripInlineComment (strip_bom ?l) = ?l" by (simp add: bom)
  show "find_pred (\<lambda>c. c = cEquals) ?l = Some (length ?n)"
    unfolding config_line_def append_Cons append_Nil using al alnum_plain(2) by (intro find_pred_append_hit) auto
  show "trimCopy ?n = ?n" by (rule trimCopy_id [OF ne alnum_plain(1) [OF hd(1)] alnum_plain(1) [OF hd(2)]])
qed

lemma parse_config_line:
  assumes "plain_value v" "validateOption opt v"
  shows "parseConfigFile_lines (config_line opt v # lines) acc = parseConfigFile_lines lines (omap_put opt v acc)"
proof -
  note r = config_line_read [OF assms(1), of opt]
  have parts: "take (length (optionToString opt)) (config_line opt v) = optionToString opt"
      "drop (length (optionToString opt) + 1) (config_line opt v) = v"
    by (simp_all add: config_line_def)
  have "trimCopy v = v" using assms(1) by (simp add: plain_value_def)
  then show ?thesis
    unfolding parseConfigFile_lines.simps Let_def r(2,4) option.case parts r(5) stringToOption_name
    using r(3) assms(2) by simp
qed

lemma parse_config_lines:
  "\<forall>(opt, v) \<in> set m. plain_value v \<and> validateOption opt v \<Longrightarrow>
   parseConfigFile_lines (map (\<lambda>(opt, v). config_line opt v) m) acc = (True, foldl (\<lambda>m (opt, v). omap_put opt v m) acc m)"
proof (induction m arbitrary: acc)
  case (Cons e m)
  then show ?case by (cases e) (simp add: parse_config_line del: parseConfigFile_lines.simps(2))
qed simp

lemma getlines_serialize:
  "\<forall>(opt, v) \<in> set m. plain_value v \<Longrightarrow>
   getlines (concat (map (\<lambda>(opt, v). optionToString opt @ [cEquals] @ v @ [LF]) m)) = map (\<lambda>(opt, v). config_line opt v) m"
proof (induction m)
  case (Cons e m)
  obtain opt v where e: "e = (opt, v)" by (cases e)
  have "LF \<notin> set (config_line opt v)" using config_line_read(1) Cons.prems by (simp add: e)
  from getlines_line [OF this] Cons show ?case by (simp add: e config_line_def)
qed (simp add: getlines.simps)

lemma parse_serialize:
  assumes "omap_inv (options c)" "\<forall>(opt, v) \<in> set (options c). plain_value v \<and> validateOption opt v"
  shows "parseConfigFile (conf_serialize c) = (True, options c)"
  using getlines_serialize [of "options c"] parse_config_lines [OF assms(2), of "[]"] fold_put_id [OF assms(1)] assms(2)
  by (simp add: parseConfigFile_def conf_serialize_def case_prod_beta)

subsection \<open>Typed values\<close>

lemma digits_plain: "isdigit c \<Longrightarrow> \<not> is_blank c \<and> \<not> isspace c \<and> c \<noteq> cMinus \<and> c \<noteq> cPlus"
  by (auto simp: ctype_simps is_blank_def char_consts cMinus_def)

lemma minus_plain: "\<not> is_blank cMinus" "\<not> isspace cMinus"
  by (auto simp: ctype_simps is_blank_def char_consts cMinus_def)

lemma parseInteger_digits:
  assumes "ds \<noteq> []" "list_all isdigit ds" "int (num_value 10 decDigit 0 ds) < 2 ^ 63"
  shows "parseIntegerStrict ds = Some (int (num_value 10 decDigit 0 ds))"
    "parseIntegerStrict (cMinus # ds) = Some (- int (num_value 10 decDigit 0 ds))"
proof -
  have d: "isdigit (hd ds)" "isdigit (last ds)" using assms(1,2) by (simp_all add: list_all_iff)
  have tw: "takeWhile isdigit ds = ds" "dropWhile isdigit ds = []" using assms(2) by (simp_all add: list_all_iff)
  have "trimCopy ds = ds" using digits_plain [OF d(1)] digits_plain [OF d(2)] assms(1) by (intro trimCopy_id) simp_all
  moreover have "dropWhile isspace ds = ds" using digits_plain [OF d(1)] assms(1) by (intro dropWhile_hd) simp_all
  ultimately show "parseIntegerStrict ds = Some (int (num_value 10 decDigit 0 ds))"
    using assms(1,3) digits_plain [OF d(1)] by (simp add: parseIntegerStrict_def stoll_def Let_def tw)
  have "trimCopy (cMinus # ds) = cMinus # ds"
    using minus_plain digits_plain [OF d(2)] assms(1) by (intro trimCopy_id) simp_all
  then show "parseIntegerStrict (cMinus # ds) = Some (- int (num_value 10 decDigit 0 ds))"
    using assms(1,3) minus_plain by (simp add: parseIntegerStrict_def stoll_def Let_def tw)
qed

lemma parseInteger_decimal:
  assumes "- (2 ^ 63) < n" "n < 2 ^ 63"
  shows "parseIntegerStrict (appendSignedDecimal [] n) = Some n"
proof -
  let ?d = "\<lambda>n. to_chars 10 (nat n)"
  have v: "num_value 10 decDigit 0 (?d k) = nat k" "?d k \<noteq> []" "list_all isdigit (?d k)" for k
    using num_value_to_chars [of 10 decDigit "nat k"] to_chars_10_digits [of _ "nat k"] by (auto simp: list_all_iff)
  show ?thesis
  proof (cases "n < 0")
    case True
    then show ?thesis
      using parseInteger_digits(2) [OF v(2,3), of "- n"] v(1) [of "- n"] assms
      by (simp add: appendSignedDecimal_def flip: cMinus_def)
  next
    case False
    then show ?thesis
      using parseInteger_digits(1) [OF v(2,3), of n] v(1) [of n] assms by (simp add: appendSignedDecimal_def)
  qed
qed

lemma trimCopy_idem [simp]: "trimCopy (trimCopy s) = trimCopy s"
proof (cases "trimCopy s = []")
  case False
  let ?t = "dropWhile is_blank s"
  have e: "trimCopy s = rev (dropWhile is_blank (rev ?t))" by (simp add: trimCopy_def)
  have ne: "dropWhile is_blank (rev ?t) \<noteq> []" using False e by simp
  have "\<not> is_blank (last (trimCopy s))" unfolding e last_rev using hd_dropWhile [OF ne] ne by (simp add: hd_rev)
  moreover have "hd (trimCopy s) = hd ?t"
  proof -
    obtain ys where "?t = trimCopy s @ ys"
      unfolding e by (metis rev_append rev_rev_ident takeWhile_dropWhile_id)
    then show ?thesis using False by simp
  qed
  then have "\<not> is_blank (hd (trimCopy s))" using hd_dropWhile [of is_blank s] ne by fastforce
  ultimately show ?thesis using trimCopy_id [OF False] by blast
qed (simp add: trimCopy_def [of "[]"])

lemma parseInteger_trim [simp]: "parseIntegerStrict (trimCopy s) = parseIntegerStrict s"
  by (simp add: parseIntegerStrict_def)

lemma parseBool_trim [simp]: "parseBoolValue (trimCopy s) = parseBoolValue s"
  by (simp add: parseBoolValue_def)

lemma map_of_conf_set: "map_of (options (conf_set opt s c)) = (map_of (options c))(opt \<mapsto> trimCopy s)"
  by (simp add: conf_set_def put_explicit_def map_of_omap_put)

text \<open>The numeric options and their ranges.\<close>

definition option_bounds :: "(conf_option \<times> int \<times> int) list" where
  "option_bounds =
     [(MaxConnections, 1, 100000), (ConnectionTimeout, 0, 3600000), (ReadTimeout, 0, 3600000),
      (WriteTimeout, 0, 3600000), (ThreadPoolSize, 1, 256), (ThreadIdleTimeout, 0, 3600000),
      (BufferSize, 1024, 10485760), (MaxBufferSize, 1024, 10485760), (MaxHttpRequestSize, 1024, 104857600),
      (MaxHttpResponseSize, 1024, 104857600), (CompressionLevel, 0, 9), (WebSocketPingInterval, 0, 3600000),
      (WebSocketPongTimeout, 0, 3600000), (PerformanceReportInterval, 0, 3600000),
      (HealthCheckInterval, 0, 3600000), (FailureThreshold, 1, 100), (RecoveryTimeout, 0, 3600000),
      (HalfOpenAttempts, 1, 100)]"

lemma option_bounds_valid:
  "map_of option_bounds opt = Some (lo, hi) \<Longrightarrow> validateOption opt s = in_range s lo hi \<and> - (2 ^ 31) \<le> lo \<and> hi < 2 ^ 31"
  by (cases opt) (simp_all add: option_bounds_def)

lemma getInt_in_bounds:
  assumes "map_valid (options c)" "map_of (options c) opt = Some s" "map_of option_bounds opt = Some (lo, hi)"
  shows "lo \<le> getInt c opt dflt \<and> getInt c opt dflt \<le> hi"
proof -
  have "validateOption opt s" using map_of_SomeD [OF assms(2)] assms(1) by (auto simp: map_valid_def)
  then obtain n where "parseIntegerStrict s = Some n" "lo \<le> n" "n \<le> hi"
    using option_bounds_valid [OF assms(3), of s] by (auto simp: in_range_def split: option.splits)
  then show ?thesis using option_bounds_valid [OF assms(3), of s] assms(2) by (simp add: getInt_def)
qed

subsection \<open>Merging\<close>

definition merge_takes :: "MergeMode \<Rightarrow> conf_map \<Rightarrow> conf_option set \<Rightarrow> conf_option \<Rightarrow> bool" where
  "merge_takes mode vals own opt \<longleftrightarrow>
     (case map_of vals opt of None \<Rightarrow> False | Some s \<Rightarrow> validateOption opt s) \<and> (mode = PreserveExisting \<longrightarrow> opt \<notin> own)"

lemma merge_fold_lookup:
  "distinct opts \<Longrightarrow>
   map_of (options (foldl (merge_step mode vals) c opts)) opt =
     (if opt \<in> set opts \<and> merge_takes mode vals (explicitOptions c) opt then map_of vals opt else map_of (options c) opt) \<and>
   (opt \<in> explicitOptions (foldl (merge_step mode vals) c opts) \<longleftrightarrow>
     opt \<in> explicitOptions c \<or> opt \<in> set opts \<and> merge_takes mode vals (explicitOptions c) opt)"
proof (induction opts arbitrary: c)
  case (Cons x opts)
  let ?c = "merge_step mode vals c x"
  have other: "merge_takes mode vals (explicitOptions ?c) y = merge_takes mode vals (explicitOptions c) y"
      "map_of (options ?c) y = map_of (options c) y" "y \<in> explicitOptions ?c \<longleftrightarrow> y \<in> explicitOptions c" if "y \<noteq> x" for y
    using that by (auto simp: merge_step_def merge_takes_def put_explicit_def map_of_omap_put split: option.splits)
  have same: "map_of (options ?c) x =
        (if merge_takes mode vals (explicitOptions c) x then map_of vals x else map_of (options c) x)"
      "x \<in> explicitOptions ?c \<longleftrightarrow> x \<in> explicitOptions c \<or> merge_takes mode vals (explicitOptions c) x"
    by (auto simp: merge_step_def merge_takes_def put_explicit_def map_of_omap_put split: option.splits)
  show ?case
    using Cons.IH [of ?c] Cons.prems other [of opt] same by (cases "opt = x") simp_all
qed simp

subsection \<open>Properties\<close>

lemma all_options_distinct: "distinct all_options"
  by (simp add: all_options_def)

lemma getBool_set: "getBool (conf_set_bool opt b c) opt dflt = b"
proof -
  have "parseBoolValue ''true'' = Some True" "parseBoolValue ''false'' = Some False"
    by (simp_all add: conf_eval)
  then show ?thesis by (simp add: getBool_def conf_set_bool_def map_of_conf_set)
qed

lemma defaults_plain: "\<forall>(opt, v) \<in> set kDefaultOptionValues. plain_value v"
  by (simp add: kDefaultOptionValues_def plain_value_def conf_eval cQuote_def)

lemma defaults_sorted: "omap_inv kDefaultOptionValues"
  by (simp add: omap_inv_def kDefaultOptionValues_def less_conf_option_def)



text \<open>C21: The default configuration is valid, and loading a file, loading the environment, merging, removing an option
  and clearing keep a valid configuration valid, whatever the file, the variables or the other configuration contain;
  a load that fails changes nothing.\<close>

theorem config_stays_valid:
  assumes "conf_validate c"
  shows "conf_validate conf_new \<and> conf_validate (snd (loadFromFile file c)) \<and>
    (fst (loadFromFile file c) \<or> snd (loadFromFile file c) = c) \<and>
    conf_validate (loadFromEnvironment env prefix c) \<and> conf_validate (conf_merge mode other c) \<and>
    conf_validate (conf_remove opt c) \<and> conf_validate (conf_clear c)"
proof -
  have c: "map_valid (options c)" using assms by (simp add: conf_validate_iff)
  have "conf_validate conf_new" by (simp add: conf_validate_iff conf_new_options map_valid_defaults)
  moreover have "conf_validate (conf_clear c)"
    using fold_put_id [OF defaults_sorted]
    by (simp add: conf_validate_iff conf_clear_def populateDefaults_def map_valid_defaults)
  moreover have "fst (loadFromFile file c) \<or> snd (loadFromFile file c) = c"
    by (auto simp: loadFromFile_def split: option.split prod.split bool.split)
  moreover have "conf_validate (loadFromEnvironment env prefix c)"
    using map_valid_fold [OF c map_valid_env [of "[]"]]
    by (simp add: conf_validate_iff loadFromEnvironment_def options_put_all)
  moreover have "conf_validate (conf_merge mode other c)"
    using merge_valid [OF c] by (simp add: conf_validate_iff conf_merge_def)
  moreover have "conf_validate (conf_remove opt c)"
    using c default_valid [of opt]
    by (auto simp: conf_validate_iff conf_remove_def Let_def omap_erase_def map_valid_def [of "filter _ _"]
        split: option.split intro: map_valid_put) (auto simp: map_valid_def)
  ultimately show ?thesis using loadFromFile_valid [OF assms] by blast
qed

theorem config_stays_valid_witness:
  "conf_validate conf_new \<and> conf_validate (snd (loadFromFile (Some ''ReadTimeout=-5'') conf_new))"
proof -
  have "conf_validate conf_new" by (simp add: conf_validate_iff conf_new_options map_valid_defaults)
  from config_stays_valid [OF this] this show ?thesis by blast
qed

text \<open>C28: Typed access is exact: an \<open>int\<close> or \<open>bool\<close> that was set is read back, and every numeric option of a valid
  configuration is read within the range its validation allows, never as the default argument out of that range.\<close>

theorem config_typed_values:
  assumes "- (2 ^ 31) \<le> n" "n < 2 ^ 31" "conf_validate c" "map_of (options c) opt = Some s"
    "map_of option_bounds opt = Some (lo, hi)"
  shows "getInt (conf_set_int o1 n c) o1 dflt = n \<and> getBool (conf_set_bool o2 b c) o2 dflt2 = b \<and>
    lo \<le> getInt c opt dflt \<and> getInt c opt dflt \<le> hi"
proof -
  have "getInt (conf_set_int o1 n c) o1 dflt = n"
    using parseInteger_decimal [of n] assms(1,2) by (simp add: getInt_def conf_set_int_def map_of_conf_set)
  then show ?thesis
    using getBool_set getInt_in_bounds [OF _ assms(4,5)] assms(3) by (simp add: conf_validate_iff)
qed

theorem config_typed_values_witness:
  "getInt (conf_set_int ThreadPoolSize (- 7) conf_new) ThreadPoolSize 0 = - 7 \<and>
   getInt conf_new FailureThreshold 1000 \<le> 100"
proof -
  have "conf_validate conf_new" by (simp add: conf_validate_iff conf_new_options map_valid_defaults)
  moreover have "map_of (options conf_new) FailureThreshold = Some ''5''"
    by (simp add: conf_new_options kDefaultOptionValues_def)
  moreover have "map_of option_bounds FailureThreshold = Some (1, 100)" by (simp add: option_bounds_def)
  ultimately show ?thesis
    using config_typed_values [where n = "- 7" and c = conf_new and opt = FailureThreshold and s = "''5''" and lo = 1
        and hi = 100 and ?o1.0 = ThreadPoolSize and dflt = 0]
      config_typed_values [where n = "- 7" and c = conf_new and opt = FailureThreshold and s = "''5''" and lo = 1
        and hi = 100 and dflt = 1000] by simp
qed

text \<open>Merging takes over exactly the options the other configuration has set explicitly to valid values, except,
  when existing values are preserved, those this configuration has set explicitly; all others keep their value, and
  the set of explicit options grows by exactly the ones taken over.\<close>

theorem config_merge_effect:
  "map_of (options (conf_merge mode other c)) opt =
     (if opt \<in> explicitOptions other \<and> merge_takes mode (options other) (explicitOptions c) opt
      then map_of (options other) opt else map_of (options c) opt) \<and>
   (opt \<in> explicitOptions (conf_merge mode other c) \<longleftrightarrow>
     opt \<in> explicitOptions c \<or>
     opt \<in> explicitOptions other \<and> merge_takes mode (options other) (explicitOptions c) opt)"
proof -
  let ?opts = "filter (\<lambda>opt. opt \<in> explicitOptions other) all_options"
  have "distinct ?opts" "opt \<in> set ?opts \<longleftrightarrow> opt \<in> explicitOptions other"
    using all_options_distinct all_options_UNIV by auto
  with merge_fold_lookup [of ?opts mode "options other" c opt] show ?thesis
    by (simp add: conf_merge_def all_options_UNIV)
qed

end
