(* ===== verification/Connection_Manager.thy ===== *)
theory Connection_Manager
  imports Configuration "HOL-Library.AList"
begin

text \<open>
  \<open>src/src/ConnectionManager.cpp\<close> and \<open>src/include/FastNet/ConnectionManager.h\<close>: the pool of
  logical connections per service, with load balancing over backends, health tracking and a circuit breaker.

  The record \<open>cm\<close> is the class's \<open>Impl\<close>. The two hash maps are association lists with distinct keys
  (in the order their elements are iterated); \<open>ServiceState\<close>, \<open>BackendServer\<close>,
  \<open>ConnectionInfo\<close> and the statistics are records with the fields of the structures. Time points of the
  steady clock are integers in nanoseconds and arguments of the operations that read the clock; the configured
  durations are milliseconds. \<open>selectBackend\<close> takes the two functions of the standard library it uses as
  arguments: the draw of a uniform distribution over \<open>n\<close> indices and the hash of a string. A pointer to a
  backend is its index. Every operation of the class holds the mutex while it touches the state, so an operation is
  one step from state to state, and the maintenance thread contributes steps of its own.
\<close>

subsection \<open>Data\<close>

type_synonym conn_id = nat

record ConnectionInfo =
  ci_id :: conn_id
  ci_service :: string
  remoteHost :: string
  remotePort :: nat
  createdAt :: clock
  lastUsed :: clock
  isActive :: bool

record ConnectionPoolStats =
  ps_activeConnections :: nat
  ps_idleConnections :: nat
  ps_totalConnections :: nat
  ps_maxConnections :: nat
  ps_pendingRequests :: nat

datatype LBStrategy = RoundRobin | Random | LeastConnections | WeightedRoundRobin | IPHash

record BackendServer =
  be_host :: string
  be_port :: nat
  be_weight :: int
  healthy :: bool
  activeConnections :: nat
  be_failureCount :: nat
  currentWeight :: int
  lastCheckTime :: clock
  be_lastFailureTime :: clock

datatype CircuitBreakerState = Closed | Open | HalfOpen

record CircuitBreakerStats =
  cb_state :: CircuitBreakerState
  cb_failureCount :: nat
  successCount :: nat
  timeoutCount :: nat
  cb_lastFailureTime :: clock

definition CircuitBreakerStats_init :: CircuitBreakerStats where
  "CircuitBreakerStats_init =
     \<lparr>cb_state = Closed, cb_failureCount = 0, successCount = 0, timeoutCount = 0, cb_lastFailureTime = 0\<rparr>"

record ServicePoolStats =
  ss_service :: string
  ss_activeConnections :: nat
  ss_idleConnections :: nat
  ss_totalConnections :: nat
  ss_maxConnections :: nat
  ss_pendingRequests :: nat
  backendCount :: nat
  healthyBackends :: nat
  ss_strategy :: LBStrategy
  ss_circuitBreaker :: CircuitBreakerStats

record ServiceState =
  backends :: "BackendServer list"
  idleConnections :: "conn_id list"
  strategy :: LBStrategy
  circuitBreaker :: CircuitBreakerStats
  roundRobinIndex :: nat
  maxPoolSize :: nat
  svc_pendingRequests :: nat
  totalConnections :: nat

definition ServiceState_init :: ServiceState where
  "ServiceState_init =
     \<lparr>backends = [], idleConnections = [], strategy = RoundRobin, circuitBreaker = CircuitBreakerStats_init,
      roundRobinIndex = 0, maxPoolSize = 0, svc_pendingRequests = 0, totalConnections = 0\<rparr>"

record cm =
  config :: conf
  connections :: "(conn_id \<times> ConnectionInfo) list"
  services :: "(string \<times> ServiceState) list"
  nextConnectionId :: conn_id
  running :: bool
  pendingRequests :: nat
  idleTimeout :: int
  healthCheckInterval :: int
  recoveryTimeout :: int
  circuitBreakerEnabled :: bool
  failureThreshold :: nat
  halfOpenAttempts :: nat

definition cm_new :: "conf \<Rightarrow> cm" where
  "cm_new cfg =
     \<lparr>config = cfg, connections = [], services = [], nextConnectionId = 1, running = False, pendingRequests = 0,
      idleTimeout = getInt cfg ConnectionTimeout 30000,
      healthCheckInterval = getInt cfg HealthCheckInterval 30000,
      recoveryTimeout = getInt cfg RecoveryTimeout 60000,
      circuitBreakerEnabled = getBool cfg CircuitBreakerEnabled True,
      failureThreshold = nat (max 1 (getInt cfg FailureThreshold 5)),
      halfOpenAttempts = nat (max 1 (getInt cfg HalfOpenAttempts 3))\<rparr>"

subsection \<open>Status updates\<close>

definition normalizeStrategyName :: "string \<Rightarrow> string" where
  "normalizeStrategyName s = map tolower (filter isalnum s)"

definition parseStrategy :: "string \<Rightarrow> LBStrategy" where
  "parseStrategy strategyName =
     (let normalized = normalizeStrategyName strategyName
      in if normalized = ''random'' then Random
         else if normalized = ''leastconnections'' then LeastConnections
         else if normalized = ''weightedroundrobin'' then WeightedRoundRobin
         else if normalized = ''iphash'' then IPHash
         else RoundRobin)"

definition applyBackendStatus :: "BackendServer \<Rightarrow> bool \<Rightarrow> nat \<Rightarrow> clock \<Rightarrow> BackendServer" where
  "applyBackendStatus b success threshold now =
     (let b = b\<lparr>lastCheckTime := now\<rparr>
      in if success then b\<lparr>be_failureCount := 0, healthy := True, currentWeight := 0\<rparr>
         else
           let b = b\<lparr>be_failureCount := be_failureCount b + 1, be_lastFailureTime := now\<rparr>
           in if be_failureCount b \<ge> threshold then b\<lparr>healthy := False, currentWeight := 0\<rparr> else b)"

definition applyExecutionResult ::
    "CircuitBreakerStats \<Rightarrow> bool \<Rightarrow> nat \<Rightarrow> nat \<Rightarrow> clock \<Rightarrow> CircuitBreakerStats" where
  "applyExecutionResult br success threshold attempts now =
     (if success then
        let br = br\<lparr>successCount := successCount br + 1, timeoutCount := 0\<rparr>
        in if cb_state br = HalfOpen \<and> successCount br \<ge> attempts
           then br\<lparr>cb_state := Closed, cb_failureCount := 0, successCount := 0\<rparr>
           else if cb_state br = Closed then br\<lparr>cb_failureCount := 0\<rparr>
           else br
      else
        let br = br\<lparr>cb_failureCount := cb_failureCount br + 1, timeoutCount := timeoutCount br + 1,
                    cb_lastFailureTime := now\<rparr>
        in if cb_state br = HalfOpen \<or> cb_failureCount br \<ge> threshold
           then br\<lparr>cb_state := Open, successCount := 0\<rparr> else br)"

definition backendMatchesConnection :: "BackendServer \<Rightarrow> ConnectionInfo \<Rightarrow> bool" where
  "backendMatchesConnection b c \<longleftrightarrow> be_host b = remoteHost c \<and> be_port b = remotePort c"

subsection \<open>Services and connections\<close>

definition svc :: "cm \<Rightarrow> string \<Rightarrow> ServiceState" where
  "svc m name = the (map_of (services m) name)"

definition set_svc :: "string \<Rightarrow> ServiceState \<Rightarrow> cm \<Rightarrow> cm" where
  "set_svc name st m = m\<lparr>services := AList.update name st (services m)\<rparr>"

definition set_conn :: "conn_id \<Rightarrow> ConnectionInfo \<Rightarrow> cm \<Rightarrow> cm" where
  "set_conn cid c m = m\<lparr>connections := AList.update cid c (connections m)\<rparr>"

definition map_backend :: "nat \<Rightarrow> (BackendServer \<Rightarrow> BackendServer) \<Rightarrow> ServiceState \<Rightarrow> ServiceState" where
  "map_backend i f st = st\<lparr>backends := (backends st)[i := f (backends st ! i)]\<rparr>"

definition ensureServiceState :: "string \<Rightarrow> cm \<Rightarrow> cm" where
  "ensureServiceState name m =
     (let st = (case map_of (services m) name of None \<Rightarrow> ServiceState_init | Some st \<Rightarrow> st);
          st = (if maxPoolSize st = 0
                then st\<lparr>maxPoolSize := nat (max 1 (getInt (config m) MaxConnections 1024)),
                        strategy := parseStrategy (getString (config m) LoadBalancingStrategy ''RoundRobin'')\<rparr>
                else st)
      in set_svc name st m)"

definition createConnection :: "string \<Rightarrow> nat \<Rightarrow> clock \<Rightarrow> cm \<Rightarrow> conn_id \<times> cm" where
  "createConnection name i now m =
     (let st = svc m name;
          b = backends st ! i;
          cid = nextConnectionId m;
          info = \<lparr>ci_id = cid, ci_service = name, remoteHost = be_host b, remotePort = be_port b,
                  createdAt = now, lastUsed = now, isActive = True\<rparr>;
          m = m\<lparr>nextConnectionId := cid + 1\<rparr>;
          st = map_backend i (\<lambda>b. b\<lparr>activeConnections := activeConnections b + 1\<rparr>) st;
          m = set_conn cid info m;
          st = st\<lparr>totalConnections := totalConnections st + 1\<rparr>
      in (cid, set_svc name st m))"

definition drop_from_service :: "conn_id \<Rightarrow> ConnectionInfo \<Rightarrow> ServiceState \<Rightarrow> ServiceState" where
  "drop_from_service cid info st =
     (let st = st\<lparr>idleConnections := removeAll cid (idleConnections st)\<rparr>;
          st = (case find_pred (\<lambda>b. be_host b = remoteHost info \<and> be_port b = remotePort info) (backends st) of
                  None \<Rightarrow> st
                | Some i \<Rightarrow>
                    if isActive info \<and> activeConnections (backends st ! i) > 0
                    then map_backend i (\<lambda>b. b\<lparr>activeConnections := activeConnections b - 1\<rparr>) st
                    else st)
      in if totalConnections st > 0 then st\<lparr>totalConnections := totalConnections st - 1\<rparr> else st)"

definition removeConnection :: "conn_id \<Rightarrow> ConnectionInfo \<Rightarrow> cm \<Rightarrow> cm" where
  "removeConnection cid info m =
     (let m = (case map_of (services m) (ci_service info) of
                 None \<Rightarrow> m
               | Some st \<Rightarrow> set_svc (ci_service info) (drop_from_service cid info st) m)
      in m\<lparr>connections := AList.delete cid (connections m)\<rparr>)"

text \<open>The loops over all connections that remove those with a property. The order of the hash map is the order of
  the list.\<close>

definition purge_step :: "(ConnectionInfo \<Rightarrow> bool) \<Rightarrow> cm \<Rightarrow> conn_id \<Rightarrow> cm" where
  "purge_step P m cid =
     (case map_of (connections m) cid of
        None \<Rightarrow> m
      | Some info \<Rightarrow> if P info then removeConnection cid info m else m)"

definition purge :: "(ConnectionInfo \<Rightarrow> bool) \<Rightarrow> cm \<Rightarrow> cm" where
  "purge P m = foldl (purge_step P) m (map fst (connections m))"

definition pruneIdleConnections :: "cm \<Rightarrow> ServiceState \<Rightarrow> ServiceState" where
  "pruneIdleConnections m st =
     st\<lparr>idleConnections :=
         filter (\<lambda>cid. case map_of (connections m) cid of None \<Rightarrow> False | Some info \<Rightarrow> \<not> isActive info)
           (idleConnections st)\<rparr>"

definition map_services :: "(ServiceState \<Rightarrow> ServiceState) \<Rightarrow> cm \<Rightarrow> cm" where
  "map_services f m = m\<lparr>services := map (\<lambda>(name, st). (name, f st)) (services m)\<rparr>"

definition cleanupExpiredConnections :: "clock \<Rightarrow> cm \<Rightarrow> cm" where
  "cleanupExpiredConnections now m =
     (let m = purge (\<lambda>c. \<not> (isActive c \<or> idleTimeout m = 0 \<or> now - lastUsed c \<le> in_ticks (idleTimeout m))) m
      in map_services (pruneIdleConnections m) m)"

definition recover_breaker :: "int \<Rightarrow> clock \<Rightarrow> CircuitBreakerStats \<Rightarrow> CircuitBreakerStats" where
  "recover_breaker recovery now br =
     (if cb_state br = Open \<and> (recovery = 0 \<or> now - cb_lastFailureTime br \<ge> in_ticks recovery)
      then br\<lparr>cb_state := HalfOpen, successCount := 0, timeoutCount := 0\<rparr> else br)"

definition recover_backend :: "int \<Rightarrow> clock \<Rightarrow> BackendServer \<Rightarrow> BackendServer" where
  "recover_backend recovery now b =
     (if \<not> healthy b \<and> (recovery = 0 \<or> now - be_lastFailureTime b \<ge> in_ticks recovery)
      then b\<lparr>healthy := True, be_failureCount := 0, currentWeight := 0\<rparr> else b)"

definition performHealthCheck :: "clock \<Rightarrow> cm \<Rightarrow> cm" where
  "performHealthCheck now m =
     map_services (\<lambda>st.
       pruneIdleConnections m
         (st\<lparr>circuitBreaker := recover_breaker (recoveryTimeout m) now (circuitBreaker st),
             backends := map (recover_backend (recoveryTimeout m) now) (backends st)\<rparr>)) m"

text \<open>One round of the maintenance thread.\<close>

definition maintenance :: "clock \<Rightarrow> cm \<Rightarrow> cm" where
  "maintenance now m = performHealthCheck now (cleanupExpiredConnections now m)"

subsection \<open>Choosing a backend\<close>

definition healthy_indices :: "BackendServer list \<Rightarrow> nat list" where
  "healthy_indices bs = filter (\<lambda>i. healthy (bs ! i)) [0..<length bs]"

definition lighter :: "BackendServer list \<Rightarrow> nat \<Rightarrow> nat \<Rightarrow> bool" where
  "lighter bs l r \<longleftrightarrow>
     (if activeConnections (bs ! l) = activeConnections (bs ! r) then be_weight (bs ! l) > be_weight (bs ! r)
      else activeConnections (bs ! l) < activeConnections (bs ! r))"

fun min_element :: "('a \<Rightarrow> 'a \<Rightarrow> bool) \<Rightarrow> 'a \<Rightarrow> 'a list \<Rightarrow> 'a" where
  "min_element lt smallest [] = smallest"
| "min_element lt smallest (x # xs) = min_element lt (if lt x smallest then x else smallest) xs"

definition wrr_step :: "BackendServer list \<times> nat option \<times> int \<Rightarrow> nat \<Rightarrow> BackendServer list \<times> nat option \<times> int" where
  "wrr_step s i =
     (case s of (bs, best, totalWeight) \<Rightarrow>
        let effectiveWeight = max 1 (be_weight (bs ! i));
            bs = bs[i := (bs ! i)\<lparr>currentWeight := currentWeight (bs ! i) + effectiveWeight\<rparr>];
            best = (case best of
                      None \<Rightarrow> Some i
                    | Some j \<Rightarrow>
                        if currentWeight (bs ! i) > currentWeight (bs ! j) \<or>
                           currentWeight (bs ! i) = currentWeight (bs ! j) \<and>
                           activeConnections (bs ! i) < activeConnections (bs ! j)
                        then Some i else Some j)
        in (bs, best, totalWeight + effectiveWeight))"

definition weightedRoundRobin :: "nat list \<Rightarrow> BackendServer list \<Rightarrow> nat option \<times> BackendServer list" where
  "weightedRoundRobin hs bs =
     (case foldl wrr_step (bs, None, 0) hs of (bs, best, totalWeight) \<Rightarrow>
        (case best of
           None \<Rightarrow> (None, bs)
         | Some i \<Rightarrow> (Some i, bs[i := (bs ! i)\<lparr>currentWeight := currentWeight (bs ! i) - totalWeight\<rparr>])))"

definition roundRobin :: "nat list \<Rightarrow> ServiceState \<Rightarrow> nat option \<times> ServiceState" where
  "roundRobin hs st =
     (Some (hs ! (roundRobinIndex st mod length hs)),
      st\<lparr>roundRobinIndex := wrap64 (roundRobinIndex st + 1)\<rparr>)"

definition selectBackend ::
    "(nat \<Rightarrow> nat) \<Rightarrow> (string \<Rightarrow> nat) \<Rightarrow> string \<Rightarrow> ServiceState \<Rightarrow> nat option \<times> ServiceState" where
  "selectBackend draw hash affinityKey st =
     (let hs = healthy_indices (backends st)
      in if hs = [] then (None, st)
         else case strategy st of
           Random \<Rightarrow> (Some (hs ! draw (length hs)), st)
         | LeastConnections \<Rightarrow> (Some (min_element (lighter (backends st)) (hd hs) (tl hs)), st)
         | WeightedRoundRobin \<Rightarrow>
             (case weightedRoundRobin hs (backends st) of (best, bs) \<Rightarrow> (best, st\<lparr>backends := bs\<rparr>))
         | IPHash \<Rightarrow>
             if affinityKey = [] then roundRobin hs st
             else (Some (hs ! (hash affinityKey mod length hs)), st)
         | RoundRobin \<Rightarrow> roundRobin hs st)"

definition getServiceConnectionCount :: "cm \<Rightarrow> string \<Rightarrow> nat" where
  "getServiceConnectionCount m name =
     (case map_of (services m) name of None \<Rightarrow> 0 | Some st \<Rightarrow> totalConnections st)"

definition getActiveConnectionCount :: "ServiceState \<Rightarrow> nat" where
  "getActiveConnectionCount st = foldl (\<lambda>n b. n + activeConnections b) 0 (backends st)"

definition prepareCircuitBreaker :: "cm \<Rightarrow> clock \<Rightarrow> ServiceState \<Rightarrow> bool \<times> ServiceState" where
  "prepareCircuitBreaker m now st =
     (if \<not> circuitBreakerEnabled m then (True, st)
      else
        let br = circuitBreaker st
        in if cb_state br = Open \<and> recoveryTimeout m > 0 \<and> now - cb_lastFailureTime br < in_ticks (recoveryTimeout m)
           then (False, st)
           else
             let br = (if cb_state br = Open then br\<lparr>cb_state := HalfOpen, successCount := 0, timeoutCount := 0\<rparr> else br);
                 st = st\<lparr>circuitBreaker := br\<rparr>
             in (\<not> (cb_state br = HalfOpen \<and> getActiveConnectionCount st \<ge> halfOpenAttempts m), st))"

subsection \<open>Acquiring, releasing and closing connections\<close>

text \<open>The body of the loop over the idle connections, for the connection just popped: whether it is taken.\<close>

definition reuse_candidate :: "string \<Rightarrow> clock \<Rightarrow> conn_id \<Rightarrow> cm \<Rightarrow> bool \<times> cm" where
  "reuse_candidate name now cid m =
     (case map_of (connections m) cid of
        None \<Rightarrow> (False, m)
      | Some info \<Rightarrow>
          if isActive info then (False, m)
          else if idleTimeout m > 0 \<and> now - lastUsed info > in_ticks (idleTimeout m)
          then (False, removeConnection cid info m)
          else
            let info = info\<lparr>isActive := True, lastUsed := now\<rparr>;
                m = set_conn cid info m
            in case find_pred (\<lambda>b. backendMatchesConnection b info) (backends (svc m name)) of
                 None \<Rightarrow> (False, removeConnection cid info m)
               | Some i \<Rightarrow>
                   if \<not> healthy (backends (svc m name) ! i) then (False, removeConnection cid info m)
                   else
                     (True, set_svc name
                        (map_backend i (\<lambda>b. b\<lparr>activeConnections := activeConnections b + 1\<rparr>) (svc m name)) m))"

definition pop_idle :: "string \<Rightarrow> conn_id list \<Rightarrow> cm \<Rightarrow> cm" where
  "pop_idle name rest m = set_svc name ((svc m name)\<lparr>idleConnections := rest\<rparr>) m"

lemma svc_set_svc [simp]: "svc (set_svc name st m) name' = (if name' = name then st else svc m name')"
  by (simp add: svc_def set_svc_def update_conv')

lemma svc_connections [simp]: "svc (m\<lparr>connections := cs\<rparr>) name = svc m name"
  by (simp add: svc_def)

lemma svc_set_conn [simp]: "svc (set_conn cid c m) name = svc m name"
  by (simp add: svc_def set_conn_def)

lemma idle_map_backend [simp]: "idleConnections (map_backend i f st) = idleConnections st"
  by (simp add: map_backend_def)

lemma idle_drop [simp]: "idleConnections (drop_from_service cid info st) = removeAll cid (idleConnections st)"
  by (simp add: drop_from_service_def Let_def split: option.split)

lemma idle_remove:
  "length (idleConnections (svc (removeConnection cid info m) name)) \<le> length (idleConnections (svc m name))"
  by (auto simp: removeConnection_def Let_def svc_def [of m] length_filter_le removeAll_filter_not_eq
      split: option.split)

lemma idle_candidate:
  "reuse_candidate name now cid m = (False, m') \<Longrightarrow>
   length (idleConnections (svc m' name)) \<le> length (idleConnections (svc m name))"
  using idle_remove [of cid _ m name] idle_remove [of cid _ "set_conn cid _ m" name]
  by (auto simp: reuse_candidate_def Let_def split: option.splits if_splits)

function reuse_idle :: "string \<Rightarrow> clock \<Rightarrow> cm \<Rightarrow> conn_id option \<times> cm" where
  "reuse_idle name now m =
     (case idleConnections (svc m name) of
        [] \<Rightarrow> (None, m)
      | cid # rest \<Rightarrow>
          (case reuse_candidate name now cid (pop_idle name rest m) of (taken, m') \<Rightarrow>
             if taken then (Some cid, m') else reuse_idle name now m'))"
  by pat_completeness auto
termination
proof (relation "measure (\<lambda>(name, now, m). length (idleConnections (svc m name)))", goal_cases)
  case 1
  show ?case by simp
next
  case (2 name now m cid rest taken m')
  then have "reuse_candidate name now cid (pop_idle name rest m) = (False, m')" by simp
  from idle_candidate [OF this] 2 show ?case by (simp add: pop_idle_def)
qed

declare reuse_idle.simps [simp del]

definition begin_request :: "string \<Rightarrow> cm \<Rightarrow> cm" where
  "begin_request name m =
     set_svc name ((svc m name)\<lparr>svc_pendingRequests := svc_pendingRequests (svc m name) + 1\<rparr>)
       (m\<lparr>pendingRequests := pendingRequests m + 1\<rparr>)"

definition finish_request :: "string \<Rightarrow> cm \<Rightarrow> cm" where
  "finish_request name m =
     (let m = (if pendingRequests m > 0 then m\<lparr>pendingRequests := pendingRequests m - 1\<rparr> else m);
          st = svc m name
      in if svc_pendingRequests st > 0 then set_svc name (st\<lparr>svc_pendingRequests := svc_pendingRequests st - 1\<rparr>) m
         else m)"

text \<open>Once no idle connection is left, a new one is opened, if the pool has room and some backend is healthy.\<close>

definition open_new :: "(nat \<Rightarrow> nat) \<Rightarrow> (string \<Rightarrow> nat) \<Rightarrow> string \<Rightarrow> string \<Rightarrow> clock \<Rightarrow> cm \<Rightarrow> conn_id \<times> cm" where
  "open_new draw hash name affinityKey now m =
     (if getServiceConnectionCount m name \<ge> maxPoolSize (svc m name) then (0, m)
      else case selectBackend draw hash affinityKey (svc m name) of
        (None, st) \<Rightarrow> (0, set_svc name st m)
      | (Some i, st) \<Rightarrow> createConnection name i now (set_svc name st m))"

definition take_connection ::
    "(nat \<Rightarrow> nat) \<Rightarrow> (string \<Rightarrow> nat) \<Rightarrow> string \<Rightarrow> string \<Rightarrow> clock \<Rightarrow> cm \<Rightarrow> conn_id \<times> cm" where
  "take_connection draw hash name affinityKey now m =
     (case reuse_idle name now m of
        (Some cid, m) \<Rightarrow> (cid, m)
      | (None, m) \<Rightarrow> open_new draw hash name affinityKey now m)"

definition acquireConnection ::
    "(nat \<Rightarrow> nat) \<Rightarrow> (string \<Rightarrow> nat) \<Rightarrow> string \<Rightarrow> string \<Rightarrow> clock \<Rightarrow> cm \<Rightarrow> conn_id \<times> cm" where
  "acquireConnection draw hash name affinityKey now m =
     (if name = [] then (0, m)
      else
        let m = begin_request name (ensureServiceState name m)
        in case prepareCircuitBreaker m now (svc m name) of (admitted, st) \<Rightarrow>
             let m = set_svc name st m
             in if \<not> admitted then (0, finish_request name m)
                else case take_connection draw hash name affinityKey now m of (cid, m) \<Rightarrow>
                  (cid, finish_request name m))"

definition releaseConnection :: "conn_id \<Rightarrow> clock \<Rightarrow> cm \<Rightarrow> cm" where
  "releaseConnection cid now m =
     (case map_of (connections m) cid of
        None \<Rightarrow> m
      | Some info \<Rightarrow>
          if \<not> isActive info then m
          else case map_of (services m) (ci_service info) of
            None \<Rightarrow> removeConnection cid info m
          | Some st \<Rightarrow>
              (case find_pred (\<lambda>b. backendMatchesConnection b info) (backends st) of
                 None \<Rightarrow> removeConnection cid info m
               | Some i \<Rightarrow>
                   if \<not> healthy (backends st ! i) then removeConnection cid info m
                   else
                     let m = set_conn cid (info\<lparr>isActive := False, lastUsed := now\<rparr>) m;
                         st = st\<lparr>idleConnections := idleConnections st @ [cid]\<rparr>;
                         st = (if activeConnections (backends st ! i) > 0
                               then map_backend i (\<lambda>b. b\<lparr>activeConnections := activeConnections b - 1\<rparr>) st
                               else st)
                     in set_svc (ci_service info) st m))"

definition closeConnection :: "conn_id \<Rightarrow> cm \<Rightarrow> cm" where
  "closeConnection cid m =
     (case map_of (connections m) cid of None \<Rightarrow> m | Some info \<Rightarrow> removeConnection cid info m)"

subsection \<open>Statistics\<close>

definition getPoolStats :: "cm \<Rightarrow> ConnectionPoolStats" where
  "getPoolStats m =
     \<lparr>ps_activeConnections = length (filter (\<lambda>(cid, c). isActive c) (connections m)),
      ps_idleConnections = length (filter (\<lambda>(cid, c). \<not> isActive c) (connections m)),
      ps_totalConnections = length (connections m),
      ps_maxConnections = sum_list (map (\<lambda>(name, st). maxPoolSize st) (services m)),
      ps_pendingRequests = pendingRequests m\<rparr>"

definition getServiceStats :: "cm \<Rightarrow> string \<Rightarrow> ServicePoolStats" where
  "getServiceStats m name =
     (case map_of (services m) name of
        None \<Rightarrow>
          \<lparr>ss_service = name, ss_activeConnections = 0, ss_idleConnections = 0, ss_totalConnections = 0,
           ss_maxConnections = 0, ss_pendingRequests = 0, backendCount = 0, healthyBackends = 0,
           ss_strategy = RoundRobin, ss_circuitBreaker = CircuitBreakerStats_init\<rparr>
      | Some st \<Rightarrow>
          let own = filter (\<lambda>(cid, c). ci_service c = name) (connections m)
          in \<lparr>ss_service = name,
              ss_activeConnections = length (filter (\<lambda>(cid, c). isActive c) own),
              ss_idleConnections = length (filter (\<lambda>(cid, c). \<not> isActive c) own),
              ss_totalConnections = length own,
              ss_maxConnections = maxPoolSize st,
              ss_pendingRequests = svc_pendingRequests st,
              backendCount = length (backends st),
              healthyBackends = length (filter healthy (backends st)),
              ss_strategy = strategy st,
              ss_circuitBreaker = circuitBreaker st\<rparr>)"

definition getServices :: "cm \<Rightarrow> string list" where
  "getServices m = sort (map fst (services m))"

definition getBackendServers :: "cm \<Rightarrow> string \<Rightarrow> BackendServer list" where
  "getBackendServers m name = (case map_of (services m) name of None \<Rightarrow> [] | Some st \<Rightarrow> backends st)"

definition getLoadBalancingStrategy :: "cm \<Rightarrow> string \<Rightarrow> LBStrategy" where
  "getLoadBalancingStrategy m name =
     (case map_of (services m) name of
        None \<Rightarrow> parseStrategy (getString (config m) LoadBalancingStrategy ''RoundRobin'')
      | Some st \<Rightarrow> strategy st)"

definition getCircuitBreakerStats :: "cm \<Rightarrow> string \<Rightarrow> CircuitBreakerStats" where
  "getCircuitBreakerStats m name =
     (case map_of (services m) name of None \<Rightarrow> CircuitBreakerStats_init | Some st \<Rightarrow> circuitBreaker st)"

subsection \<open>Administration\<close>

definition cm_initialize :: "cm \<Rightarrow> cm" where
  "cm_initialize m = m\<lparr>running := True\<rparr>"

definition cm_cleanup :: "cm \<Rightarrow> cm" where
  "cm_cleanup m = m\<lparr>running := False, connections := [], services := [], pendingRequests := 0\<rparr>"

definition addBackendServer :: "string \<Rightarrow> string \<Rightarrow> nat \<Rightarrow> int \<Rightarrow> clock \<Rightarrow> cm \<Rightarrow> cm" where
  "addBackendServer name host port weight now m =
     (if name = [] \<or> host = [] \<or> port = 0 then m
      else
        let m = ensureServiceState name m;
            st = svc m name
        in case find_pred (\<lambda>b. be_host b = host \<and> be_port b = port) (backends st) of
             Some i \<Rightarrow>
               set_svc name
                 (map_backend i (\<lambda>b. b\<lparr>be_weight := max 1 weight, healthy := True, currentWeight := 0\<rparr>) st) m
           | None \<Rightarrow>
               set_svc name
                 (st\<lparr>backends := backends st @
                    [\<lparr>be_host = host, be_port = port, be_weight = max 1 weight, healthy = True,
                      activeConnections = 0, be_failureCount = 0, currentWeight = 0,
                      lastCheckTime = now, be_lastFailureTime = 0\<rparr>]\<rparr>) m)"

definition idle_at :: "string \<Rightarrow> string \<Rightarrow> nat \<Rightarrow> ConnectionInfo \<Rightarrow> bool" where
  "idle_at name host port c \<longleftrightarrow>
     ci_service c = name \<and> remoteHost c = host \<and> remotePort c = port \<and> \<not> isActive c"

definition removeBackendServer :: "string \<Rightarrow> string \<Rightarrow> nat \<Rightarrow> cm \<Rightarrow> cm" where
  "removeBackendServer name host port m =
     (case map_of (services m) name of
        None \<Rightarrow> m
      | Some st \<Rightarrow>
          let st = st\<lparr>backends := filter (\<lambda>b. \<not> (be_host b = host \<and> be_port b = port)) (backends st)\<rparr>;
              st = (if roundRobinIndex st \<ge> length (backends st) \<and> backends st \<noteq> []
                    then st\<lparr>roundRobinIndex := roundRobinIndex st mod length (backends st)\<rparr> else st)
          in purge (idle_at name host port) (set_svc name st m))"

definition updateBackendWeight :: "string \<Rightarrow> string \<Rightarrow> nat \<Rightarrow> int \<Rightarrow> cm \<Rightarrow> cm" where
  "updateBackendWeight name host port weight m =
     (case map_of (services m) name of
        None \<Rightarrow> m
      | Some st \<Rightarrow>
          (case find_pred (\<lambda>b. be_host b = host \<and> be_port b = port) (backends st) of
             None \<Rightarrow> m
           | Some i \<Rightarrow>
               set_svc name (map_backend i (\<lambda>b. b\<lparr>be_weight := max 1 weight, currentWeight := 0\<rparr>) st) m))"

definition setLoadBalancingStrategy :: "string \<Rightarrow> LBStrategy \<Rightarrow> cm \<Rightarrow> cm" where
  "setLoadBalancingStrategy name s m =
     (let m = ensureServiceState name m in set_svc name ((svc m name)\<lparr>strategy := s\<rparr>) m)"

subsection \<open>Reports\<close>

definition report_backend :: "string \<Rightarrow> string \<Rightarrow> nat \<Rightarrow> bool \<Rightarrow> clock \<Rightarrow> cm \<Rightarrow> nat \<Rightarrow> cm" where
  "report_backend name host port success now m i =
     (let wasHealthy = healthy (backends (svc m name) ! i);
          st = map_backend i (\<lambda>b. applyBackendStatus b success (failureThreshold m) now) (svc m name);
          m = set_svc name st m
      in if wasHealthy \<and> \<not> healthy (backends st ! i) then purge (idle_at name host port) m else m)"

definition report_service :: "string \<Rightarrow> nat \<Rightarrow> bool \<Rightarrow> clock \<Rightarrow> cm \<Rightarrow> string \<Rightarrow> cm" where
  "report_service host port success now m name =
     foldl (\<lambda>m i.
        if be_host (backends (svc m name) ! i) = host \<and> be_port (backends (svc m name) ! i) = port
        then report_backend name host port success now m i else m)
       m [0..<length (backends (svc m name))]"

definition reportBackendStatusAll :: "string \<Rightarrow> nat \<Rightarrow> bool \<Rightarrow> clock \<Rightarrow> cm \<Rightarrow> cm" where
  "reportBackendStatusAll host port success now m =
     (if host = [] \<or> port = 0 then m
      else foldl (report_service host port success now) m (map fst (services m)))"

definition reportBackendStatus :: "string \<Rightarrow> string \<Rightarrow> nat \<Rightarrow> bool \<Rightarrow> clock \<Rightarrow> cm \<Rightarrow> cm" where
  "reportBackendStatus name host port success now m =
     (if name = [] \<or> host = [] \<or> port = 0 then m
      else case map_of (services m) name of
        None \<Rightarrow> m
      | Some st \<Rightarrow>
          (case find_pred (\<lambda>b. be_host b = host \<and> be_port b = port) (backends st) of
             None \<Rightarrow> m
           | Some i \<Rightarrow> report_backend name host port success now m i))"

definition report_breaker :: "bool \<Rightarrow> clock \<Rightarrow> cm \<Rightarrow> ServiceState \<Rightarrow> ServiceState" where
  "report_breaker success now m st =
     st\<lparr>circuitBreaker :=
          applyExecutionResult (circuitBreaker st) success (failureThreshold m) (halfOpenAttempts m) now\<rparr>"

definition reportExecutionAll :: "bool \<Rightarrow> clock \<Rightarrow> cm \<Rightarrow> cm" where
  "reportExecutionAll success now m =
     (if \<not> circuitBreakerEnabled m then m else map_services (report_breaker success now m) m)"

definition reportExecution :: "string \<Rightarrow> bool \<Rightarrow> clock \<Rightarrow> cm \<Rightarrow> cm" where
  "reportExecution name success now m =
     (if \<not> circuitBreakerEnabled m then m
      else case map_of (services m) name of
        None \<Rightarrow> m
      | Some st \<Rightarrow> set_svc name (report_breaker success now m st) m)"

subsection \<open>Runs\<close>

text \<open>Every public operation holds the mutex from its first to its last access, so a run of the manager and its
  maintenance thread is a sequence of these steps.\<close>

inductive cm_step :: "cm \<Rightarrow> cm \<Rightarrow> bool" where
  initialize: "cm_step m (cm_initialize m)"
| cleanup: "cm_step m (cm_cleanup m)"
| maintain: "running m \<Longrightarrow> cm_step m (maintenance now m)"
| acquire: "(\<And>n. 0 < n \<Longrightarrow> draw n < n) \<Longrightarrow> cm_step m (snd (acquireConnection draw hash name key now m))"
| release: "cm_step m (releaseConnection cid now m)"
| close: "cm_step m (closeConnection cid m)"
| add: "cm_step m (addBackendServer name host port weight now m)"
| remove: "cm_step m (removeBackendServer name host port m)"
| weigh: "cm_step m (updateBackendWeight name host port weight m)"
| balance: "cm_step m (setLoadBalancingStrategy name s m)"
| report_all: "cm_step m (reportBackendStatusAll host port success now m)"
| report: "cm_step m (reportBackendStatus name host port success now m)"
| execution_all: "cm_step m (reportExecutionAll success now m)"
| execution: "cm_step m (reportExecution name success now m)"

definition cm_init :: "cm \<Rightarrow> bool" where
  "cm_init m \<longleftrightarrow> (\<exists>cfg. m = cm_new cfg)"

abbreviation cm_reachable :: "cm \<Rightarrow> bool" where
  "cm_reachable \<equiv> reach cm_init cm_step"

end
