(* ===== verification/Connection_Invariant.thy ===== *)
theory Connection_Invariant
  imports Connection_Manager "HOL-Library.Multiset"
begin

text \<open>
  What the connection manager keeps true. The bookkeeping of one service (\<open>svc_book\<close>) is stated over the finite
  map of its connections; the manager's invariant \<open>cm_inv\<close> collects the services, and every operation
  preserves it. On top of it: what \<open>acquireConnection\<close> returns and when it must return a connection, the life
  cycle of the circuit breaker, and the selection strategies.
\<close>

subsection \<open>Bookkeeping of one service\<close>

text \<open>The connections of a service as a finite map, and its connections in use at one backend.\<close>

definition view :: "cm \<Rightarrow> string \<Rightarrow> conn_id \<rightharpoonup> ConnectionInfo" where
  "view m name =
     (\<lambda>cid. case map_of (connections m) cid of
              None \<Rightarrow> None
            | Some c \<Rightarrow> if ci_service c = name then Some c else None)"

definition endpoint :: "BackendServer \<Rightarrow> string \<times> nat" where
  "endpoint b = (be_host b, be_port b)"

definition remote :: "ConnectionInfo \<Rightarrow> string \<times> nat" where
  "remote c = (remoteHost c, remotePort c)"

definition users :: "(conn_id \<rightharpoonup> ConnectionInfo) \<Rightarrow> string \<times> nat \<Rightarrow> conn_id set" where
  "users V e = {cid. \<exists>c. V cid = Some c \<and> isActive c \<and> remote c = e}"

definition idles :: "(conn_id \<rightharpoonup> ConnectionInfo) \<Rightarrow> conn_id set" where
  "idles V = {cid. \<exists>c. V cid = Some c \<and> \<not> isActive c}"

definition svc_book :: "(conn_id \<rightharpoonup> ConnectionInfo) \<Rightarrow> ServiceState \<Rightarrow> bool" where
  "svc_book V st \<longleftrightarrow>
     finite (dom V) \<and> distinct (map endpoint (backends st)) \<and>
     0 < maxPoolSize st \<and> totalConnections st = card (dom V) \<and> totalConnections st \<le> maxPoolSize st \<and>
     distinct (idleConnections st) \<and> set (idleConnections st) = idles V \<and>
     (\<forall>i<length (backends st). activeConnections (backends st ! i) \<le> card (users V (endpoint (backends st ! i))))"

definition idle_served :: "(conn_id \<rightharpoonup> ConnectionInfo) \<Rightarrow> ServiceState \<Rightarrow> bool" where
  "idle_served V st \<longleftrightarrow>
     (\<forall>cid c. V cid = Some c \<and> \<not> isActive c \<longrightarrow> (\<exists>b\<in>set (backends st). healthy b \<and> endpoint b = remote c))"

lemma matches_endpoint:
  "backendMatchesConnection b c \<longleftrightarrow> endpoint b = remote c"
  "be_host b = host \<and> be_port b = port \<longleftrightarrow> endpoint b = (host, port)"
  "(remoteHost c, remotePort c) = remote c"
  by (auto simp: backendMatchesConnection_def endpoint_def remote_def)

lemma record_endpoint [simp]:
  "endpoint (b\<lparr>activeConnections := n\<rparr>) = endpoint b" "endpoint (b\<lparr>healthy := h\<rparr>) = endpoint b"
  "endpoint (b\<lparr>currentWeight := w\<rparr>) = endpoint b" "endpoint (b\<lparr>be_weight := w\<rparr>) = endpoint b"
  "endpoint (b\<lparr>be_failureCount := n\<rparr>) = endpoint b" "endpoint (b\<lparr>lastCheckTime := t\<rparr>) = endpoint b"
  "endpoint (b\<lparr>be_lastFailureTime := t\<rparr>) = endpoint b"
  "remote (c\<lparr>isActive := a\<rparr>) = remote c" "remote (c\<lparr>lastUsed := t\<rparr>) = remote c"
  by (simp_all add: endpoint_def remote_def)

lemma users_delete [simp]: "users (V(cid := None)) e = users V e - {cid}"
  by (auto simp: users_def split: if_splits)

lemma users_update [simp]:
  "users (V(cid \<mapsto> c)) e = (if isActive c \<and> remote c = e then insert cid (users V e) else users V e - {cid})"
  by (auto simp: users_def split: if_splits)

lemma idles_delete [simp]: "idles (V(cid := None)) = idles V - {cid}"
  by (auto simp: idles_def split: if_splits)

lemma idles_update [simp]:
  "idles (V(cid \<mapsto> c)) = (if isActive c then idles V - {cid} else insert cid (idles V))"
  by (auto simp: idles_def split: if_splits)

lemma users_member: "V cid = Some c \<Longrightarrow> cid \<in> users V e \<longleftrightarrow> isActive c \<and> remote c = e"
  by (simp add: users_def)

lemma idles_member: "V cid = Some c \<Longrightarrow> cid \<in> idles V \<longleftrightarrow> \<not> isActive c"
  by (simp add: idles_def)

lemma users_fresh: "V cid = None \<Longrightarrow> cid \<notin> users V e" "V cid = None \<Longrightarrow> cid \<notin> idles V"
  by (simp_all add: users_def idles_def)

lemma users_finite: "finite (dom V) \<Longrightarrow> finite (users V e)"
  by (rule finite_subset [of _ "dom V"]) (auto simp: users_def)

lemma map_backend_simps [simp]:
  "length (backends (map_backend i f st)) = length (backends st)"
  "maxPoolSize (map_backend i f st) = maxPoolSize st"
  "totalConnections (map_backend i f st) = totalConnections st"
  "strategy (map_backend i f st) = strategy st"
  "circuitBreaker (map_backend i f st) = circuitBreaker st"
  "svc_pendingRequests (map_backend i f st) = svc_pendingRequests st"
  by (simp_all add: map_backend_def)

lemma map_backend_nth:
  "j < length (backends st) \<Longrightarrow>
   backends (map_backend i f st) ! j = (if j = i then f (backends st ! i) else backends st ! j)"
  by (simp add: map_backend_def nth_list_update)

lemma map_backend_endpoints:
  "(\<And>b. endpoint (f b) = endpoint b) \<Longrightarrow>
   map endpoint (backends (map_backend i f st)) = map endpoint (backends st)"
  by (rule nth_equalityI) (simp_all add: map_backend_nth)

lemma endpoint_unique:
  "distinct (map endpoint bs) \<Longrightarrow> i < length bs \<Longrightarrow> j < length bs \<Longrightarrow>
   endpoint (bs ! i) = endpoint (bs ! j) \<Longrightarrow> i = j"
  using nth_eq_iff_index_eq [of "map endpoint bs" i j] by simp

text \<open>The parts of a service the bookkeeping reads.\<close>

definition book_key :: "ServiceState \<Rightarrow> ((string \<times> nat) \<times> nat) list \<times> conn_id list \<times> nat \<times> nat" where
  "book_key st =
     (map (\<lambda>b. (endpoint b, activeConnections b)) (backends st), idleConnections st, totalConnections st, maxPoolSize st)"

lemma svc_book_cong:
  assumes "book_key st' = book_key st"
  shows "svc_book V st' = svc_book V st"
proof -
  let ?g = "\<lambda>b. (endpoint b, activeConnections b)"
  have eq: "map ?g (backends st') = map ?g (backends st)" using assms by (simp add: book_key_def)
  then have len: "length (backends st') = length (backends st)" by (rule map_eq_imp_length_eq)
  have "map fst (map ?g (backends st')) = map fst (map ?g (backends st))" by (simp only: eq)
  then have d: "map endpoint (backends st') = map endpoint (backends st)" by (simp add: comp_def)
  have n: "?g (backends st' ! i) = ?g (backends st ! i)" if "i < length (backends st)" for i
    using that len arg_cong [OF eq, of "\<lambda>xs. xs ! i"] by simp
  have "(\<forall>i<length (backends st'). activeConnections (backends st' ! i) \<le> card (users V (endpoint (backends st' ! i)))) =
        (\<forall>i<length (backends st). activeConnections (backends st ! i) \<le> card (users V (endpoint (backends st ! i))))"
    unfolding len using n by auto
  then show ?thesis using assms d by (simp add: svc_book_def book_key_def)
qed

lemma idle_served_cong:
  assumes "map (\<lambda>b. (endpoint b, healthy b)) (backends st') = map (\<lambda>b. (endpoint b, healthy b)) (backends st)"
  shows "idle_served V st' = idle_served V st"
proof -
  have img: "(\<exists>b\<in>set bs. healthy b \<and> endpoint b = e) \<longleftrightarrow> (e, True) \<in> set (map (\<lambda>b. (endpoint b, healthy b)) bs)"
    for bs e by (auto simp: image_iff)
  have "(\<exists>b\<in>set (backends st'). healthy b \<and> endpoint b = e) = (\<exists>b\<in>set (backends st). healthy b \<and> endpoint b = e)" for e
    by (simp only: img assms)
  then show ?thesis by (simp add: idle_served_def)
qed

lemma users_shift:
  assumes "svc_book V st" "i < length (backends st)" "j < length (backends st)" "j \<noteq> i" "remote c = endpoint (backends st ! i)"
  shows "remote c \<noteq> endpoint (backends st ! j)"
  using endpoint_unique [of "backends st" i j] assms by (auto simp: svc_book_def)

lemma svc_book_drop:
  assumes bk: "svc_book V st" and V: "V cid = Some c"
  shows "svc_book (V(cid := None)) (drop_from_service cid c st)"
proof -
  have fin: "finite (dom V)" and pos: "0 < totalConnections st"
    using bk V card_gt_0_iff [of "dom V"] by (auto simp: svc_book_def)
  have card: "card (dom V - {cid}) = card (dom V) - 1" using V fin by (simp add: card_Diff_singleton domI)
  have act: "activeConnections (backends st ! j) \<le> card (users V (endpoint (backends st ! j)) - {cid})"
    if "j < length (backends st)" "\<not> (isActive c \<and> remote c = endpoint (backends st ! j))" for j
    using bk that users_member [of V cid c, OF V] by (auto simp: svc_book_def)
  have hit: "activeConnections (backends st ! j) - 1 \<le> card (users V (endpoint (backends st ! j)) - {cid})"
    if "j < length (backends st)" "isActive c" "remote c = endpoint (backends st ! j)" for j
  proof -
    have "cid \<in> users V (endpoint (backends st ! j))" using users_member [of V cid c, OF V] that by simp
    then have "card (users V (endpoint (backends st ! j)) - {cid}) = card (users V (endpoint (backends st ! j))) - 1"
      using fin by (simp add: card_Diff_singleton)
    then show ?thesis using bk that(1) by (auto simp: svc_book_def intro: diff_le_mono)
  qed
  show ?thesis
  proof (cases "find_pred (\<lambda>b. be_host b = remoteHost c \<and> be_port b = remotePort c) (backends st)")
    case None
    then have "\<forall>b\<in>set (backends st). endpoint b \<noteq> remote c" by (simp add: find_pred_None matches_endpoint)
    then have "\<forall>j<length (backends st). remote c \<noteq> endpoint (backends st ! j)" using nth_mem by force
    then show ?thesis using bk None act card pos
      by (auto simp: svc_book_def drop_from_service_def distinct_removeAll)
  next
    case (Some i)
    then have i: "i < length (backends st)" "remote c = endpoint (backends st ! i)"
      by (auto simp: find_pred_Some matches_endpoint)
    note other = users_shift [OF bk i(1) _ _ i(2)]
    let ?st = "drop_from_service cid c st"
    have eps: "map endpoint (backends ?st) = map endpoint (backends st)"
      using Some by (simp add: drop_from_service_def Let_def map_backend_endpoints)
    have len: "length (backends ?st) = length (backends st)" using arg_cong [OF eps, of length] by simp
    have ep: "endpoint (backends ?st ! j) = endpoint (backends st ! j)" if "j < length (backends st)" for j
      using arg_cong [OF eps, of "\<lambda>xs. xs ! j"] that len by simp
    have cnt: "activeConnections (backends ?st ! j) =
      (if j = i \<and> isActive c then activeConnections (backends st ! j) - 1 else activeConnections (backends st ! j))"
      if "j < length (backends st)" for j
      using Some that by (simp add: drop_from_service_def Let_def map_backend_nth)
    have "activeConnections (backends ?st ! j) \<le> card (users (V(cid := None)) (endpoint (backends ?st ! j)))"
      if "j < length (backends st)" for j
      using cnt [OF that] ep [OF that] act [OF that] hit [OF that] other [OF that] i by auto
    moreover have "totalConnections ?st = card (dom V) - 1" "maxPoolSize ?st = maxPoolSize st"
      using bk Some pos by (simp_all add: drop_from_service_def Let_def svc_book_def)
    ultimately show ?thesis using bk card fin eps len by (auto simp: svc_book_def distinct_removeAll)
  qed
qed

lemma served_drop:
  "idle_served V st \<Longrightarrow> idle_served (V(cid := None)) (drop_from_service cid c st)"
proof -
  assume "idle_served V st"
  then have "idle_served (V(cid := None)) st" by (auto simp: idle_served_def)
  moreover have "map (\<lambda>b. (endpoint b, healthy b)) (backends (drop_from_service cid c st)) =
                 map (\<lambda>b. (endpoint b, healthy b)) (backends st)"
    by (auto simp: drop_from_service_def Let_def map_backend_def nth_list_update find_pred_Some
        intro!: nth_equalityI split: option.split)
  ultimately show ?thesis using idle_served_cong by blast
qed

text \<open>A backend starts to serve one more connection, which is new or was idle.\<close>

lemma active_count_insert:
  assumes bk: "svc_book V st" and i: "i < length (backends st)"
    and c: "isActive c" "remote c = endpoint (backends st ! i)"
    and off: "\<forall>e. cid \<notin> users V e" and j: "j < length (backends st)"
  shows "activeConnections (backends (map_backend i (\<lambda>b. b\<lparr>activeConnections := activeConnections b + 1\<rparr>) st) ! j)
    \<le> card (users (V(cid \<mapsto> c)) (endpoint (backends (map_backend i (\<lambda>b. b\<lparr>activeConnections := activeConnections b + 1\<rparr>) st) ! j)))"
proof -
  have "finite (users V (endpoint (backends st ! j)))" using bk users_finite by (auto simp: svc_book_def)
  moreover have "activeConnections (backends st ! j) \<le> card (users V (endpoint (backends st ! j)))"
    using bk j by (simp add: svc_book_def)
  moreover have "cid \<notin> users V (endpoint (backends st ! j))" using off by blast
  ultimately show ?thesis
    using c users_shift [OF bk i j _ c(2)] by (cases "j = i") (simp_all add: map_backend_nth j i)
qed

lemma svc_book_create:
  assumes bk: "svc_book V st" and i: "i < length (backends st)" and V: "V cid = None"
    and room: "totalConnections st < maxPoolSize st"
    and c: "isActive c" "remote c = endpoint (backends st ! i)"
  shows "svc_book (V(cid \<mapsto> c))
    ((map_backend i (\<lambda>b. b\<lparr>activeConnections := activeConnections b + 1\<rparr>) st)\<lparr>totalConnections := totalConnections st + 1\<rparr>)"
proof -
  have "\<forall>e. cid \<notin> users V e" using users_fresh(1) [of V cid, OF V] by blast
  note cnt = active_count_insert [OF bk i c this]
  have "card (insert cid (dom V)) = card (dom V) + 1" using bk V by (simp add: svc_book_def domIff)
  then show ?thesis using bk c cnt room users_fresh(2) [of V cid, OF V]
    by (simp add: svc_book_def map_backend_endpoints del: users_update)
qed

lemma svc_book_take:
  assumes bk: "svc_book V st" and i: "i < length (backends st)" and V: "V cid = Some c0" "\<not> isActive c0"
    and idle: "idleConnections st = cid # rest"
    and c: "isActive c" "remote c = endpoint (backends st ! i)"
  shows "svc_book (V(cid \<mapsto> c))
    (map_backend i (\<lambda>b. b\<lparr>activeConnections := activeConnections b + 1\<rparr>) (st\<lparr>idleConnections := rest\<rparr>))"
proof -
  have "\<forall>e. cid \<notin> users V e" using users_member [of V cid c0, OF V(1)] V(2) by blast
  note cnt = active_count_insert [OF bk i c this]
  have "dom (V(cid \<mapsto> c)) = dom V" using V by auto
  moreover have "set rest = idles V - {cid}" "distinct rest" using bk idle by (auto simp: svc_book_def)
  moreover have "backends (map_backend i f (st\<lparr>idleConnections := rest\<rparr>)) = backends (map_backend i f st)" for f
    by (simp add: map_backend_def)
  ultimately show ?thesis using bk c cnt
    by (simp add: svc_book_def map_backend_endpoints del: users_update dom_fun_upd)
qed

lemma map_backend_id:
  assumes "f (backends st ! i) = backends st ! i"
  shows "map_backend i f st = st"
  using assms by (simp add: map_backend_def)

lemma decrement_guard:
  "(if 0 < activeConnections (backends st ! i)
    then map_backend i (\<lambda>b. b\<lparr>activeConnections := activeConnections b - 1\<rparr>) st else st) =
   map_backend i (\<lambda>b. b\<lparr>activeConnections := activeConnections b - 1\<rparr>) st"
  by (simp add: map_backend_id)

lemma svc_book_release:
  assumes bk: "svc_book V st" and i: "i < length (backends st)" and V: "V cid = Some c0" "isActive c0"
    and c: "\<not> isActive c" "remote c = remote c0" "remote c0 = endpoint (backends st ! i)"
  shows "svc_book (V(cid \<mapsto> c))
    (map_backend i (\<lambda>b. b\<lparr>activeConnections := activeConnections b - 1\<rparr>)
       (st\<lparr>idleConnections := idleConnections st @ [cid]\<rparr>))" (is "svc_book ?V ?st")
proof -
  have fin: "finite (users V e)" for e using bk users_finite by (auto simp: svc_book_def)
  have mem: "cid \<in> users V e \<longleftrightarrow> remote c0 = e" for e using users_member [of V cid c0, OF V(1)] V(2) by simp
  have "cid \<notin> idles V" using idles_member [of V cid c0, OF V(1)] V(2) by simp
  moreover have "dom ?V = dom V" using V by auto
  moreover have eps: "map endpoint (backends ?st) = map endpoint (backends st)" by (simp add: map_backend_endpoints)
  moreover have "activeConnections (backends ?st ! j) \<le> card (users ?V (endpoint (backends ?st ! j)))"
    if j: "j < length (backends st)" for j
  proof -
    have le: "activeConnections (backends st ! j) \<le> card (users V (endpoint (backends st ! j)))"
      using bk j by (simp add: svc_book_def)
    show ?thesis
    proof (cases "j = i")
      case True
      then show ?thesis using le mem c fin by (simp add: map_backend_nth i card_Diff_singleton diff_le_mono)
    next
      case False
      then have "cid \<notin> users V (endpoint (backends st ! j))"
        using mem users_shift [OF bk i j _ c(3)] by simp
      then show ?thesis using False le c by (simp add: map_backend_nth j)
    qed
  qed
  ultimately show ?thesis using bk c by (simp add: svc_book_def del: users_update dom_fun_upd)
qed

subsection \<open>Bookkeeping of the manager\<close>

definition cm_book :: "cm \<Rightarrow> bool" where
  "cm_book m \<longleftrightarrow>
     distinct (map fst (connections m)) \<and> distinct (map fst (services m)) \<and> 0 < nextConnectionId m \<and>
     (\<forall>cid c. map_of (connections m) cid = Some c \<longrightarrow>
        0 < cid \<and> cid < nextConnectionId m \<and> ci_id c = cid \<and> map_of (services m) (ci_service c) \<noteq> None) \<and>
     (\<forall>name st. map_of (services m) name = Some st \<longrightarrow> svc_book (view m name) st)"

definition cm_served :: "cm \<Rightarrow> bool" where
  "cm_served m \<longleftrightarrow> (\<forall>name st. map_of (services m) name = Some st \<longrightarrow> idle_served (view m name) st)"

definition cm_quiet :: "cm \<Rightarrow> bool" where
  "cm_quiet m \<longleftrightarrow>
     pendingRequests m = 0 \<and> (\<forall>name st. map_of (services m) name = Some st \<longrightarrow> svc_pendingRequests st = 0)"

definition cm_inv :: "cm \<Rightarrow> bool" where
  "cm_inv m \<longleftrightarrow> cm_book m \<and> cm_served m \<and> cm_quiet m"

lemma map_of_set_svc [simp]: "map_of (services (set_svc name st m)) = (map_of (services m))(name \<mapsto> st)"
  by (simp add: set_svc_def update_conv')

lemma map_of_set_conn [simp]: "map_of (connections (set_conn cid c m)) = (map_of (connections m))(cid \<mapsto> c)"
  by (simp add: set_conn_def update_conv')

lemma set_svc_fields [simp]:
  "connections (set_svc name st m) = connections m" "nextConnectionId (set_svc name st m) = nextConnectionId m"
  "pendingRequests (set_svc name st m) = pendingRequests m" "idleTimeout (set_svc name st m) = idleTimeout m"
  "config (set_svc name st m) = config m" "recoveryTimeout (set_svc name st m) = recoveryTimeout m"
  "circuitBreakerEnabled (set_svc name st m) = circuitBreakerEnabled m"
  "halfOpenAttempts (set_svc name st m) = halfOpenAttempts m" "failureThreshold (set_svc name st m) = failureThreshold m"
  by (simp_all add: set_svc_def)

lemma set_conn_fields [simp]:
  "services (set_conn cid c m) = services m" "nextConnectionId (set_conn cid c m) = nextConnectionId m"
  "pendingRequests (set_conn cid c m) = pendingRequests m" "idleTimeout (set_conn cid c m) = idleTimeout m"
  by (simp_all add: set_conn_def)

lemma view_cong: "map_of (connections m') = map_of (connections m) \<Longrightarrow> view m' = view m"
  by (rule ext) (simp add: view_def)

lemma view_set_svc [simp]: "view (set_svc name st m) = view m"
  by (rule view_cong) simp

lemma view_update:
  "map_of (connections m') = (map_of (connections m))(cid \<mapsto> c) \<Longrightarrow>
   view m' name = (if ci_service c = name then (view m name)(cid \<mapsto> c) else (view m name)(cid := None))"
  by (auto simp: view_def fun_eq_iff)

lemma view_delete:
  "map_of (connections m') = (map_of (connections m))(cid := None) \<Longrightarrow> view m' name = (view m name)(cid := None)"
  by (auto simp: view_def fun_eq_iff)

lemma view_Some: "view m name cid = Some c \<longleftrightarrow> map_of (connections m) cid = Some c \<and> ci_service c = name"
  by (auto simp: view_def split: option.splits if_splits)

lemma view_other: "map_of (connections m) cid = Some c \<Longrightarrow> ci_service c \<noteq> name \<Longrightarrow> (view m name)(cid := None) = view m name"
  by (auto simp: view_def fun_eq_iff)

lemma view_fresh: "map_of (connections m) cid = None \<Longrightarrow> (view m name)(cid := None) = view m name"
  by (auto simp: view_def fun_eq_iff)

lemma svc_Some: "map_of (services m) name = Some st \<Longrightarrow> svc m name = st"
  by (simp add: svc_def)

lemma cm_book_svc: "cm_book m \<Longrightarrow> map_of (services m) name = Some st \<Longrightarrow> svc_book (view m name) st"
  by (simp add: cm_book_def)

lemma cm_book_conn:
  "cm_book m \<Longrightarrow> map_of (connections m) cid = Some c \<Longrightarrow>
   0 < cid \<and> cid < nextConnectionId m \<and> ci_id c = cid \<and> (\<exists>st. map_of (services m) (ci_service c) = Some st)"
  unfolding cm_book_def by blast

text \<open>A step that changes one service and at most one of its connections.\<close>

definition one_change :: "cm \<Rightarrow> string \<Rightarrow> ServiceState \<Rightarrow> conn_id \<Rightarrow> ConnectionInfo option \<Rightarrow> cm \<Rightarrow> bool" where
  "one_change m name st cid r m' \<longleftrightarrow>
     map_of (services m') = (map_of (services m))(name \<mapsto> st) \<and>
     map_of (connections m') = (map_of (connections m))(cid := r) \<and>
     (\<forall>c. map_of (connections m) cid = Some c \<longrightarrow> ci_service c = name) \<and>
     (\<forall>c. r = Some c \<longrightarrow> ci_service c = name)"

lemma view_one:
  "one_change m name st cid r m' \<Longrightarrow> view m' name' = (if name' = name then (view m name)(cid := r) else view m name')"
  by (auto simp: one_change_def view_def fun_eq_iff split: option.split)

lemma cm_book_one:
  assumes bk: "cm_book m" and one: "one_change m name st cid r m'"
    and d: "distinct (map fst (connections m'))" "distinct (map fst (services m'))"
    and r: "\<And>c. r = Some c \<Longrightarrow> 0 < cid \<and> cid < nextConnectionId m' \<and> ci_id c = cid"
    and nx: "nextConnectionId m \<le> nextConnectionId m'"
    and st: "svc_book ((view m name)(cid := r)) st"
  shows "cm_book m'"
proof -
  have "0 < k \<and> k < nextConnectionId m' \<and> ci_id c = k \<and> map_of (services m') (ci_service c) \<noteq> None"
    if "map_of (connections m') k = Some c" for k c
  proof (cases "k = cid")
    case True
    then show ?thesis using that one r by (simp add: one_change_def)
  next
    case False
    then have "map_of (connections m) k = Some c" using that one by (simp add: one_change_def)
    from cm_book_conn [OF bk this] show ?thesis using one nx by (auto simp: one_change_def)
  qed
  moreover have "svc_book (view m' name') st'" if "map_of (services m') name' = Some st'" for name' st'
    using that one st cm_book_svc [OF bk, of name' st'] by (auto simp: one_change_def view_one [OF one] split: if_splits)
  moreover have "0 < nextConnectionId m'" using bk nx by (simp add: cm_book_def)
  ultimately show ?thesis using d by (simp add: cm_book_def)
qed

lemma cm_served_one:
  assumes "cm_served m" and one: "one_change m name st cid r m'" and "idle_served ((view m name)(cid := r)) st"
  shows "cm_served m'"
  using assms by (auto simp: cm_served_def one_change_def view_one [OF one])

lemma set_svc_distinct [simp]:
  "distinct (map fst (services m)) \<Longrightarrow> distinct (map fst (services (set_svc name st m)))"
  "distinct (map fst (connections m)) \<Longrightarrow> distinct (map fst (connections (set_conn cid c m)))"
  by (simp_all add: set_svc_def set_conn_def distinct_update)

lemma cm_book_distinct: "cm_book m \<Longrightarrow> distinct (map fst (connections m))" "cm_book m \<Longrightarrow> distinct (map fst (services m))"
  by (simp_all add: cm_book_def)

text \<open>Changing a service without its connections.\<close>

lemma cm_book_set_svc: "cm_book m \<Longrightarrow> svc_book (view m name) st \<Longrightarrow> cm_book (set_svc name st m)"
  by (auto simp: cm_book_def)

lemma cm_served_set_svc: "cm_served m \<Longrightarrow> idle_served (view m name) st \<Longrightarrow> cm_served (set_svc name st m)"
  by (simp add: cm_served_def)

lemma cm_quiet_set_svc: "cm_quiet m \<Longrightarrow> svc_pendingRequests st = 0 \<Longrightarrow> cm_quiet (set_svc name st m)"
  by (simp add: cm_quiet_def)

lemma cm_inv_set_svc:
  assumes inv: "cm_inv m" and st: "map_of (services m) name = Some st"
    and key: "book_key st' = book_key st" "svc_pendingRequests st' = svc_pendingRequests st"
      "idle_served (view m name) st \<Longrightarrow> idle_served (view m name) st'"
  shows "cm_inv (set_svc name st' m)"
proof -
  have "svc_book (view m name) st'" using svc_book_cong [OF key(1)] cm_book_svc [of m name st] inv st by (simp add: cm_inv_def)
  moreover have "idle_served (view m name) st'" using key(3) inv st by (simp add: cm_inv_def cm_served_def)
  moreover have "svc_pendingRequests st' = 0" using key(2) inv st by (simp add: cm_inv_def cm_quiet_def)
  ultimately show ?thesis using inv by (simp add: cm_inv_def cm_book_set_svc cm_served_set_svc cm_quiet_set_svc)
qed

text \<open>Removing a connection.\<close>

lemma drop_pending [simp]: "svc_pendingRequests (drop_from_service cid c st) = svc_pendingRequests st"
  by (simp add: drop_from_service_def Let_def split: option.split)

lemma remove_one:
  assumes "map_of (connections m) cid = Some c" "map_of (services m) (ci_service c) = Some st"
  shows "one_change m (ci_service c) (drop_from_service cid c st) cid None (removeConnection cid c m)"
  using assms by (simp add: one_change_def removeConnection_def Let_def delete_conv')

lemma remove_fields [simp]:
  "nextConnectionId (removeConnection cid c m) = nextConnectionId m"
  "pendingRequests (removeConnection cid c m) = pendingRequests m"
  "map_of (connections (removeConnection cid c m)) = (map_of (connections m))(cid := None)"
  "idleTimeout (removeConnection cid c m) = idleTimeout m"
  by (simp_all add: removeConnection_def Let_def delete_conv' split: option.split)

lemma remove_distinct:
  "distinct (map fst (connections m)) \<Longrightarrow> distinct (map fst (connections (removeConnection cid c m)))"
  "distinct (map fst (services m)) \<Longrightarrow> distinct (map fst (services (removeConnection cid c m)))"
  by (simp_all add: removeConnection_def Let_def distinct_delete split: option.split)

lemma cm_book_remove:
  assumes bk: "cm_book m" and c: "map_of (connections m) cid = Some c"
  shows "cm_book (removeConnection cid c m)"
proof -
  obtain st where st: "map_of (services m) (ci_service c) = Some st" using cm_book_conn [OF bk c] by blast
  have "view m (ci_service c) cid = Some c" using c by (simp add: view_Some)
  from svc_book_drop [of _ _ cid, OF cm_book_svc [OF bk st] this] show ?thesis
    using cm_book_one [OF bk remove_one [OF c st]] remove_distinct cm_book_distinct [OF bk] by simp
qed

lemma cm_served_remove:
  assumes bk: "cm_book m" and c: "map_of (connections m) cid = Some c" and sv: "cm_served m"
  shows "cm_served (removeConnection cid c m)"
proof -
  obtain st where st: "map_of (services m) (ci_service c) = Some st" using cm_book_conn [OF bk c] by blast
  then have "idle_served (view m (ci_service c)) st" using sv by (simp add: cm_served_def)
  from served_drop [OF this] show ?thesis by (rule cm_served_one [OF sv remove_one [OF c st]])
qed

lemma cm_quiet_remove: "cm_quiet m \<Longrightarrow> cm_quiet (removeConnection cid c m)"
  by (auto simp: cm_quiet_def removeConnection_def Let_def split: option.splits if_splits)

lemma cm_inv_remove: "cm_inv m \<Longrightarrow> map_of (connections m) cid = Some c \<Longrightarrow> cm_inv (removeConnection cid c m)"
  by (simp add: cm_inv_def cm_book_remove cm_served_remove cm_quiet_remove)

lemma cm_inv_close: "cm_inv m \<Longrightarrow> cm_inv (closeConnection cid m)"
  by (simp add: closeConnection_def cm_inv_remove split: option.split)

subsection \<open>Removing all connections with a property\<close>

definition health :: "cm \<Rightarrow> string \<Rightarrow> ((string \<times> nat) \<times> bool) list option" where
  "health m name = map_option (\<lambda>st. map (\<lambda>b. (endpoint b, healthy b)) (backends st)) (map_of (services m) name)"

lemma drop_health:
  "map (\<lambda>b. (endpoint b, healthy b)) (backends (drop_from_service cid c st)) =
   map (\<lambda>b. (endpoint b, healthy b)) (backends st)"
  by (auto simp: drop_from_service_def Let_def map_backend_def nth_list_update find_pred_Some
      intro!: nth_equalityI split: option.split)

lemma health_remove [simp]: "health (removeConnection cid c m) name = health m name"
  by (auto simp: health_def removeConnection_def Let_def drop_health split: option.split)

lemma purge_step_facts:
  "cm_book m \<Longrightarrow> cm_book (purge_step P m cid)"
  "cm_quiet m \<Longrightarrow> cm_quiet (purge_step P m cid)"
  "health (purge_step P m cid) name = health m name"
  "nextConnectionId (purge_step P m cid) = nextConnectionId m"
  by (auto simp: purge_step_def cm_book_remove cm_quiet_remove split: option.split)

lemma purge_step_connections:
  "map_of (connections (purge_step P m k)) =
   (\<lambda>cid. case map_of (connections m) cid of
            None \<Rightarrow> None | Some c \<Rightarrow> if cid = k \<and> P c then None else Some c)"
  by (auto simp: purge_step_def fun_eq_iff split: option.split)

lemma purge_fold_facts:
  "cm_book m \<Longrightarrow> cm_book (foldl (purge_step P) m ks)"
  "cm_quiet m \<Longrightarrow> cm_quiet (foldl (purge_step P) m ks)"
  "health (foldl (purge_step P) m ks) name = health m name"
  "nextConnectionId (foldl (purge_step P) m ks) = nextConnectionId m"
  by (induction ks arbitrary: m) (simp_all add: purge_step_facts)

lemma purge_fold_connections:
  "map_of (connections (foldl (purge_step P) m ks)) =
   (\<lambda>cid. case map_of (connections m) cid of
            None \<Rightarrow> None | Some c \<Rightarrow> if cid \<in> set ks \<and> P c then None else Some c)"
proof (induction ks arbitrary: m)
  case Nil
  show ?case by (simp add: fun_eq_iff split: option.split)
next
  case (Cons k ks)
  show ?case by (auto simp: Cons.IH purge_step_connections fun_eq_iff split: option.split)
qed

lemma purge_connections:
  "map_of (connections (purge P m)) cid =
   (case map_of (connections m) cid of None \<Rightarrow> None | Some c \<Rightarrow> if P c then None else Some c)"
proof (cases "map_of (connections m) cid")
  case None
  then show ?thesis by (simp add: purge_def purge_fold_connections)
next
  case (Some c)
  then have "cid \<in> set (map fst (connections m))" by (force dest: map_of_SomeD)
  then show ?thesis using Some by (simp add: purge_def purge_fold_connections)
qed

lemma purge_facts:
  "cm_book m \<Longrightarrow> cm_book (purge P m)" "cm_quiet m \<Longrightarrow> cm_quiet (purge P m)"
  "health (purge P m) name = health m name" "nextConnectionId (purge P m) = nextConnectionId m"
  by (simp_all add: purge_def purge_fold_facts)

lemma cm_served_purge:
  assumes sv: "\<And>name st cid c. map_of (services m) name = Some st \<Longrightarrow> view m name cid = Some c \<Longrightarrow>
    \<not> isActive c \<Longrightarrow> \<not> P c \<Longrightarrow> \<exists>b\<in>set (backends st). healthy b \<and> endpoint b = remote c"
  shows "cm_served (purge P m)"
  unfolding cm_served_def
proof (intro allI impI)
  fix name st'
  assume st': "map_of (services (purge P m)) name = Some st'"
  with purge_facts(3) [of P m name] obtain st where st: "map_of (services m) name = Some st"
    and h: "map (\<lambda>b. (endpoint b, healthy b)) (backends st') = map (\<lambda>b. (endpoint b, healthy b)) (backends st)"
    by (cases "map_of (services m) name") (auto simp: health_def)
  have "idle_served (view (purge P m) name) st"
    using sv [OF st] by (force simp: idle_served_def view_Some purge_connections split: option.splits if_splits)
  then show "idle_served (view (purge P m) name) st'" using idle_served_cong [OF h] by simp
qed

lemma cm_inv_purge: "cm_inv m \<Longrightarrow> cm_inv (purge P m)"
  unfolding cm_inv_def
  by (intro conjI cm_served_purge) (auto simp: purge_facts cm_served_def idle_served_def)

lemma served_backend:
  assumes "cm_served m" "map_of (services m) name = Some st" "view m name cid = Some c" "\<not> isActive c"
  shows "\<exists>b\<in>set (backends st). healthy b \<and> endpoint b = remote c"
proof -
  have "idle_served (view m name) st" using assms(1,2) by (simp add: cm_served_def)
  then show ?thesis using assms(3,4) unfolding idle_served_def by blast
qed

text \<open>When a backend leaves or fails, its idle connections are purged.\<close>

lemma cm_inv_purge_backend:
  assumes inv: "cm_inv m" and st: "map_of (services m) name = Some st"
    and book: "svc_book (view m name) st'" and pend: "svc_pendingRequests st' = svc_pendingRequests st"
    and keep: "\<And>b. b \<in> set (backends st) \<Longrightarrow> healthy b \<Longrightarrow> endpoint b \<noteq> (host, port) \<Longrightarrow> b \<in> set (backends st')"
  shows "cm_inv (purge (idle_at name host port) (set_svc name st' m))"
proof -
  let ?m = "set_svc name st' m"
  have inv': "cm_book ?m" "cm_quiet ?m"
    using inv st book pend by (auto simp: cm_inv_def cm_book_set_svc cm_quiet_def)
  have sv: "cm_served m" using inv by (simp add: cm_inv_def)
  have "\<exists>b\<in>set (backends s). healthy b \<and> endpoint b = remote c"
    if s: "map_of (services ?m) k = Some s" "view ?m k cid = Some c" "\<not> isActive c" "\<not> idle_at name host port c" for k s cid c
  proof (cases "k = name")
    case True
    then have v: "view m name cid = Some c" "s = st'" using s by simp_all
    then obtain b where b: "b \<in> set (backends st)" "healthy b" "endpoint b = remote c"
      using served_backend [OF sv st] s(3) by blast
    moreover have "remote c \<noteq> (host, port)" using s(3,4) v by (auto simp: idle_at_def view_Some remote_def)
    ultimately show ?thesis using keep [of b] v(2) by auto
  next
    case False
    then show ?thesis using served_backend [OF sv] s by simp
  qed
  then have "cm_served (purge (idle_at name host port) ?m)" by (rule cm_served_purge)
  then show ?thesis using inv' by (simp add: cm_inv_def purge_facts)
qed

lemma svc_book_filter:
  assumes "svc_book V st"
  shows "svc_book V (st\<lparr>backends := filter P (backends st)\<rparr>)"
proof -
  have "\<forall>b\<in>set (backends st). activeConnections b \<le> card (users V (endpoint b))"
    using assms by (auto simp: svc_book_def in_set_conv_nth)
  then have "\<forall>i<length (filter P (backends st)).
    activeConnections (filter P (backends st) ! i) \<le> card (users V (endpoint (filter P (backends st) ! i)))"
    using nth_mem [of _ "filter P (backends st)"] by (simp add: nth_mem)
  then show ?thesis using assms by (simp add: svc_book_def distinct_map_filter)
qed

lemma cm_inv_removeBackend: "cm_inv m \<Longrightarrow> cm_inv (removeBackendServer name host port m)"
proof (cases "map_of (services m) name")
  case (Some st)
  let ?f = "st\<lparr>backends := filter (\<lambda>b. \<not> (be_host b = host \<and> be_port b = port)) (backends st)\<rparr>"
  let ?st = "if roundRobinIndex ?f \<ge> length (backends ?f) \<and> backends ?f \<noteq> []
    then ?f\<lparr>roundRobinIndex := roundRobinIndex ?f mod length (backends ?f)\<rparr> else ?f"
  assume inv: "cm_inv m"
  then have "svc_book (view m name) st" using Some cm_book_svc by (simp add: cm_inv_def)
  then have f: "svc_book (view m name) ?f" by (rule svc_book_filter)
  have "svc_book (view m name) ?st = svc_book (view m name) ?f" by (rule svc_book_cong) (simp add: book_key_def)
  with f have bk: "svc_book (view m name) ?st" by blast
  have "cm_inv (purge (idle_at name host port) (set_svc name ?st m))"
    by (rule cm_inv_purge_backend [OF inv Some bk]) (simp_all add: endpoint_def)
  then show ?thesis by (simp only: removeBackendServer_def Let_def Some option.case)
qed (simp add: removeBackendServer_def)

subsection \<open>Reports and administration keep the invariant\<close>

definition shape :: "cm \<Rightarrow> string \<Rightarrow> (string \<times> nat) list option" where
  "shape m name = map_option (\<lambda>st. map endpoint (backends st)) (map_of (services m) name)"

lemma shape_health: "shape m name = map_option (map fst) (health m name)"
  by (cases "map_of (services m) name") (simp_all add: shape_def health_def comp_def)

lemma shape_purge [simp]: "shape (purge P m) = shape m"
  by (rule ext) (simp add: shape_health purge_facts)

lemma shape_Some:
  "shape m name = Some es \<Longrightarrow> \<exists>st. map_of (services m) name = Some st \<and> svc m name = st \<and> es = map endpoint (backends st)"
  by (auto simp: shape_def svc_def)

lemma status_keeps [simp]:
  "endpoint (applyBackendStatus b success n now) = endpoint b"
  "activeConnections (applyBackendStatus b success n now) = activeConnections b"
  by (simp_all add: applyBackendStatus_def Let_def)

lemma book_key_map_backend:
  assumes "\<And>b. endpoint (f b) = endpoint b" "\<And>b. activeConnections (f b) = activeConnections b"
  shows "book_key (map_backend i f st) = book_key st"
proof -
  have "map (\<lambda>b. (endpoint b, activeConnections b)) (backends (map_backend i f st)) =
        map (\<lambda>b. (endpoint b, activeConnections b)) (backends st)"
    by (rule nth_equalityI) (simp_all add: map_backend_nth assms)
  then show ?thesis by (simp add: book_key_def)
qed

lemma served_map_backend:
  assumes sv: "idle_served V st" and i: "i < length (backends st)" and ep: "\<And>b. endpoint (f b) = endpoint b"
    and h: "healthy (backends st ! i) \<Longrightarrow> healthy (f (backends st ! i))"
  shows "idle_served V (map_backend i f st)"
  unfolding idle_served_def
proof (intro allI impI)
  fix cid c
  assume "V cid = Some c \<and> \<not> isActive c"
  then obtain b where "b \<in> set (backends st)" "healthy b" "endpoint b = remote c"
    using sv unfolding idle_served_def by blast
  then obtain j where j: "j < length (backends st)" "healthy (backends st ! j)" "endpoint (backends st ! j) = remote c"
    by (auto simp: in_set_conv_nth)
  have "backends (map_backend i f st) ! j \<in> set (backends (map_backend i f st))" using j by simp
  moreover have "healthy (backends (map_backend i f st) ! j) \<and> endpoint (backends (map_backend i f st) ! j) = remote c"
    using j h ep by (cases "j = i") (simp_all add: map_backend_nth)
  ultimately show "\<exists>b\<in>set (backends (map_backend i f st)). healthy b \<and> endpoint b = remote c" by blast
qed

lemma report_backend_keeps:
  assumes inv: "cm_inv m" and st: "map_of (services m) name = Some st"
    and i: "i < length (backends st)" "endpoint (backends st ! i) = (host, port)"
  shows "cm_inv (report_backend name host port success now m i) \<and>
         shape (report_backend name host port success now m i) = shape m"
proof -
  let ?f = "\<lambda>b. applyBackendStatus b success (failureThreshold m) now"
  let ?st = "map_backend i ?f st"
  let ?fails = "healthy (backends st ! i) \<and> \<not> healthy (backends ?st ! i)"
  have key: "book_key ?st = book_key st" by (rule book_key_map_backend) simp_all
  have bk: "svc_book (view m name) ?st"
    using svc_book_cong [OF key] cm_book_svc [of m name st] inv st by (simp add: cm_inv_def)
  have "b \<in> set (backends ?st)" if b: "b \<in> set (backends st)" "endpoint b \<noteq> (host, port)" for b
  proof -
    obtain j where "j < length (backends st)" "b = backends st ! j" using b(1) by (auto simp: in_set_conv_nth)
    then show ?thesis using b(2) i nth_mem [of j "backends ?st"] by (cases "j = i") (simp_all add: map_backend_nth)
  qed
  then have "cm_inv (purge (idle_at name host port) (set_svc name ?st m))"
    using cm_inv_purge_backend [OF inv st bk, of host port] by simp
  moreover have "cm_inv (set_svc name ?st m)" if "\<not> ?fails"
  proof (rule cm_inv_set_svc [OF inv st key])
    assume "idle_served (view m name) st"
    then show "idle_served (view m name) ?st"
      by (rule served_map_backend [OF _ i(1)]) (use that i(1) in \<open>simp_all add: map_backend_nth\<close>)
  qed simp
  moreover have "shape (set_svc name ?st m) = shape m"
    using st by (auto simp: shape_def map_backend_endpoints fun_eq_iff)
  ultimately show ?thesis using svc_Some [OF st] by (simp add: report_backend_def Let_def)
qed

lemma report_service_keeps:
  assumes "cm_inv m" "shape m name = Some es"
  shows "cm_inv (report_service host port success now m name) \<and> shape (report_service host port success now m name) = shape m"
proof -
  let ?step = "\<lambda>m i. if be_host (backends (svc m name) ! i) = host \<and> be_port (backends (svc m name) ! i) = port
    then report_backend name host port success now m i else m"
  have one: "cm_inv (?step m i) \<and> shape (?step m i) = shape m"
    if m: "cm_inv m" "shape m name = Some es" "i < length es" for m i
  proof -
    obtain st where st: "map_of (services m) name = Some st" "svc m name = st" "es = map endpoint (backends st)"
      using shape_Some [OF m(2)] by blast
    then have "i < length (backends st)" using m(3) by simp
    from report_backend_keeps [OF m(1) st(1) this, of host port success now] show ?thesis using m(1) st(2) by (simp add: endpoint_def)
  qed
  have "cm_inv (foldl ?step m is) \<and> shape (foldl ?step m is) = shape m" if "\<forall>i\<in>set is. i < length es" for "is"
    using assms that
  proof (induction "is" arbitrary: m)
    case (Cons i "is")
    have s: "cm_inv (?step m i) \<and> shape (?step m i) = shape m" using one Cons.prems by simp
    have "shape (?step m i) name = Some es" using s Cons.prems(2) by presburger
    with s Cons.IH [of "?step m i"] Cons.prems show ?case by simp
  qed simp
  moreover have "length (backends (svc m name)) = length es" using shape_Some [OF assms(2)] by auto
  ultimately show ?thesis by (simp add: report_service_def)
qed

lemma cm_inv_reportAll: "cm_inv m \<Longrightarrow> cm_inv (reportBackendStatusAll host port success now m)"
proof -
  have "cm_inv (foldl (report_service host port success now) m names)" if "cm_inv m" "\<forall>n\<in>set names. shape m n \<noteq> None" for names
    using that
  proof (induction names arbitrary: m)
    case (Cons n names)
    then show ?case using report_service_keeps [of m n] by auto
  qed simp
  moreover have "\<forall>n\<in>set (map fst (services m)). shape m n \<noteq> None"
    by (auto simp: shape_def map_of_eq_None_iff image_iff)
  ultimately show "cm_inv m \<Longrightarrow> ?thesis" by (simp add: reportBackendStatusAll_def)
qed

lemma cm_inv_report: "cm_inv m \<Longrightarrow> cm_inv (reportBackendStatus name host port success now m)"
  using report_backend_keeps [of m name _ _ host port success now]
  by (simp add: reportBackendStatus_def find_pred_Some endpoint_def split: option.split)

lemma map_services_map_of [simp]:
  "map_of (services (map_services f m)) name = map_option f (map_of (services m) name)"
  by (simp add: map_services_def map_of_map)

lemma map_services_simps [simp]:
  "map fst (services (map_services f m)) = map fst (services m)"
  "connections (map_services f m) = connections m" "nextConnectionId (map_services f m) = nextConnectionId m"
  "pendingRequests (map_services f m) = pendingRequests m" "view (map_services f m) = view m"
  by (auto simp: map_services_def case_prod_unfold intro!: view_cong)

lemma cm_inv_map_services:
  assumes inv: "cm_inv m"
    and f: "\<And>name st. map_of (services m) name = Some st \<Longrightarrow>
      book_key (f st) = book_key st \<and> svc_pendingRequests (f st) = svc_pendingRequests st \<and>
      (idle_served (view m name) st \<longrightarrow> idle_served (view m name) (f st))"
  shows "cm_inv (map_services f m)"
proof -
  have "svc_book (view m name) (f st)" if "map_of (services m) name = Some st" for name st
    using svc_book_cong [of "f st" st] f [OF that] cm_book_svc [of m name st] inv that by (simp add: cm_inv_def)
  then have "cm_book (map_services f m)" using inv by (auto simp: cm_inv_def cm_book_def)
  moreover have "cm_served (map_services f m)" using inv f by (auto simp: cm_inv_def cm_served_def)
  moreover have "cm_quiet (map_services f m)" using inv f by (auto simp: cm_inv_def cm_quiet_def)
  ultimately show ?thesis by (simp add: cm_inv_def)
qed

text \<open>In a consistent state there is nothing to prune.\<close>

lemma prune_id:
  assumes "svc_book (view m name) st"
  shows "pruneIdleConnections m st = st"
proof -
  have "\<forall>cid\<in>set (idleConnections st). case map_of (connections m) cid of None \<Rightarrow> False | Some c \<Rightarrow> \<not> isActive c"
    using assms by (auto simp: svc_book_def idles_def view_Some)
  then show ?thesis by (simp add: pruneIdleConnections_def filter_id_conv)
qed

lemma cm_inv_prune:
  assumes inv: "cm_inv m"
  shows "cm_inv (map_services (pruneIdleConnections m) m)"
proof (rule cm_inv_map_services [OF inv])
  fix name st
  assume "map_of (services m) name = Some st"
  then have "pruneIdleConnections m st = st" 
    using inv cm_book_svc [of m name st] prune_id [of m name st] by (simp add: cm_inv_def)
  then show "book_key (pruneIdleConnections m st) = book_key st \<and>
    svc_pendingRequests (pruneIdleConnections m st) = svc_pendingRequests st \<and>
    (idle_served (view m name) st \<longrightarrow> idle_served (view m name) (pruneIdleConnections m st))" by simp
qed

lemma cm_inv_cleanupExpired: "cm_inv m \<Longrightarrow> cm_inv (cleanupExpiredConnections now m)"
  by (simp add: cleanupExpiredConnections_def Let_def cm_inv_prune cm_inv_purge)

lemma recover_keeps [simp]:
  "endpoint (recover_backend r now b) = endpoint b" "activeConnections (recover_backend r now b) = activeConnections b"
  "healthy b \<Longrightarrow> healthy (recover_backend r now b)"
  by (simp_all add: recover_backend_def)

lemma served_map:
  assumes sv: "idle_served V st" and bs: "backends st' = map f (backends st)"
    and f: "\<And>b. endpoint (f b) = endpoint b" "\<And>b. healthy b \<Longrightarrow> healthy (f b)"
  shows "idle_served V st'"
  unfolding idle_served_def
proof (intro allI impI)
  fix cid c
  assume "V cid = Some c \<and> \<not> isActive c"
  then obtain b where b: "b \<in> set (backends st)" "healthy b" "endpoint b = remote c"
    using sv unfolding idle_served_def by blast
  show "\<exists>b\<in>set (backends st'). healthy b \<and> endpoint b = remote c"
    by (rule bexI [of _ "f b"]) (use b f bs in simp_all)
qed

lemma cm_inv_healthCheck: "cm_inv m \<Longrightarrow> cm_inv (performHealthCheck now m)"
  unfolding performHealthCheck_def
proof (rule cm_inv_map_services, assumption)
  fix name st
  assume inv: "cm_inv m" and st: "map_of (services m) name = Some st"
  let ?st = "st\<lparr>circuitBreaker := recover_breaker (recoveryTimeout m) now (circuitBreaker st),
    backends := map (recover_backend (recoveryTimeout m) now) (backends st)\<rparr>"
  have key: "book_key ?st = book_key st" by (simp add: book_key_def comp_def)
  have "svc_book (view m name) ?st"
    using svc_book_cong [OF key] inv st cm_book_svc by (simp add: cm_inv_def)
  then have "pruneIdleConnections m ?st = ?st" by (rule prune_id)
  moreover have "idle_served (view m name) ?st" if "idle_served (view m name) st"
    by (rule served_map [OF that, where f = "recover_backend (recoveryTimeout m) now"]) simp_all
  ultimately show "book_key (pruneIdleConnections m ?st) = book_key st \<and>
    svc_pendingRequests (pruneIdleConnections m ?st) = svc_pendingRequests st \<and>
    (idle_served (view m name) st \<longrightarrow> idle_served (view m name) (pruneIdleConnections m ?st))"
    using key by simp
qed

lemma report_breaker_keeps:
  "book_key (report_breaker success now m st) = book_key st"
  "svc_pendingRequests (report_breaker success now m st) = svc_pendingRequests st"
  "idle_served V (report_breaker success now m st) = idle_served V st"
  by (simp_all add: report_breaker_def book_key_def idle_served_def)

lemma cm_inv_execution:
  "cm_inv m \<Longrightarrow> cm_inv (reportExecutionAll success now m)"
  "cm_inv m \<Longrightarrow> cm_inv (reportExecution name success now m)"
  by (auto simp: reportExecutionAll_def reportExecution_def report_breaker_keeps
      intro!: cm_inv_map_services cm_inv_set_svc split: option.split)

subsection \<open>Services, backends and released connections\<close>

lemma svc_view_empty: "cm_book m \<Longrightarrow> map_of (services m) name = None \<Longrightarrow> view m name = Map.empty"
  unfolding cm_book_def view_def by (force simp: fun_eq_iff split: option.splits)

lemma init_fields [simp]: "svc_pendingRequests ServiceState_init = 0" "maxPoolSize ServiceState_init = 0"
  by (simp_all add: ServiceState_init_def)

lemma svc_book_init: "0 < n \<Longrightarrow> svc_book Map.empty (ServiceState_init\<lparr>maxPoolSize := n, strategy := s\<rparr>)"
  by (simp add: svc_book_def ServiceState_init_def idles_def)

lemma ensure_existing:
  "map_of (services m) name = Some st \<Longrightarrow> maxPoolSize st \<noteq> 0 \<Longrightarrow> map_of (services (ensureServiceState name m)) = map_of (services m)"
  by (auto simp: ensureServiceState_def)

lemma ensure_fields [simp]:
  "connections (ensureServiceState name m) = connections m"
  "nextConnectionId (ensureServiceState name m) = nextConnectionId m"
  "pendingRequests (ensureServiceState name m) = pendingRequests m" "view (ensureServiceState name m) = view m"
  "circuitBreakerEnabled (ensureServiceState name m) = circuitBreakerEnabled m"
  "idleTimeout (ensureServiceState name m) = idleTimeout m"
  by (auto simp: ensureServiceState_def Let_def intro!: view_cong)

lemma ensure_defined: "\<exists>st. map_of (services (ensureServiceState name m)) name = Some st"
  by (simp add: ensureServiceState_def Let_def)

lemma cm_inv_ensure:
  assumes inv: "cm_inv m"
  shows "cm_inv (ensureServiceState name m)"
proof (cases "map_of (services m) name")
  case None
  have "view m name = Map.empty" using svc_view_empty None inv by (simp add: cm_inv_def)
  then show ?thesis using inv None
    by (simp add: ensureServiceState_def Let_def cm_inv_def cm_book_set_svc cm_served_set_svc cm_quiet_set_svc
        svc_book_init idle_served_def)
next
  case (Some st)
  then have "maxPoolSize st \<noteq> 0" using inv cm_book_svc [of m name st] by (auto simp: cm_inv_def svc_book_def)
  then show ?thesis using inv Some cm_inv_set_svc [OF inv Some, of st] by (simp add: ensureServiceState_def)
qed

lemma find_endpoint:
  "find_pred (\<lambda>b. be_host b = host \<and> be_port b = port) bs = Some i \<Longrightarrow> i < length bs \<and> endpoint (bs ! i) = (host, port)"
  "find_pred (\<lambda>b. be_host b = host \<and> be_port b = port) bs = None \<Longrightarrow> (host, port) \<notin> endpoint ` set bs"
  "find_pred (\<lambda>b. backendMatchesConnection b c) bs = Some i \<Longrightarrow> i < length bs \<and> endpoint (bs ! i) = remote c"
  by (auto simp: find_pred_Some find_pred_None endpoint_def backendMatchesConnection_def remote_def)

lemma cm_inv_map_backend:
  assumes inv: "cm_inv m" and st: "map_of (services m) name = Some st" and i: "i < length (backends st)"
    and f: "\<And>b. endpoint (f b) = endpoint b" "\<And>b. activeConnections (f b) = activeConnections b" "\<And>b. healthy b \<Longrightarrow> healthy (f b)"
  shows "cm_inv (set_svc name (map_backend i f st) m)"
proof (rule cm_inv_set_svc [OF inv st])
  show "book_key (map_backend i f st) = book_key st" by (rule book_key_map_backend) (simp_all add: f)
  show "idle_served (view m name) (map_backend i f st)" if "idle_served (view m name) st"
    by (rule served_map_backend [OF that i]) (simp_all add: f)
qed simp

lemma svc_book_append:
  assumes bk: "svc_book V st" and b: "endpoint b \<notin> endpoint ` set (backends st)" "activeConnections b = 0"
  shows "svc_book V (st\<lparr>backends := backends st @ [b]\<rparr>)"
proof -
  have "\<forall>i<length (backends st @ [b]). activeConnections ((backends st @ [b]) ! i) \<le>
      card (users V (endpoint ((backends st @ [b]) ! i)))"
    using bk b(2) by (simp add: svc_book_def nth_append less_Suc_eq)
  then show ?thesis using bk b(1) by (simp add: svc_book_def)
qed

lemma cm_inv_add: "cm_inv m \<Longrightarrow> cm_inv (addBackendServer name host port w now m)"
proof (cases "name = [] \<or> host = [] \<or> port = 0")
  case False
  assume "cm_inv m"
  then have inv: "cm_inv (ensureServiceState name m)" (is "cm_inv ?m") by (rule cm_inv_ensure)
  obtain st where st: "map_of (services ?m) name = Some st" using ensure_defined by blast
  note svc = svc_Some [OF st]
  show ?thesis
  proof (cases "find_pred (\<lambda>b. be_host b = host \<and> be_port b = port) (backends st)")
    case (Some i)
    then have "i < length (backends st)" by (simp add: find_endpoint)
    from cm_inv_map_backend [OF inv st this, of "\<lambda>b. b\<lparr>be_weight := max 1 w, healthy := True, currentWeight := 0\<rparr>"]
    show ?thesis using False Some svc by (simp add: addBackendServer_def Let_def)
  next
    case None
    let ?b = "\<lparr>be_host = host, be_port = port, be_weight = max 1 w, healthy = True, activeConnections = 0,
      be_failureCount = 0, currentWeight = 0, lastCheckTime = now, be_lastFailureTime = 0\<rparr>"
    let ?st = "st\<lparr>backends := backends st @ [?b]\<rparr>"
    have "endpoint ?b \<notin> endpoint ` set (backends st)" using find_endpoint(2) [OF None] by (simp add: endpoint_def)
    then have "svc_book (view ?m name) ?st"
      using svc_book_append [of "view ?m name" st ?b] cm_book_svc [of ?m name st] inv st by (simp add: cm_inv_def del: ensure_fields)
    moreover have "idle_served (view ?m name) ?st"
      using inv st by (auto simp: cm_inv_def cm_served_def idle_served_def simp del: ensure_fields)
    moreover have "svc_pendingRequests ?st = 0" using inv st by (simp add: cm_inv_def cm_quiet_def)
    ultimately have "cm_inv (set_svc name ?st ?m)"
      using inv by (simp add: cm_inv_def cm_book_set_svc cm_served_set_svc cm_quiet_set_svc)
    then show ?thesis using False None svc by (simp add: addBackendServer_def Let_def)
  qed
qed (auto simp: addBackendServer_def)

lemma cm_inv_weight: "cm_inv m \<Longrightarrow> cm_inv (updateBackendWeight name host port w m)"
  by (auto simp: updateBackendWeight_def find_endpoint(1) intro!: cm_inv_map_backend split: option.split)

lemma cm_inv_strategy: "cm_inv m \<Longrightarrow> cm_inv (setLoadBalancingStrategy name s m)"
proof -
  assume "cm_inv m"
  then have inv: "cm_inv (ensureServiceState name m)" (is "cm_inv ?m") by (rule cm_inv_ensure)
  obtain st where st: "map_of (services ?m) name = Some st" using ensure_defined by blast
  have "cm_inv (set_svc name (st\<lparr>strategy := s\<rparr>) ?m)"
    by (rule cm_inv_set_svc [OF inv st]) (simp_all add: book_key_def idle_served_def)
  then show ?thesis using svc_Some [OF st] by (simp add: setLoadBalancingStrategy_def)
qed

lemma cm_inv_running: "cm_inv (m\<lparr>running := r\<rparr>) = cm_inv m"
proof -
  have "view (m\<lparr>running := r\<rparr>) = view m" by (rule view_cong) simp
  then show ?thesis by (simp add: cm_inv_def cm_book_def cm_served_def cm_quiet_def)
qed

lemma cm_inv_empty:
  "services m = [] \<Longrightarrow> connections m = [] \<Longrightarrow> pendingRequests m = 0 \<Longrightarrow> 0 < nextConnectionId m \<Longrightarrow> cm_inv m"
  by (simp add: cm_inv_def cm_book_def cm_served_def cm_quiet_def)

lemma cm_inv_new: "cm_inv (cm_new cfg)"
  by (rule cm_inv_empty) (simp_all add: cm_new_def)

lemma cm_inv_cleanup: "cm_inv m \<Longrightarrow> cm_inv (cm_cleanup m)"
  by (rule cm_inv_empty) (simp_all add: cm_cleanup_def cm_inv_def cm_book_def)

lemma served_release:
  assumes sv: "idle_served V st" and i: "i < length (backends st)" "healthy (backends st ! i)" "endpoint (backends st ! i) = remote c"
  shows "idle_served (V(cid \<mapsto> c)) (map_backend i (\<lambda>b. b\<lparr>activeConnections := f b\<rparr>) (st\<lparr>idleConnections := ids\<rparr>))"
proof -
  have "idle_served (V(cid \<mapsto> c)) st"
    unfolding idle_served_def
  proof (intro allI impI)
    fix k d
    assume d: "(V(cid \<mapsto> c)) k = Some d \<and> \<not> isActive d"
    show "\<exists>b\<in>set (backends st). healthy b \<and> endpoint b = remote d"
    proof (cases "k = cid")
      case True
      then show ?thesis using d i by (intro bexI [of _ "backends st ! i"]) simp_all
    next
      case False
      then show ?thesis using d sv unfolding idle_served_def by auto
    qed
  qed
  then have "idle_served (V(cid \<mapsto> c)) (st\<lparr>idleConnections := ids\<rparr>)" by (simp add: idle_served_def)
  then show ?thesis by (rule served_map_backend) (simp_all add: i(1))
qed

lemma cm_inv_release:
  assumes inv: "cm_inv m"
  shows "cm_inv (releaseConnection cid now m)"
proof (cases "\<exists>c st i. map_of (connections m) cid = Some c \<and> isActive c \<and> map_of (services m) (ci_service c) = Some st \<and>
    find_pred (\<lambda>b. backendMatchesConnection b c) (backends st) = Some i \<and> healthy (backends st ! i)")
  case False
  then show ?thesis using inv by (auto simp: releaseConnection_def cm_inv_remove split: option.split)
next
  case True
  then obtain c st i where 3: "map_of (connections m) cid = Some c" "isActive c" "map_of (services m) (ci_service c) = Some st"
    "find_pred (\<lambda>b. backendMatchesConnection b c) (backends st) = Some i" "healthy (backends st ! i)" by blast
  let ?c = "c\<lparr>isActive := False, lastUsed := now\<rparr>" and ?name = "ci_service c"
  let ?st = "map_backend i (\<lambda>b. b\<lparr>activeConnections := activeConnections b - 1\<rparr>) (st\<lparr>idleConnections := idleConnections st @ [cid]\<rparr>)"
  let ?m = "set_svc ?name ?st (set_conn cid ?c m)"
  have i: "i < length (backends st)" "endpoint (backends st ! i) = remote c" using find_endpoint(3) [OF 3(4)] by simp_all
  have V: "view m ?name cid = Some c" using 3 by (simp add: view_Some)
  have one: "one_change m ?name ?st cid (Some ?c) ?m" using 3 by (simp add: one_change_def)
  have bk: "svc_book (view m ?name) st" "idle_served (view m ?name) st" "svc_pendingRequests st = 0" "cm_book m" "cm_served m"
    using inv 3 by (simp_all add: cm_inv_def cm_book_svc cm_served_def cm_quiet_def)
  have "svc_book ((view m ?name)(cid \<mapsto> ?c)) ?st"
    by (rule svc_book_release [OF bk(1) i(1) V 3(2)]) (simp_all add: i)
  then have "cm_book ?m"
    using cm_book_one [OF bk(4) one] cm_book_conn [OF bk(4) 3(1)] cm_book_distinct [OF bk(4)] by simp
  moreover have "cm_served ?m"
    by (rule cm_served_one [OF bk(5) one served_release [OF bk(2) i(1) 3(5)]]) (simp add: i)
  moreover have "cm_quiet ?m" using inv bk(3) by (simp add: cm_inv_def cm_quiet_def)
  moreover have "releaseConnection cid now m = ?m"
    using 3 decrement_guard [of "st\<lparr>idleConnections := idleConnections st @ [cid]\<rparr>" i]
    by (simp add: releaseConnection_def Let_def)
  ultimately show ?thesis by (simp add: cm_inv_def)
qed

subsection \<open>Acquiring a connection\<close>

definition pend :: "cm \<Rightarrow> nat \<times> (string \<rightharpoonup> nat)" where
  "pend m = (pendingRequests m, \<lambda>name. map_option svc_pendingRequests (map_of (services m) name))"

definition cm_core :: "cm \<Rightarrow> bool" where
  "cm_core m \<longleftrightarrow> cm_book m \<and> cm_served m"

lemma cm_inv_core: "cm_inv m \<longleftrightarrow> cm_core m \<and> cm_quiet m"
  by (simp add: cm_inv_def cm_core_def)

text \<open>What the search through the idle connections leaves alone.\<close>

definition kept :: "string \<Rightarrow> cm \<Rightarrow> cm \<Rightarrow> bool" where
  "kept name m m' \<longleftrightarrow>
     nextConnectionId m' = nextConnectionId m \<and> pend m' = pend m \<and> health m' = health m \<and>
     (\<forall>k d. map_of (connections m) k = Some d \<longrightarrow> isActive d \<longrightarrow> map_of (connections m') k = Some d) \<and>
     (\<forall>st. map_of (services m) name = Some st \<longrightarrow>
        (\<exists>st'. map_of (services m') name = Some st' \<and> totalConnections st' \<le> totalConnections st \<and>
               strategy st' = strategy st \<and> maxPoolSize st' = maxPoolSize st))"

lemma kept_refl: "kept name m m"
  by (simp add: kept_def)

lemma kept_trans: "kept name m1 m2 \<Longrightarrow> kept name m2 m3 \<Longrightarrow> kept name m1 m3"
  unfolding kept_def by (fastforce intro: order_trans)

lemma drop_static:
  "strategy (drop_from_service cid c st) = strategy st" "maxPoolSize (drop_from_service cid c st) = maxPoolSize st"
  "totalConnections (drop_from_service cid c st) \<le> totalConnections st"
  by (simp_all add: drop_from_service_def Let_def split: option.split)

lemma kept_remove:
  assumes "map_of (connections m) cid = Some c" "\<not> isActive c"
  shows "kept name m (removeConnection cid c m)"
proof -
  have "pend (removeConnection cid c m) = pend m"
    by (auto simp: pend_def removeConnection_def Let_def fun_eq_iff split: option.split)
  moreover have "health (removeConnection cid c m) = health m" by (simp add: fun_eq_iff)
  moreover have "\<exists>st'. map_of (services (removeConnection cid c m)) name = Some st' \<and>
    totalConnections st' \<le> totalConnections st \<and> strategy st' = strategy st \<and> maxPoolSize st' = maxPoolSize st"
    if "map_of (services m) name = Some st" for st
    using that by (auto simp: removeConnection_def Let_def drop_static split: option.split)
  ultimately show ?thesis using assms by (auto simp: kept_def)
qed

lemma cm_core_remove: "cm_core m \<Longrightarrow> map_of (connections m) cid = Some c \<Longrightarrow> cm_core (removeConnection cid c m)"
  by (simp add: cm_core_def cm_book_remove cm_served_remove)

lemma remove_popped:
  assumes st: "map_of (services m) name = Some st" "idleConnections st = cid # rest" and c: "ci_service c = name"
  shows "removeConnection cid c (pop_idle name rest m) = removeConnection cid c m"
proof -
  have "drop_from_service cid c (st\<lparr>idleConnections := rest\<rparr>) = drop_from_service cid c st"
    using st(2) by (simp add: drop_from_service_def)
  then show ?thesis using c st svc_Some [OF st(1)]
    by (simp add: removeConnection_def Let_def pop_idle_def set_svc_def update_conv')
qed

text \<open>In a consistent state the connection popped is idle and its backend healthy, so it is either expired or
  taken.\<close>

definition taken_state :: "string \<Rightarrow> clock \<Rightarrow> cm \<Rightarrow> ServiceState \<Rightarrow> conn_id \<Rightarrow> conn_id list \<Rightarrow> ConnectionInfo \<Rightarrow> nat \<Rightarrow> cm" where
  "taken_state name now m st cid rest c i =
     set_svc name
       (map_backend i (\<lambda>b. b\<lparr>activeConnections := activeConnections b + 1\<rparr>) (st\<lparr>idleConnections := rest\<rparr>))
       (set_conn cid (c\<lparr>isActive := True, lastUsed := now\<rparr>) (pop_idle name rest m))"

lemma idle_head:
  assumes core: "cm_core m" and st: "map_of (services m) name = Some st" "idleConnections st = cid # rest"
  shows "\<exists>c i. map_of (connections m) cid = Some c \<and> \<not> isActive c \<and> ci_service c = name \<and>
    find_pred (\<lambda>b. backendMatchesConnection b c) (backends st) = Some i \<and> i < length (backends st) \<and>
    endpoint (backends st ! i) = remote c \<and> healthy (backends st ! i)"
proof -
  have bk: "svc_book (view m name) st" using core st(1) by (simp add: cm_core_def cm_book_svc)
  have "cid \<in> idles (view m name)" using bk st(2) by (auto simp: svc_book_def)
  then obtain c where V: "view m name cid = Some c" and c: "\<not> isActive c" by (auto simp: idles_def)
  then obtain b where "b \<in> set (backends st)" and b: "healthy b" "endpoint b = remote c"
    using served_backend [OF _ st(1) V c] core by (auto simp: cm_core_def)
  then obtain j where j: "j < length (backends st)" "b = backends st ! j" by (auto simp: in_set_conv_nth)
  then have "find_pred (\<lambda>b. backendMatchesConnection b c) (backends st) \<noteq> None"
    using b by (auto simp: find_pred_None matches_endpoint)
  then obtain i where f: "find_pred (\<lambda>b. backendMatchesConnection b c) (backends st) = Some i" by blast
  have i: "i < length (backends st)" "endpoint (backends st ! i) = remote c" using find_endpoint(3) [OF f] by simp_all
  have "i = j" using bk i j b endpoint_unique [of "backends st" i j] by (simp add: svc_book_def)
  then show ?thesis using V c f i j b by (auto simp: view_Some)
qed

lemma candidate_outcome:
  assumes core: "cm_core m" and st: "map_of (services m) name = Some st" "idleConnections st = cid # rest"
  shows "\<exists>c i. map_of (connections m) cid = Some c \<and> \<not> isActive c \<and> ci_service c = name \<and>
    i < length (backends st) \<and> endpoint (backends st ! i) = remote c \<and> healthy (backends st ! i) \<and>
    reuse_candidate name now cid (pop_idle name rest m) =
      (if idleTimeout m > 0 \<and> now - lastUsed c > in_ticks (idleTimeout m) then (False, removeConnection cid c m)
       else (True, taken_state name now m st cid rest c i))"
proof -
  obtain c i where c: "map_of (connections m) cid = Some c" "\<not> isActive c" "ci_service c = name"
    and f: "find_pred (\<lambda>b. backendMatchesConnection b c) (backends st) = Some i"
    and i: "i < length (backends st)" "endpoint (backends st ! i) = remote c" "healthy (backends st ! i)"
    using idle_head [OF core st] by blast
  have match: "backendMatchesConnection b (c\<lparr>isActive := True, lastUsed := now\<rparr>) = backendMatchesConnection b c" for b
    by (simp add: backendMatchesConnection_def)
  have "reuse_candidate name now cid (pop_idle name rest m) =
      (if idleTimeout m > 0 \<and> now - lastUsed c > in_ticks (idleTimeout m) then (False, removeConnection cid c m)
       else (True, taken_state name now m st cid rest c i))"
    using c f i(3) svc_Some [OF st(1)] remove_popped [OF st c(3)]
    by (simp add: reuse_candidate_def Let_def pop_idle_def match taken_state_def)
  then show ?thesis using c i by blast
qed

text \<open>What a caller gets with an identifier: a connection of the service that nobody else was using, to a healthy
  backend.\<close>

definition acquired :: "string \<Rightarrow> clock \<Rightarrow> cm \<Rightarrow> cm \<Rightarrow> conn_id \<Rightarrow> bool" where
  "acquired name now m m' cid \<longleftrightarrow>
     0 < cid \<and> (\<forall>c. map_of (connections m) cid = Some c \<longrightarrow> \<not> isActive c) \<and>
     (\<exists>c st b. map_of (connections m') cid = Some c \<and> isActive c \<and> ci_id c = cid \<and> ci_service c = name \<and>
        lastUsed c = now \<and> map_of (services m') name = Some st \<and> b \<in> set (backends st) \<and> healthy b \<and>
        backendMatchesConnection b c)"

lemma acquiredI:
  assumes "0 < cid" "\<And>c. map_of (connections m) cid = Some c \<Longrightarrow> \<not> isActive c"
    "map_of (connections m') cid = Some c" "isActive c" "ci_id c = cid" "ci_service c = name" "lastUsed c = now"
    "map_of (services m') name = Some st" "i < length (backends st)" "healthy (backends st ! i)"
    "endpoint (backends st ! i) = remote c"
  shows "acquired name now m m' cid"
  unfolding acquired_def
  by (intro conjI exI [of _ c] exI [of _ st] exI [of _ "backends st ! i"])
    (use assms in \<open>simp_all add: matches_endpoint\<close>)

lemma acquired_kept:
  assumes "kept name m m1" "acquired name now m1 m' cid"
  shows "acquired name now m m' cid"
proof -
  have "\<forall>c. map_of (connections m1) cid = Some c \<longrightarrow> \<not> isActive c" using assms(2) by (simp add: acquired_def)
  moreover have "\<forall>c. map_of (connections m) cid = Some c \<longrightarrow> isActive c \<longrightarrow> map_of (connections m1) cid = Some c"
    using assms(1) by (simp add: kept_def)
  ultimately have "\<forall>c. map_of (connections m) cid = Some c \<longrightarrow> \<not> isActive c" by blast
  then show ?thesis using assms(2) by (simp add: acquired_def)
qed

lemma taken_facts:
  assumes core: "cm_core m" and st: "map_of (services m) name = Some st" "idleConnections st = cid # rest"
    and c: "map_of (connections m) cid = Some c" "\<not> isActive c" "ci_service c = name"
    and i: "i < length (backends st)" "endpoint (backends st ! i) = remote c" "healthy (backends st ! i)"
  shows "cm_core (taken_state name now m st cid rest c i)" (is "cm_core ?m")
    and "kept name m (taken_state name now m st cid rest c i)"
    and "acquired name now m (taken_state name now m st cid rest c i) cid"
proof -
  let ?c = "c\<lparr>isActive := True, lastUsed := now\<rparr>"
  let ?st = "map_backend i (\<lambda>b. b\<lparr>activeConnections := activeConnections b + 1\<rparr>) (st\<lparr>idleConnections := rest\<rparr>)"
  have bk: "cm_book m" "cm_served m" "svc_book (view m name) st" "idle_served (view m name) st"
    using core st(1) by (simp_all add: cm_core_def cm_book_svc cm_served_def)
  have V: "view m name cid = Some c" using c by (simp add: view_Some)
  have sv: "map_of (services ?m) = (map_of (services m))(name \<mapsto> ?st)"
    and cn: "map_of (connections ?m) = (map_of (connections m))(cid \<mapsto> ?c)"
    and nx: "nextConnectionId ?m = nextConnectionId m" "pendingRequests ?m = pendingRequests m"
    by (simp_all add: taken_state_def pop_idle_def)
  have d: "distinct (map fst (connections ?m))" "distinct (map fst (services ?m))"
    using cm_book_distinct [OF bk(1)] by (simp_all add: taken_state_def pop_idle_def)
  have one: "one_change m name ?st cid (Some ?c) ?m" using c sv cn by (simp add: one_change_def)
  have "svc_book ((view m name)(cid \<mapsto> ?c)) ?st"
    by (rule svc_book_take [OF bk(3) i(1) V c(2) st(2)]) (simp_all add: i)
  then have "cm_book ?m"
    using cm_book_one [OF bk(1) one d] cm_book_conn [OF bk(1) c(1)] nx by simp
  moreover have "cm_served ?m"
    by (rule cm_served_one [OF bk(2) one served_release [OF bk(4) i(1) i(3)]]) (simp add: i)
  ultimately show "cm_core ?m" by (simp add: cm_core_def)
  have hl: "map (\<lambda>b. (endpoint b, healthy b)) (backends ?st) = map (\<lambda>b. (endpoint b, healthy b)) (backends st)"
    by (rule nth_equalityI) (simp_all add: map_backend_nth)
  then have "health ?m = health m" using st(1) by (auto simp: health_def sv fun_eq_iff)
  moreover have "pend ?m = pend m" using st(1) nx by (auto simp: pend_def sv fun_eq_iff)
  ultimately show "kept name m ?m" using st(1) c nx by (auto simp: kept_def sv cn)
  have "ci_id c = cid" "0 < cid" using cm_book_conn [OF bk(1) c(1)] by simp_all
  then show "acquired name now m ?m cid"
    by (intro acquiredI [where c = ?c and st = ?st and i = i]) (use c i sv cn in \<open>simp_all add: map_backend_nth\<close>)
qed

lemma reuse_idle_spec:
  assumes "cm_core m" "map_of (services m) name = Some st" "reuse_idle name now m = (r, m')"
  shows "cm_core m' \<and> kept name m m' \<and> (\<forall>cid. r = Some cid \<longrightarrow> acquired name now m m' cid)"
  using assms
proof (induction name now m arbitrary: st rule: reuse_idle.induct)
  case (1 name now m)
  note core = 1(2) and st = 1(3) and run = 1(4)
  have svc: "svc m name = st" by (rule svc_Some [OF st])
  show ?case
  proof (cases "idleConnections st")
    case Nil
    then show ?thesis using run core svc by (simp add: reuse_idle.simps [of name now m] kept_refl)
  next
    case (Cons cid rest)
    obtain c i where c: "map_of (connections m) cid = Some c" "\<not> isActive c" "ci_service c = name"
      and i: "i < length (backends st)" "endpoint (backends st ! i) = remote c" "healthy (backends st ! i)"
      and out: "reuse_candidate name now cid (pop_idle name rest m) =
        (if idleTimeout m > 0 \<and> now - lastUsed c > in_ticks (idleTimeout m) then (False, removeConnection cid c m)
         else (True, taken_state name now m st cid rest c i))"
      using candidate_outcome [OF core st Cons] by blast
    show ?thesis
    proof (cases "idleTimeout m > 0 \<and> now - lastUsed c > in_ticks (idleTimeout m)")
      case True
      let ?m = "removeConnection cid c m"
      have rec: "reuse_idle name now ?m = (r, m')"
        using run True out svc Cons by (simp add: reuse_idle.simps [of name now m])
      have k: "kept name m ?m" using c by (simp add: kept_remove)
      then obtain st1 where "map_of (services ?m) name = Some st1" using st by (auto simp: kept_def)
      then have "cm_core m' \<and> kept name ?m m' \<and> (\<forall>cid. r = Some cid \<longrightarrow> acquired name now ?m m' cid)"
        using 1(1) [of cid rest False ?m] rec Cons True out svc cm_core_remove [OF core c(1)] by simp
      then show ?thesis using k kept_trans acquired_kept by blast
    next
      case False
      then have "r = Some cid" "m' = taken_state name now m st cid rest c i"
        using run out svc Cons by (simp_all add: reuse_idle.simps [of name now m] split: if_splits)
      then show ?thesis using taken_facts [OF core st Cons c i] by simp
    qed
  qed
qed

subsection \<open>The backend selected\<close>

definition unweighted :: "BackendServer list \<Rightarrow> BackendServer list" where
  "unweighted bs = map (\<lambda>b. b\<lparr>currentWeight := 0\<rparr>) bs"

lemma unweighted_update [simp]:
  "unweighted (bs[i := (bs ! i)\<lparr>currentWeight := w\<rparr>]) = unweighted bs"
  by (cases "i < length bs") (auto simp: unweighted_def map_update intro!: nth_equalityI simp: nth_list_update)

lemma unweighted_eqD:
  assumes "unweighted bs' = unweighted bs"
  shows "length bs' = length bs"
    and "(\<And>b. f (b\<lparr>currentWeight := 0\<rparr>) = f b) \<Longrightarrow> map f bs' = map f bs"
proof -
  show "length bs' = length bs" using arg_cong [OF assms, of length] by (simp add: unweighted_def)
  have "map f (unweighted bs') = map f (unweighted bs)" using assms by simp
  then show "(\<And>b. f (b\<lparr>currentWeight := 0\<rparr>) = f b) \<Longrightarrow> map f bs' = map f bs" by (simp add: unweighted_def comp_def)
qed

lemma wrr_step_keeps: "wrr_step (bs, best, w) i = (bs', best', w') \<Longrightarrow> unweighted bs' = unweighted bs \<and> best' \<in> {Some i, best} - {None}"
  by (auto simp: wrr_step_def Let_def split: option.splits if_splits)

lemma wrr_fold_keeps:
  "foldl wrr_step (bs, best, w) hs = (bs', best', w') \<Longrightarrow>
   unweighted bs' = unweighted bs \<and> best' \<in> insert best (Some ` set hs) \<and> (hs \<noteq> [] \<longrightarrow> best' \<noteq> None)"
proof (induction hs arbitrary: bs best w)
  case (Cons i hs)
  obtain bs1 best1 w1 where s: "wrr_step (bs, best, w) i = (bs1, best1, w1)" by (cases "wrr_step (bs, best, w) i") auto
  from wrr_step_keeps [OF this] Cons.IH [of bs1 best1 w1] Cons.prems show ?case by (cases "hs = []") (auto simp: s)
qed simp

lemma min_element_in: "min_element lt s xs \<in> insert s (set xs)"
  by (induction xs arbitrary: s) (auto split: if_splits)

lemma healthy_indices_iff: "i \<in> set (healthy_indices bs) \<longleftrightarrow> i < length bs \<and> healthy (bs ! i)"
  by (auto simp: healthy_indices_def)

lemma healthy_indices_empty: "healthy_indices bs = [] \<longleftrightarrow> (\<forall>b\<in>set bs. \<not> healthy b)"
  by (auto simp: healthy_indices_def filter_empty_conv all_set_conv_all_nth)

definition same_service :: "ServiceState \<Rightarrow> ServiceState \<Rightarrow> bool" where
  "same_service st st' \<longleftrightarrow>
     unweighted (backends st') = unweighted (backends st) \<and> idleConnections st' = idleConnections st \<and>
     totalConnections st' = totalConnections st \<and> maxPoolSize st' = maxPoolSize st \<and> strategy st' = strategy st \<and>
     circuitBreaker st' = circuitBreaker st \<and> svc_pendingRequests st' = svc_pendingRequests st"

lemma select_none:
  "\<forall>b\<in>set (backends st). \<not> healthy b \<Longrightarrow> selectBackend draw hash key st = (None, st)"
  by (simp add: selectBackend_def healthy_indices_empty)

lemma select_some:
  assumes draw: "\<And>n. 0 < n \<Longrightarrow> draw n < n" and some: "\<exists>b\<in>set (backends st). healthy b"
  shows "\<exists>i st'. selectBackend draw hash key st = (Some i, st') \<and> i \<in> set (healthy_indices (backends st)) \<and> same_service st st'"
proof -
  let ?hs = "healthy_indices (backends st)"
  have hs: "?hs \<noteq> []" using some by (simp add: healthy_indices_empty)
  have nth: "?hs ! (k mod length ?hs) \<in> set ?hs" "?hs ! draw (length ?hs) \<in> set ?hs" for k
    using hs draw [of "length ?hs"] by (simp_all add: nth_mem)
  have rr: "\<exists>i st'. roundRobin ?hs st = (Some i, st') \<and> i \<in> set ?hs \<and> same_service st st'"
    using nth(1) by (simp add: roundRobin_def same_service_def)
  have mn: "min_element lt (hd ?hs) (tl ?hs) \<in> set ?hs" for lt
    using min_element_in [of lt "hd ?hs" "tl ?hs"] hs by (metis list.collapse list.simps(15))
  obtain bs best w where f: "foldl wrr_step (backends st, None, 0) ?hs = (bs, best, w)"
    by (cases "foldl wrr_step (backends st, None, 0) ?hs") auto
  then obtain i where i: "best = Some i" "i \<in> set ?hs" "unweighted bs = unweighted (backends st)"
    using wrr_fold_keeps [OF f] hs by auto
  show ?thesis
  proof (cases "strategy st")
    case WeightedRoundRobin
    then show ?thesis using hs f i by (simp add: selectBackend_def weightedRoundRobin_def Let_def same_service_def)
  qed (use hs nth rr mn in \<open>simp_all add: selectBackend_def Let_def same_service_def\<close>)
qed

lemma same_service_book:
  assumes "same_service st st'"
  shows "svc_book V st' = svc_book V st" "idle_served V st' = idle_served V st"
    "i < length (backends st) \<Longrightarrow> endpoint (backends st' ! i) = endpoint (backends st ! i) \<and> healthy (backends st' ! i) = healthy (backends st ! i)"
    "length (backends st') = length (backends st)"
proof -
  have u: "unweighted (backends st') = unweighted (backends st)" using assms by (simp add: same_service_def)
  show len: "length (backends st') = length (backends st)" by (rule unweighted_eqD [OF u])
  have "map (\<lambda>b. (endpoint b, activeConnections b)) (backends st') = map (\<lambda>b. (endpoint b, activeConnections b)) (backends st)"
    by (rule unweighted_eqD [OF u]) simp
  then show "svc_book V st' = svc_book V st" using assms by (intro svc_book_cong) (simp add: book_key_def same_service_def)
  have h: "map (\<lambda>b. (endpoint b, healthy b)) (backends st') = map (\<lambda>b. (endpoint b, healthy b)) (backends st)"
    by (rule unweighted_eqD [OF u]) simp
  then show "idle_served V st' = idle_served V st" by (rule idle_served_cong)
  show "i < length (backends st) \<Longrightarrow> endpoint (backends st' ! i) = endpoint (backends st ! i) \<and> healthy (backends st' ! i) = healthy (backends st ! i)"
    using arg_cong [OF h, of "\<lambda>xs. xs ! i"] len by simp
qed

subsection \<open>Acquiring keeps the invariant\<close>

definition in_use_kept :: "cm \<Rightarrow> cm \<Rightarrow> bool" where
  "in_use_kept m m' \<longleftrightarrow>
     (\<forall>k d. map_of (connections m) k = Some d \<longrightarrow> isActive d \<longrightarrow> map_of (connections m') k = Some d)"

lemma kept_in_use: "kept name m m' \<Longrightarrow> in_use_kept m m'"
  by (simp add: kept_def in_use_kept_def)

lemma create_facts:
  assumes core: "cm_core m" and st: "map_of (services m) name = Some st"
    and i: "i < length (backends st)" "healthy (backends st ! i)"
    and room: "totalConnections st < maxPoolSize st"
    and run: "createConnection name i now m = (cid, m')"
  shows "cm_core m'" "pend m' = pend m" "acquired name now m m' cid" "in_use_kept m m'"
proof -
  let ?b = "backends st ! i" and ?n = "nextConnectionId m"
  let ?c = "\<lparr>ci_id = ?n, ci_service = name, remoteHost = be_host ?b, remotePort = be_port ?b,
    createdAt = now, lastUsed = now, isActive = True\<rparr>"
  let ?st = "(map_backend i (\<lambda>b. b\<lparr>activeConnections := activeConnections b + 1\<rparr>) st)\<lparr>totalConnections := totalConnections st + 1\<rparr>"
  have m': "cid = ?n" "m' = set_svc name ?st (set_conn ?n ?c (m\<lparr>nextConnectionId := ?n + 1\<rparr>))"
    using run svc_Some [OF st] by (auto simp: createConnection_def Let_def)
  have bk: "cm_book m" "cm_served m" "svc_book (view m name) st" "idle_served (view m name) st"
    using core st by (simp_all add: cm_core_def cm_book_svc cm_served_def)
  have fresh: "map_of (connections m) ?n = None" using cm_book_conn [OF bk(1), of ?n] by (cases "map_of (connections m) ?n") auto
  have pos: "0 < ?n" using bk(1) by (simp add: cm_book_def)
  have rem: "remote ?c = endpoint ?b" by (simp add: remote_def endpoint_def)
  have sv: "map_of (services m') = (map_of (services m))(name \<mapsto> ?st)"
    and cn: "map_of (connections m') = (map_of (connections m))(?n \<mapsto> ?c)"
    and nx: "nextConnectionId m' = ?n + 1" "pendingRequests m' = pendingRequests m"
    by (simp_all add: m' set_conn_def update_conv')
  have d: "distinct (map fst (connections m'))" "distinct (map fst (services m'))"
    using cm_book_distinct [OF bk(1)] by (simp_all add: m')
  have one: "one_change m name ?st ?n (Some ?c) m'" using sv cn fresh by (simp add: one_change_def)
  have vn: "view m name ?n = None" using fresh by (simp add: view_def)
  have "svc_book ((view m name)(?n \<mapsto> ?c)) ?st" by (rule svc_book_create [OF bk(3) i(1) vn room]) (simp_all add: rem)
  then have "cm_book m'" using cm_book_one [OF bk(1) one d] nx pos by simp
  moreover have "cm_served m'"
  proof (rule cm_served_one [OF bk(2) one])
    have "idle_served ((view m name)(?n \<mapsto> ?c)) (map_backend i (\<lambda>b. b\<lparr>activeConnections := activeConnections b + 1\<rparr>)
      (st\<lparr>idleConnections := idleConnections st\<rparr>))"
      by (rule served_release [OF bk(4) i]) (simp add: rem)
    then show "idle_served ((view m name)(?n := Some ?c)) ?st" by (simp add: idle_served_def)
  qed
  ultimately show "cm_core m'" by (simp add: cm_core_def)
  show "pend m' = pend m" using st nx by (auto simp: pend_def sv fun_eq_iff)
  show "acquired name now m m' cid" unfolding m'(1)
    by (rule acquiredI [where c = ?c and st = ?st and i = i])
      (use i sv cn pos fresh rem in \<open>simp_all add: map_backend_nth\<close>)
  show "in_use_kept m m'" using fresh by (auto simp: in_use_kept_def cn)
qed

lemma core_same_service:
  assumes core: "cm_core m" and st: "map_of (services m) name = Some st" and same: "same_service st st'"
  shows "cm_core (set_svc name st' m)" "pend (set_svc name st' m) = pend m"
proof -
  have "svc_book (view m name) st'" "idle_served (view m name) st'"
    using core st same_service_book [OF same] by (simp_all add: cm_core_def cm_book_svc cm_served_def)
  then show "cm_core (set_svc name st' m)" using core by (simp add: cm_core_def cm_book_set_svc cm_served_set_svc)
  show "pend (set_svc name st' m) = pend m" using same st by (auto simp: pend_def same_service_def fun_eq_iff)
qed

lemma kept_service:
  assumes "kept name m m1" "map_of (services m) name = Some st"
  shows "\<exists>st1. map_of (services m1) name = Some st1 \<and> totalConnections st1 \<le> totalConnections st \<and> maxPoolSize st1 = maxPoolSize st \<and>
    map (\<lambda>b. (endpoint b, healthy b)) (backends st1) = map (\<lambda>b. (endpoint b, healthy b)) (backends st)"
proof -
  obtain st1 where st1: "map_of (services m1) name = Some st1" "totalConnections st1 \<le> totalConnections st" "maxPoolSize st1 = maxPoolSize st"
    using assms by (auto simp: kept_def)
  have "health m1 name = health m name" using assms(1) by (simp add: kept_def)
  then show ?thesis using st1 assms(2) by (simp add: health_def)
qed

lemma in_use_trans: "in_use_kept m1 m2 \<Longrightarrow> in_use_kept m2 m3 \<Longrightarrow> in_use_kept m1 m3"
  by (simp add: in_use_kept_def)

lemma in_use_set_svc [simp]: "in_use_kept m (set_svc name st m') = in_use_kept m m'"
  by (simp add: in_use_kept_def)

lemma acquired_from_set_svc [simp]: "acquired name now (set_svc n st m) m' cid = acquired name now m m' cid"
  by (simp add: acquired_def)

definition took :: "string \<Rightarrow> clock \<Rightarrow> cm \<Rightarrow> conn_id \<Rightarrow> cm \<Rightarrow> bool" where
  "took name now m cid m' \<longleftrightarrow>
     cm_core m' \<and> pend m' = pend m \<and> in_use_kept m m' \<and> (cid \<noteq> 0 \<longrightarrow> acquired name now m m' cid)"

lemma open_new_spec:
  assumes draw: "\<And>n. 0 < n \<Longrightarrow> draw n < n" and core: "cm_core m" and st: "map_of (services m) name = Some st"
    and run: "open_new draw hash name key now m = (cid, m')"
  shows "took name now m cid m' \<and>
    (totalConnections st < maxPoolSize st \<and> (\<exists>b\<in>set (backends st). healthy b) \<longrightarrow> cid \<noteq> 0)"
proof -
  note svc = svc_Some [OF st]
  consider (full) "totalConnections st \<ge> maxPoolSize st"
    | (none) "totalConnections st < maxPoolSize st" "\<forall>b\<in>set (backends st). \<not> healthy b"
    | (one) "totalConnections st < maxPoolSize st" "\<exists>b\<in>set (backends st). healthy b" by fastforce
  then show ?thesis
  proof cases
    case full
    then have "cid = 0" "m' = m" using run by (simp_all add: open_new_def getServiceConnectionCount_def st svc)
    then show ?thesis using core full by (simp add: took_def in_use_kept_def)
  next
    case none
    then have "cid = 0" "m' = set_svc name st m"
      using run by (auto simp: open_new_def getServiceConnectionCount_def st svc select_none)
    then show ?thesis using none core_same_service [OF core st, of st] by (simp add: took_def in_use_kept_def same_service_def)
  next
    case one
    obtain i st2 where sel: "selectBackend draw hash key st = (Some i, st2)"
      "i \<in> set (healthy_indices (backends st))" "same_service st st2"
      using select_some [OF draw one(2)] by blast
    let ?m = "set_svc name st2 m"
    note same = same_service_book [OF sel(3)]
    have cr: "createConnection name i now ?m = (cid, m')"
      using run one sel(1) by (simp add: open_new_def getServiceConnectionCount_def st svc)
    have i: "i < length (backends st2)" "healthy (backends st2 ! i)" using sel(2) same(3,4) by (simp_all add: healthy_indices_iff)
    have room: "totalConnections st2 < maxPoolSize st2" using one(1) sel(3) by (simp add: same_service_def)
    note m2 = core_same_service [OF core st sel(3)]
    have "map_of (services ?m) name = Some st2" by simp
    note cf = create_facts [OF m2(1) this i room cr]
    have "acquired name now m m' cid" "in_use_kept m m'" using cf(3,4) by (simp_all add: in_use_kept_def)
    then show ?thesis using cf m2(2) by (auto simp: took_def acquired_def)
  qed
qed

lemma take_connection_spec:
  assumes draw: "\<And>n. 0 < n \<Longrightarrow> draw n < n" and core: "cm_core m" and st: "map_of (services m) name = Some st"
    and run: "take_connection draw hash name key now m = (cid, m')"
  shows "took name now m cid m' \<and>
    (totalConnections st < maxPoolSize st \<and> (\<exists>b\<in>set (backends st). healthy b) \<longrightarrow> cid \<noteq> 0)"
proof -
  obtain r m1 where ri: "reuse_idle name now m = (r, m1)" by (cases "reuse_idle name now m")
  note sp = reuse_idle_spec [OF core st ri]
  then have k: "cm_core m1" "kept name m m1" by simp_all
  then have k': "pend m1 = pend m" "in_use_kept m m1" by (simp_all add: kept_in_use) (simp add: kept_def)
  show ?thesis
  proof (cases r)
    case (Some a)
    then have "acquired name now m m1 a" "cid = a" "m' = m1" using sp run by (simp_all add: take_connection_def ri)
    then show ?thesis using k k' by (auto simp: took_def acquired_def)
  next
    case None
    then have run': "open_new draw hash name key now m1 = (cid, m')"
      using run by (simp add: take_connection_def ri)
    obtain st1 where st1: "map_of (services m1) name = Some st1" "totalConnections st1 \<le> totalConnections st"
        "maxPoolSize st1 = maxPoolSize st"
      and h: "map (\<lambda>b. (endpoint b, healthy b)) (backends st1) = map (\<lambda>b. (endpoint b, healthy b)) (backends st)"
      using kept_service [OF k(2) st] by blast
    have hs: "(\<exists>b\<in>set (backends st1). healthy b) \<longleftrightarrow> (\<exists>b\<in>set (backends st). healthy b)"
      using arg_cong [OF h, of "\<lambda>xs. True \<in> set (map snd xs)"] by (force simp: comp_def)
    note new = open_new_spec [OF draw k(1) st1(1) run']
    then have "took name now m cid m'"
      using k' acquired_kept [OF k(2)] in_use_trans by (auto simp: took_def)
    then show ?thesis using new hs st1 by simp
  qed
qed

lemma core_pending:
  assumes core: "cm_core m" and st: "map_of (services m) name = Some st"
    and m': "map_of (services m') = (map_of (services m))(name \<mapsto> st')" "connections m' = connections m"
      "nextConnectionId m' = nextConnectionId m" "distinct (map fst (services m'))"
    and st': "book_key st' = book_key st" "backends st' = backends st"
  shows "cm_core m'"
proof -
  have v: "view m' = view m" by (rule view_cong) (simp add: m')
  have "svc_book (view m name) st'" "idle_served (view m name) st"
    using core st svc_book_cong [OF st'(1)] by (simp_all add: cm_core_def cm_book_svc cm_served_def)
  moreover from this(2) have "idle_served (view m name) st'" by (simp add: idle_served_def st'(2))
  ultimately show ?thesis using core by (auto simp: cm_core_def cm_book_def cm_served_def v m')
qed

lemma begin_facts:
  assumes core: "cm_core m" and st: "map_of (services m) name = Some st"
  shows "cm_core (begin_request name m)" "in_use_kept m' (begin_request name m) = in_use_kept m' m"
    "map_of (services (begin_request name m)) = (map_of (services m))(name \<mapsto> st\<lparr>svc_pendingRequests := svc_pendingRequests st + 1\<rparr>)"
    "pendingRequests (begin_request name m) = pendingRequests m + 1" "connections (begin_request name m) = connections m"
proof -
  note d = cm_book_distinct(2) [of m]
  show sv: "map_of (services (begin_request name m)) = (map_of (services m))(name \<mapsto> st\<lparr>svc_pendingRequests := svc_pendingRequests st + 1\<rparr>)"
    using svc_Some [OF st] by (simp add: begin_request_def update_conv' set_svc_def)
  show c: "connections (begin_request name m) = connections m" by (simp add: begin_request_def)
  show "cm_core (begin_request name m)"
    by (rule core_pending [OF core st sv c])
      (use core d in \<open>simp_all add: begin_request_def cm_core_def book_key_def\<close>)
qed (simp_all add: begin_request_def in_use_kept_def)

lemma finish_services:
  assumes st: "map_of (services m) name = Some st"
  shows "map_of (services (finish_request name m)) = (map_of (services m))(name \<mapsto> st\<lparr>svc_pendingRequests := svc_pendingRequests st - 1\<rparr>)"
    "pendingRequests (finish_request name m) = pendingRequests m - 1" "connections (finish_request name m) = connections m"
    "nextConnectionId (finish_request name m) = nextConnectionId m"
    "distinct (map fst (services m)) \<Longrightarrow> distinct (map fst (services (finish_request name m)))"
proof -
  have "svc (m\<lparr>pendingRequests := k\<rparr>) name = st" "svc m name = st" for k using st by (simp_all add: svc_def)
  then show "map_of (services (finish_request name m)) = (map_of (services m))(name \<mapsto> st\<lparr>svc_pendingRequests := svc_pendingRequests st - 1\<rparr>)"
    "pendingRequests (finish_request name m) = pendingRequests m - 1" "connections (finish_request name m) = connections m"
    "nextConnectionId (finish_request name m) = nextConnectionId m"
    "distinct (map fst (services m)) \<Longrightarrow> distinct (map fst (services (finish_request name m)))"
    using st by (auto simp: finish_request_def Let_def fun_eq_iff)
qed

lemma finish_facts:
  assumes core: "cm_core m" and st: "map_of (services m) name = Some st"
  shows "cm_core (finish_request name m)" "in_use_kept m' (finish_request name m) = in_use_kept m' m"
    "acquired name now m' m cid \<Longrightarrow> acquired name now m' (finish_request name m) cid"
proof -
  note fs = finish_services [OF st]
  have "distinct (map fst (services m))" using core by (simp add: cm_core_def cm_book_distinct)
  then show "cm_core (finish_request name m)"
    by (intro core_pending [OF core st fs(1,3,4,5)]) (simp_all add: book_key_def)
  show "in_use_kept m' (finish_request name m) = in_use_kept m' m" by (simp add: in_use_kept_def fs)
  show "acquired name now m' m cid \<Longrightarrow> acquired name now m' (finish_request name m) cid"
    using st unfolding acquired_def by (auto simp: fs)
qed

lemma finish_quiet:
  assumes q: "cm_quiet m" "map_of (services m) name = Some st" and core: "cm_core m"
    and m': "pend m' = pend (begin_request name m)" "map_of (services m') name = Some st'"
  shows "cm_quiet (finish_request name m')"
proof -
  note bf = begin_facts [OF core q(2)]
  have p: "pendingRequests m' = 1" using m'(1) bf(4) q by (simp add: pend_def cm_quiet_def)
  have s: "map_option svc_pendingRequests (map_of (services m') n) =
    (if n = name then Some 1 else map_option svc_pendingRequests (map_of (services m) n))" for n
    using m'(1) q by (simp add: pend_def bf(3) cm_quiet_def fun_eq_iff)
  have "svc_pendingRequests st' = 1" using s [of name] m'(2) by simp
  moreover have "svc_pendingRequests t = 0" if "n \<noteq> name" "map_of (services m') n = Some t" for n t
    using s [of n] that q by (cases "map_of (services m) n") (auto simp: cm_quiet_def)
  ultimately show ?thesis using p by (auto simp: cm_quiet_def finish_services [OF m'(2)])
qed

lemma prepare_keeps:
  "prepareCircuitBreaker m now st = (a, st') \<Longrightarrow> same_service (st\<lparr>circuitBreaker := circuitBreaker st'\<rparr>) st' \<and>
     backends st' = backends st"
  by (auto simp: prepareCircuitBreaker_def Let_def same_service_def split: if_splits)

definition admitted :: "string \<Rightarrow> clock \<Rightarrow> cm \<Rightarrow> bool" where
  "admitted name now m =
     (let m = begin_request name (ensureServiceState name m) in fst (prepareCircuitBreaker m now (svc m name)))"

definition prepared :: "string \<Rightarrow> clock \<Rightarrow> cm \<Rightarrow> ServiceState" where
  "prepared name now m =
     (let m = begin_request name (ensureServiceState name m) in snd (prepareCircuitBreaker m now (svc m name)))"

lemma prepared_facts:
  fixes name now m
  assumes inv: "cm_inv m"
  defines "b \<equiv> begin_request name (ensureServiceState name m)" and "st \<equiv> prepared name now m"
  shows "cm_core (set_svc name st b)" "pend (set_svc name st b) = pend b" "connections b = connections m"
    "map_of (services m) name = Some st1 \<Longrightarrow>
     totalConnections st = totalConnections st1 \<and> maxPoolSize st = maxPoolSize st1 \<and> backends st = backends st1"
proof -
  let ?e = "ensureServiceState name m"
  have e: "cm_core ?e" using cm_inv_ensure [OF inv] by (simp add: cm_inv_core)
  obtain st0 where st0: "map_of (services ?e) name = Some st0" using ensure_defined by blast
  let ?st0 = "st0\<lparr>svc_pendingRequests := svc_pendingRequests st0 + 1\<rparr>"
  note bf = begin_facts [OF e st0, folded b_def]
  show "connections b = connections m" using bf(5) by simp
  have svb: "map_of (services b) name = Some ?st0" using bf(3) by simp
  have "prepareCircuitBreaker b now ?st0 = (admitted name now m, st)"
    using svc_Some [OF svb] by (simp add: st_def prepared_def admitted_def b_def)
  from prepare_keeps [OF this]
  have same: "same_service (?st0\<lparr>circuitBreaker := circuitBreaker st\<rparr>) st" "backends st = backends ?st0" by simp_all
  then have bk: "book_key st = book_key ?st0" and pd: "svc_pendingRequests st = svc_pendingRequests ?st0"
    by (simp_all add: same_service_def book_key_def)
  show "cm_core (set_svc name st b)"
    using cm_book_distinct(2) [of b] bf(1)
    by (intro core_pending [OF bf(1) svb _ _ _ _ bk]) (simp_all add: cm_core_def same(2))
  show "pend (set_svc name st b) = pend b" using svb pd by (auto simp: pend_def fun_eq_iff)
  assume st1: "map_of (services m) name = Some st1"
  then have "maxPoolSize st1 \<noteq> 0" using inv cm_book_svc [of m name st1] by (auto simp: cm_inv_def svc_book_def)
  then have "st1 = st0" using ensure_existing [OF st1] st0 st1 by simp
  then show "totalConnections st = totalConnections st1 \<and> maxPoolSize st = maxPoolSize st1 \<and> backends st = backends st1"
    using same by (simp add: same_service_def)
qed

lemma acquire_facts:
  assumes draw: "\<And>n. 0 < n \<Longrightarrow> draw n < n" and inv: "cm_inv m" and name: "name \<noteq> []"
    and run: "acquireConnection draw hash name key now m = (cid, m')"
  shows "cm_inv m' \<and> in_use_kept m m' \<and> (cid \<noteq> 0 \<longrightarrow> admitted name now m \<and> acquired name now m m' cid) \<and>
    (\<forall>st. map_of (services m) name = Some st \<and> admitted name now m \<and> totalConnections st < maxPoolSize st \<and>
      (\<exists>b\<in>set (backends st). healthy b) \<longrightarrow> cid \<noteq> 0)"
proof -
  let ?e = "ensureServiceState name m" and ?st = "prepared name now m" and ?a = "admitted name now m"
  let ?b = "begin_request name ?e"
  let ?p = "set_svc name ?st ?b"
  have ec: "cm_core ?e" "cm_quiet ?e" using cm_inv_ensure [OF inv] by (simp_all add: cm_inv_core)
  obtain st0 where st0: "map_of (services ?e) name = Some st0" using ensure_defined by blast
  note pf = prepared_facts(1,2,4) [OF inv, where name = name and now = now] and conns = prepared_facts(3) [OF inv]
  have start: "in_use_kept m m3 = in_use_kept ?p m3" "acquired name now m m3 k = acquired name now ?p m3 k" for m3 k
    by (simp_all add: in_use_kept_def acquired_def conns)
  have svp: "map_of (services ?p) name = Some ?st" by simp
  have prep: "prepareCircuitBreaker ?b now (svc ?b name) = (?a, ?st)" by (simp add: admitted_def prepared_def Let_def)
  obtain c3 m3 where m3: "(if ?a then take_connection draw hash name key now ?p else (0, ?p)) = (c3, m3)"
    by (metis surj_pair)
  have out: "cid = c3" "m' = finish_request name m3"
    using run name prep m3 by (auto simp: acquireConnection_def Let_def split: if_splits)
  have took: "took name now ?p c3 m3 \<and> (?a \<and> totalConnections ?st < maxPoolSize ?st \<and> (\<exists>b\<in>set (backends ?st). healthy b) \<longrightarrow> c3 \<noteq> 0)"
  proof (cases ?a)
    case True
    then have "take_connection draw hash name key now ?p = (c3, m3)" using m3 by simp
    from take_connection_spec [OF draw pf(1) svp this] show ?thesis by simp
  next
    case False
    then show ?thesis using m3 pf(1) by (auto simp: took_def in_use_kept_def)
  qed
  then have t: "cm_core m3" "pend m3 = pend ?b" "in_use_kept m m3" "c3 \<noteq> 0 \<longrightarrow> acquired name now m m3 c3"
    using pf(2) by (simp_all add: took_def start)
  have "snd (pend m3) name = snd (pend ?b) name" using t(2) by simp
  then obtain st3 where st3: "map_of (services m3) name = Some st3"
    using begin_facts(3) [OF ec(1) st0] by (auto simp: pend_def)
  note ff = finish_facts [OF t(1) st3]
  have inv': "cm_inv m'" using ff(1) finish_quiet [OF ec(2) st0 ec(1) t(2) st3] out by (simp add: cm_inv_core)
  have "c3 \<noteq> 0 \<longrightarrow> ?a" using m3 by (auto split: if_splits)
  then show ?thesis using inv' ff t took out pf(3) by auto
qed

lemma cm_inv_acquire:
  assumes "\<And>n. 0 < n \<Longrightarrow> draw n < n" "cm_inv m"
  shows "cm_inv (snd (acquireConnection draw hash name key now m))"
proof (cases "name = []")
  case True
  then show ?thesis using assms(2) by (simp add: acquireConnection_def)
next
  case False
  then show ?thesis
    using acquire_facts [OF assms False, of hash key now "fst (acquireConnection draw hash name key now m)"
        "snd (acquireConnection draw hash name key now m)"] by simp
qed

lemmas cm_inv_intros = cm_inv_cleanup cm_inv_acquire cm_inv_release cm_inv_close cm_inv_add cm_inv_removeBackend
  cm_inv_weight cm_inv_strategy cm_inv_reportAll cm_inv_report cm_inv_execution cm_inv_healthCheck cm_inv_cleanupExpired

lemma cm_step_inv: "cm_step m m' \<Longrightarrow> cm_inv m \<Longrightarrow> cm_inv m'"
  by (induction rule: cm_step.induct)
    (simp_all add: cm_inv_intros cm_initialize_def cm_inv_running maintenance_def)

interpretation cms: invariant_system cm_init cm_step cm_inv
  by unfold_locales (auto simp: cm_init_def cm_inv_new cm_step_inv)

subsection \<open>Counters and recounts\<close>

lemma recount:
  "distinct (map fst xs) \<Longrightarrow>
   length (filter (\<lambda>(k, v). P v) xs) = card {k. \<exists>v. map_of xs k = Some v \<and> P v}"
proof -
  assume d: "distinct (map fst xs)"
  let ?ys = "filter (\<lambda>(k, v). P v) xs"
  have "{k. \<exists>v. map_of xs k = Some v \<and> P v} = set (map fst ?ys)"
    using d by (force simp: map_of_eq_Some_iff)
  moreover have "distinct (map fst ?ys)" using d by (rule distinct_map_filter)
  ultimately show ?thesis by (metis distinct_card length_map)
qed

lemma view_count:
  assumes "cm_book m"
  shows "length (filter (\<lambda>(cid, c). P c) (filter (\<lambda>(cid, c). ci_service c = name) (connections m))) =
         card {cid. \<exists>c. view m name cid = Some c \<and> P c}"
proof -
  have "filter (\<lambda>(cid, c). P c) (filter (\<lambda>(cid, c). ci_service c = name) (connections m)) =
        filter (\<lambda>(cid, c). ci_service c = name \<and> P c) (connections m)" by (simp add: case_prod_unfold)
  moreover have "{cid. \<exists>c. view m name cid = Some c \<and> P c} =
      {cid. \<exists>c. map_of (connections m) cid = Some c \<and> ci_service c = name \<and> P c}"
    by (simp add: view_Some conj_assoc)
  ultimately show ?thesis using recount [of "connections m" "\<lambda>c. ci_service c = name \<and> P c"] cm_book_distinct(1) [OF assms] by simp
qed

lemma sum_users:
  assumes "finite (dom V)" "distinct es"
  shows "sum_list (map (\<lambda>e. card (users V e)) es) \<le> card {cid. \<exists>c. V cid = Some c \<and> isActive c}"
proof -
  have fin: "finite {cid. \<exists>c. V cid = Some c \<and> isActive c}"
    by (rule finite_subset [OF _ assms(1)]) auto
  have "sum_list (map (\<lambda>e. card (users V e)) es) = (\<Sum>e\<in>set es. card (users V e))"
    using assms(2) by (simp add: sum_list_distinct_conv_sum_set)
  also have "\<dots> = card (\<Union>e\<in>set es. users V e)"
    using users_finite [OF assms(1)] by (subst card_UN_disjoint) (auto simp: users_def)
  also have "\<dots> \<le> card {cid. \<exists>c. V cid = Some c \<and> isActive c}"
    by (rule card_mono [OF fin]) (auto simp: users_def)
  finally show ?thesis .
qed

lemma active_count_sum: "getActiveConnectionCount st = sum_list (map activeConnections (backends st))"
proof -
  have "foldl (\<lambda>n b. n + activeConnections b) a bs = a + sum_list (map activeConnections bs)"
    for a and bs :: "BackendServer list"
    by (induction bs arbitrary: a) simp_all
  then show ?thesis by (simp add: getActiveConnectionCount_def)
qed

lemma active_count_bound:
  assumes "svc_book V st"
  shows "getActiveConnectionCount st \<le> card {cid. \<exists>c. V cid = Some c \<and> isActive c}"
proof -
  have "sum_list (map activeConnections (backends st)) \<le> sum_list (map (\<lambda>b. card (users V (endpoint b))) (backends st))"
    using assms by (intro sum_list_mono) (auto simp: svc_book_def in_set_conv_nth)
  also have "\<dots> = sum_list (map (\<lambda>e. card (users V e)) (map endpoint (backends st)))" by (simp add: comp_def)
  also have "\<dots> \<le> card {cid. \<exists>c. V cid = Some c \<and> isActive c}"
    using assms by (intro sum_users) (auto simp: svc_book_def)
  finally show ?thesis by (simp add: active_count_sum)
qed

text \<open>C3: In every state a sequence of operations and maintenance rounds can reach, the counters the manager keeps
  incrementally agree with a recount of its connections. For every service the connections counted are the
  connections that exist and do not exceed the pool size, the queue of idle connections lists exactly the idle
  connections, each once, each of them leads to a healthy backend of the service, the backends together never count
  more connections in use than there are, and no request is pending between operations.\<close>

theorem manager_counters:
  assumes "cm_reachable m" and st: "map_of (services m) name = Some st"
  shows "totalConnections st = ss_totalConnections (getServiceStats m name) \<and>
    totalConnections st \<le> maxPoolSize st \<and>
    distinct (idleConnections st) \<and>
    length (idleConnections st) = ss_idleConnections (getServiceStats m name) \<and>
    (\<forall>cid. cid \<in> set (idleConnections st) \<longleftrightarrow>
       (\<exists>c. map_of (connections m) cid = Some c \<and> ci_service c = name \<and> \<not> isActive c)) \<and>
    (\<forall>cid c. map_of (connections m) cid = Some c \<and> ci_service c = name \<and> \<not> isActive c \<longrightarrow>
       (\<exists>b\<in>set (backends st). healthy b \<and> backendMatchesConnection b c)) \<and>
    getActiveConnectionCount st \<le> ss_activeConnections (getServiceStats m name) \<and>
    pendingRequests m = 0 \<and> svc_pendingRequests st = 0"
proof -
  have inv: "cm_book m" "cm_served m" "cm_quiet m" using cms.reach_good [OF assms(1)] by (simp_all add: cm_inv_def)
  have bk: "svc_book (view m name) st" using inv(1) st by (rule cm_book_svc)
  have dom: "dom (view m name) = {cid. \<exists>c. view m name cid = Some c \<and> True}" by auto
  have own: "filter (\<lambda>(cid, c). True) xs = xs" for xs :: "(conn_id \<times> ConnectionInfo) list" by (simp add: case_prod_unfold)
  have "ss_totalConnections (getServiceStats m name) = card (dom (view m name))"
    using view_count [OF inv(1), of "\<lambda>c. True" name] st by (simp add: getServiceStats_def Let_def dom own)
  moreover have "ss_idleConnections (getServiceStats m name) = card (idles (view m name))"
    using view_count [OF inv(1), of "\<lambda>c. \<not> isActive c" name] st by (simp add: getServiceStats_def Let_def idles_def)
  moreover have "ss_activeConnections (getServiceStats m name) = card {cid. \<exists>c. view m name cid = Some c \<and> isActive c}"
    using view_count [OF inv(1), of isActive name] st by (simp add: getServiceStats_def Let_def)
  moreover have "length (idleConnections st) = card (idles (view m name))"
    using bk distinct_card [of "idleConnections st"] by (simp add: svc_book_def)
  moreover have "\<forall>cid c. map_of (connections m) cid = Some c \<and> ci_service c = name \<and> \<not> isActive c \<longrightarrow>
      (\<exists>b\<in>set (backends st). healthy b \<and> backendMatchesConnection b c)"
    using served_backend [OF inv(2) st] unfolding view_Some matches_endpoint by blast
  moreover have "\<forall>cid. cid \<in> set (idleConnections st) \<longleftrightarrow>
      (\<exists>c. map_of (connections m) cid = Some c \<and> ci_service c = name \<and> \<not> isActive c)"
    using bk by (simp add: svc_book_def idles_def view_Some conj_assoc)
  ultimately show ?thesis using bk inv(3) st active_count_bound [OF bk] by (simp add: svc_book_def cm_quiet_def)
qed

text \<open>C8: A nonzero identifier returned by \<open>acquireConnection\<close> names an active connection of the requested
  service to a healthy backend of it, which nobody was using before the call, and the call changes no connection in
  use; the circuit breaker had admitted the request. A refused request returns 0.\<close>

theorem acquire_exclusive:
  assumes "cm_reachable m" "\<forall>n>0. draw n < n"
    and run: "acquireConnection draw hash name key now m = (cid, m')" and "cid \<noteq> 0"
  shows "(\<forall>c. map_of (connections m) cid = Some c \<longrightarrow> \<not> isActive c) \<and>
    (\<exists>c st b. map_of (connections m') cid = Some c \<and> isActive c \<and> ci_id c = cid \<and> ci_service c = name \<and> lastUsed c = now \<and>
       map_of (services m') name = Some st \<and> b \<in> set (backends st) \<and> healthy b \<and> backendMatchesConnection b c) \<and>
    (\<forall>k c. map_of (connections m) k = Some c \<and> isActive c \<longrightarrow> k \<noteq> cid \<and> map_of (connections m') k = Some c) \<and>
    admitted name now m"
proof -
  have ne: "name \<noteq> []" using run \<open>cid \<noteq> 0\<close> by (auto simp: acquireConnection_def)
  have "cm_inv m" using assms(1) by (rule cms.reach_good)
  then have f: "in_use_kept m m'" "admitted name now m" "acquired name now m m' cid"
    using acquire_facts [OF _ _ ne run] assms(2,4) by simp_all
  then show ?thesis unfolding in_use_kept_def acquired_def by blast
qed

subsection \<open>Progress and the circuit breaker\<close>

lemma begin_ensure_svc:
  assumes "map_of (services m) name = Some st"
  shows "\<exists>st'. svc (begin_request name (ensureServiceState name m)) name = st' \<and>
    circuitBreaker st' = circuitBreaker st \<and> backends st' = backends st"
  using assms by (simp add: begin_request_def ensureServiceState_def Let_def)

lemma begin_ensure_config [simp]:
  "circuitBreakerEnabled (begin_request name (ensureServiceState name m)) = circuitBreakerEnabled m"
  "recoveryTimeout (begin_request name (ensureServiceState name m)) = recoveryTimeout m"
  "halfOpenAttempts (begin_request name (ensureServiceState name m)) = halfOpenAttempts m"
  by (simp_all add: begin_request_def ensureServiceState_def Let_def)

lemma admitted_iff:
  assumes "map_of (services m) name = Some st"
  shows "admitted name now m \<longleftrightarrow>
    \<not> circuitBreakerEnabled m \<or> cb_state (circuitBreaker st) = Closed \<or>
    \<not> (cb_state (circuitBreaker st) = Open \<and> recoveryTimeout m > 0 \<and>
       now - cb_lastFailureTime (circuitBreaker st) < in_ticks (recoveryTimeout m)) \<and>
    getActiveConnectionCount st < halfOpenAttempts m"
proof -
  obtain st' where st': "svc (begin_request name (ensureServiceState name m)) name = st'"
    "circuitBreaker st' = circuitBreaker st" "backends st' = backends st" using begin_ensure_svc [OF assms] by blast
  then show ?thesis
    by (cases "cb_state (circuitBreaker st)")
      (auto simp: admitted_def prepareCircuitBreaker_def Let_def getActiveConnectionCount_def)
qed

text \<open>C18: A request for a service whose circuit breaker is closed (or disabled), whose pool has room and which has a
  healthy backend is always served: \<open>acquireConnection\<close> returns a connection.\<close>

theorem acquire_succeeds:
  assumes "cm_reachable m" "\<forall>n>0. draw n < n" "name \<noteq> []" "map_of (services m) name = Some st"
    "\<not> circuitBreakerEnabled m \<or> cb_state (circuitBreaker st) = Closed"
    "totalConnections st < maxPoolSize st" "\<exists>b\<in>set (backends st). healthy b"
  shows "fst (acquireConnection draw hash name key now m) \<noteq> 0"
proof -
  obtain cid m' where run: "acquireConnection draw hash name key now m = (cid, m')" by (metis surj_pair)
  have "admitted name now m" using assms(4,5) by (auto simp: admitted_iff)
  then have "cid \<noteq> 0"
    using acquire_facts [OF _ cms.reach_good [OF assms(1)] assms(3) run] assms(2,4,6,7) by auto
  then show ?thesis by (simp add: run)
qed

definition failures :: "nat \<Rightarrow> nat \<Rightarrow> CircuitBreakerStats \<Rightarrow> clock list \<Rightarrow> CircuitBreakerStats" where
  "failures threshold attempts = foldl (\<lambda>br t. applyExecutionResult br False threshold attempts t)"

definition successes :: "nat \<Rightarrow> nat \<Rightarrow> CircuitBreakerStats \<Rightarrow> clock list \<Rightarrow> CircuitBreakerStats" where
  "successes threshold attempts = foldl (\<lambda>br t. applyExecutionResult br True threshold attempts t)"

lemma failures_open: "cb_state br = Open \<Longrightarrow> cb_state (failures k n br ts) = Open"
  by (induction ts arbitrary: br) (simp_all add: failures_def applyExecutionResult_def Let_def)

lemma failures_closed:
  "cb_state br = Closed \<Longrightarrow> ts \<noteq> [] \<Longrightarrow>
   cb_state (failures k n br ts) = (if cb_failureCount br + length ts < k then Closed else Open)"
proof (induction ts arbitrary: br)
  case (Cons t ts)
  let ?br = "applyExecutionResult br False k n t"
  have step: "failures k n br (t # ts) = failures k n ?br ts" by (simp add: failures_def)
  show ?case
  proof (cases "cb_failureCount br + 1 < k")
    case True
    then have "cb_state ?br = Closed" "cb_failureCount ?br = cb_failureCount br + 1"
      using Cons.prems by (simp_all add: applyExecutionResult_def Let_def)
    then show ?thesis using Cons.IH [of ?br] True by (cases "ts = []") (simp_all add: step, simp add: failures_def)
  next
    case False
    then have "cb_state ?br = Open" by (simp add: applyExecutionResult_def Let_def)
    then show ?thesis using failures_open [of ?br] False by (simp add: step)
  qed
qed simp

lemma failures_last: "ts \<noteq> [] \<Longrightarrow> cb_lastFailureTime (failures k n br ts) = last ts"
proof (induction ts arbitrary: br)
  case (Cons t ts)
  have "cb_lastFailureTime (applyExecutionResult br False k n t) = t" by (simp add: applyExecutionResult_def Let_def)
  then show ?case using Cons.IH by (cases "ts = []") (simp_all add: failures_def)
qed simp

definition reports :: "string \<Rightarrow> bool \<Rightarrow> clock list \<Rightarrow> cm \<Rightarrow> cm" where
  "reports name success ts m = foldl (\<lambda>m t. reportExecution name success t m) m ts"

lemma reports_service:
  assumes "circuitBreakerEnabled m" "map_of (services m) name = Some st"
  shows "map_of (services (reports name success ts m)) name = Some (st\<lparr>circuitBreaker :=
      foldl (\<lambda>br t. applyExecutionResult br success (failureThreshold m) (halfOpenAttempts m) t) (circuitBreaker st) ts\<rparr>) \<and>
    circuitBreakerEnabled (reports name success ts m) \<and> connections (reports name success ts m) = connections m \<and> recoveryTimeout (reports name success ts m) = recoveryTimeout m \<and>
    failureThreshold (reports name success ts m) = failureThreshold m \<and> halfOpenAttempts (reports name success ts m) = halfOpenAttempts m"
  using assms unfolding reports_def
proof (induction ts arbitrary: m st)
  case (Cons t ts)
  let ?m = "reportExecution name success t m"
  have "map_of (services ?m) name = Some (report_breaker success t m st)" "circuitBreakerEnabled ?m"
    "connections ?m = connections m" "recoveryTimeout ?m = recoveryTimeout m"
    "failureThreshold ?m = failureThreshold m" "halfOpenAttempts ?m = halfOpenAttempts m"
    using Cons.prems by (simp_all add: reportExecution_def)
  then show ?case using Cons.IH [of ?m] by (simp add: report_breaker_def)
qed simp

text \<open>C29: A closed circuit breaker without failures stays closed for fewer reported failures in a row than the
  threshold and opens at the threshold; while it is open and the recovery time since the last failure has not
  passed, \<open>acquireConnection\<close> refuses the service and touches no connection.\<close>

theorem breaker_opens:
  assumes "circuitBreakerEnabled m" "map_of (services m) name = Some st" "ts \<noteq> []"
    "cb_state (circuitBreaker st) = Closed" "cb_failureCount (circuitBreaker st) = 0"
  shows "cb_state (getCircuitBreakerStats (reports name False ts m) name) = (if length ts < failureThreshold m then Closed else Open) \<and>
    (failureThreshold m \<le> length ts \<and> 0 < recoveryTimeout m \<and> now < last ts + in_ticks (recoveryTimeout m) \<longrightarrow>
       fst (acquireConnection draw hash name key now (reports name False ts m)) = 0 \<and>
       connections (snd (acquireConnection draw hash name key now (reports name False ts m))) = connections m)"
proof -
  let ?m = "reports name False ts m"
  let ?br = "failures (failureThreshold m) (halfOpenAttempts m) (circuitBreaker st) ts"
  have m': "map_of (services ?m) name = Some (st\<lparr>circuitBreaker := ?br\<rparr>)" "circuitBreakerEnabled ?m"
    "connections ?m = connections m" "recoveryTimeout ?m = recoveryTimeout m"
    using reports_service [OF assms(1,2), of False ts] by (simp_all add: failures_def)
  have state: "cb_state ?br = (if length ts < failureThreshold m then Closed else Open)"
    using failures_closed [OF assms(4,3)] assms(5) by simp
  have refuse: "\<not> admitted name now ?m"
    if "failureThreshold m \<le> length ts" "0 < recoveryTimeout m" "now < last ts + in_ticks (recoveryTimeout m)"
    using that state m' failures_last [OF assms(3)] by (simp add: admitted_iff)
  have "fst (acquireConnection draw hash name key now ?m) = 0 \<and>
      connections (snd (acquireConnection draw hash name key now ?m)) = connections m" if "\<not> admitted name now ?m"
    using that m'(3)
    by (auto simp: acquireConnection_def admitted_def Let_def finish_request_def begin_request_def split: prod.split)
  then show ?thesis using refuse state m'(1) by (simp add: getCircuitBreakerStats_def)
qed

lemma successes_half_open:
  "cb_state br = HalfOpen \<Longrightarrow> successCount br < n \<Longrightarrow>
   (if successCount br + length ts < n
    then cb_state (successes k n br ts) = HalfOpen \<and> successCount (successes k n br ts) = successCount br + length ts
    else cb_state (successes k n br ts) = Closed \<and> cb_failureCount (successes k n br ts) = 0)"
proof (induction ts arbitrary: br)
  case (Cons t ts)
  let ?br = "applyExecutionResult br True k n t"
  have step: "successes k n br (t # ts) = successes k n ?br ts" by (simp add: successes_def)
  show ?case
  proof (cases "successCount br + 1 < n")
    case True
    then have "cb_state ?br = HalfOpen" "successCount ?br = successCount br + 1"
      using Cons.prems by (simp_all add: applyExecutionResult_def Let_def)
    then show ?thesis using Cons.IH [of ?br] True by (simp add: step)
  next
    case False
    then have "cb_state ?br = Closed" "cb_failureCount ?br = 0"
      using Cons.prems by (simp_all add: applyExecutionResult_def Let_def)
    moreover have "cb_state b = Closed \<and> cb_failureCount b = 0 \<Longrightarrow>
        cb_state (successes k n b us) = Closed \<and> cb_failureCount (successes k n b us) = 0" for b us
      by (induction us arbitrary: b) (simp_all add: successes_def applyExecutionResult_def Let_def)
    ultimately show ?thesis using False by (simp add: step)
  qed
qed (simp add: successes_def)

lemma healthCheck_service:
  "map_of (services m) name = Some st \<Longrightarrow>
   \<exists>st'. map_of (services (performHealthCheck now m)) name = Some st' \<and>
     circuitBreaker st' = recover_breaker (recoveryTimeout m) now (circuitBreaker st)"
  by (simp add: performHealthCheck_def pruneIdleConnections_def)

lemma healthCheck_fields [simp]:
  "circuitBreakerEnabled (performHealthCheck now m) = circuitBreakerEnabled m"
  "failureThreshold (performHealthCheck now m) = failureThreshold m"
  "halfOpenAttempts (performHealthCheck now m) = halfOpenAttempts m"
  by (simp_all add: performHealthCheck_def map_services_def)

text \<open>C30: An open circuit breaker recovers. Once the recovery time since the last failure has passed,
  \<open>acquireConnection\<close> admits requests again, as long as fewer connections than the probe limit are in use,
  and a health check turns the breaker half open; from there the configured number of reported successes closes it
  with its failures forgotten, fewer leave it half open, and a failure before that opens it again.\<close>

theorem breaker_recovers:
  assumes "circuitBreakerEnabled m" and st: "map_of (services m) name = Some st"
    and open_: "cb_state (circuitBreaker st) = Open" "cb_lastFailureTime (circuitBreaker st) + in_ticks (recoveryTimeout m) \<le> now"
    and "0 < halfOpenAttempts m"
  shows "(admitted name now m \<longleftrightarrow> getActiveConnectionCount st < halfOpenAttempts m) \<and>
    (if length ts < halfOpenAttempts m
     then cb_state (getCircuitBreakerStats (reports name True ts (performHealthCheck now m)) name) = HalfOpen \<and>
          cb_state (getCircuitBreakerStats (reportExecution name False t (reports name True ts (performHealthCheck now m))) name) = Open
     else cb_state (getCircuitBreakerStats (reports name True ts (performHealthCheck now m)) name) = Closed \<and>
          cb_failureCount (getCircuitBreakerStats (reports name True ts (performHealthCheck now m)) name) = 0)"
proof -
  let ?h = "performHealthCheck now m"
  let ?m = "reports name True ts ?h"
  obtain st1 where st1: "map_of (services ?h) name = Some st1"
    "circuitBreaker st1 = recover_breaker (recoveryTimeout m) now (circuitBreaker st)"
    using healthCheck_service [OF st] by blast
  let ?br = "successes (failureThreshold m) (halfOpenAttempts m) (circuitBreaker st1) ts"
  have half: "cb_state (circuitBreaker st1) = HalfOpen" "successCount (circuitBreaker st1) = 0"
    using open_ by (simp_all add: st1(2) recover_breaker_def)
  have m: "map_of (services ?m) name = Some (st1\<lparr>circuitBreaker := ?br\<rparr>)" "circuitBreakerEnabled ?m"
    "failureThreshold ?m = failureThreshold m" "halfOpenAttempts ?m = halfOpenAttempts m"
    using reports_service [of ?h name st1 True ts] assms(1) st1(1) by (simp_all add: successes_def)
  note ends = successes_half_open [OF half(1), of "halfOpenAttempts m" ts "failureThreshold m"]
  have "cb_state (getCircuitBreakerStats (reportExecution name False t ?m) name) = Open" if "cb_state ?br = HalfOpen"
    using m that
    by (simp add: reportExecution_def getCircuitBreakerStats_def report_breaker_def applyExecutionResult_def Let_def)
  moreover have "getCircuitBreakerStats ?m name = ?br" using m(1) by (simp add: getCircuitBreakerStats_def)
  moreover have "admitted name now m \<longleftrightarrow> getActiveConnectionCount st < halfOpenAttempts m"
    using assms(1) open_ by (auto simp: admitted_iff [OF st])
  ultimately show ?thesis using ends half(2) assms(5) by auto
qed

subsection \<open>Fairness of the selection\<close>

fun select_run :: "(nat \<Rightarrow> nat) \<Rightarrow> (string \<Rightarrow> nat) \<Rightarrow> string \<Rightarrow> nat \<Rightarrow> ServiceState \<Rightarrow> nat option list" where
  "select_run draw hash key 0 st = []"
| "select_run draw hash key (Suc n) st =
     (case selectBackend draw hash key st of (choice, st') \<Rightarrow> choice # select_run draw hash key n st')"

lemma round_robin_run:
  assumes "strategy st = RoundRobin" "healthy_indices (backends st) = hs" "hs \<noteq> []" "roundRobinIndex st + n \<le> size_max"
  shows "select_run draw hash key n st = map (\<lambda>k. Some (hs ! ((roundRobinIndex st + k) mod length hs))) [0..<n]"
  using assms
proof (induction n arbitrary: st)
  case (Suc n)
  let ?st = "st\<lparr>roundRobinIndex := roundRobinIndex st + 1\<rparr>"
  have "selectBackend draw hash key st = (Some (hs ! (roundRobinIndex st mod length hs)), ?st)"
    using Suc.prems by (simp add: selectBackend_def Let_def roundRobin_def)
  moreover have "select_run draw hash key n ?st = map (\<lambda>k. Some (hs ! ((roundRobinIndex st + Suc k) mod length hs))) [0..<n]"
    using Suc.IH [of ?st] Suc.prems by simp
  ultimately show ?case by (simp add: upt_conv_Cons map_Suc_upt [symmetric] comp_def del: upt_Suc)
qed simp

text \<open>With the round robin strategy, as many consecutive selections as there are healthy backends choose every
  healthy backend exactly once.\<close>

theorem round_robin_fair:
  assumes "strategy st = RoundRobin" "hs = healthy_indices (backends st)" "hs \<noteq> []"
    "roundRobinIndex st + length hs \<le> size_max"
  shows "mset (select_run draw hash key (length hs) st) = mset (map Some hs)"
proof -
  let ?r = "roundRobinIndex st"
  have "select_run draw hash key (length hs) st = map (\<lambda>k. Some (hs ! ((?r + k) mod length hs))) [0..<length hs]"
    by (rule round_robin_run [OF assms(1) assms(2) [symmetric] assms(3,4)])
  also have "\<dots> = map Some (rotate ?r hs)" by (rule nth_equalityI) (simp_all add: nth_rotate)
  finally have "select_run draw hash key (length hs) st = map Some (rotate ?r hs)" .
  moreover have "mset (rotate ?r hs) = mset hs"
    by (metis append_take_drop_id mset_append rotate_drop_take union_commute)
  ultimately show ?thesis by simp
qed

lemma min_element_least:
  assumes asym: "\<And>a b. lt a b \<Longrightarrow> \<not> lt b a" and neg: "\<And>a b c. \<not> lt a b \<Longrightarrow> \<not> lt b c \<Longrightarrow> \<not> lt a c"
  shows "y \<in> insert s (set xs) \<Longrightarrow> \<not> lt y (min_element lt s xs)"
proof (induction xs arbitrary: s y)
  case Nil
  then show ?case using asym [of s s] by auto
next
  case (Cons x xs)
  let ?s = "if lt x s then x else s"
  have rec: "\<not> lt z (min_element lt s (x # xs))" if "z \<in> insert ?s (set xs)" for z
    using Cons.IH [OF that] by simp
  show ?case
  proof (cases "y \<in> set xs")
    case False
    then have "y = x \<or> y = s" using Cons.prems by auto
    then have "\<not> lt y ?s" using asym [of x s] asym [of y y] by auto
    moreover have "\<not> lt ?s (min_element lt s (x # xs))" by (rule rec) simp
    ultimately show ?thesis by (rule neg)
  qed (simp add: rec del: min_element.simps)
qed

lemma least_connections:
  assumes "j \<in> set hs"
  shows "\<not> lighter bs j (min_element (lighter bs) (hd hs) (tl hs))"
proof (rule min_element_least [of "lighter bs"])
  show "j \<in> insert (hd hs) (set (tl hs))" using assms by (cases hs) simp_all
qed (auto simp: lighter_def split: if_splits)

lemma sum_list_int_update: "k < length xs \<Longrightarrow> sum_list (xs[k := x]) = sum_list xs + x - xs ! k" for x :: int
  by (induction xs arbitrary: k) (auto split: nat.split)

definition raised :: "BackendServer \<Rightarrow> int" where
  "raised b = currentWeight b + max 1 (be_weight b)"

lemma wrr_fold:
  assumes "foldl wrr_step (bs0, None, 0) hs = (bs, best, w)" "distinct hs" "\<forall>i\<in>set hs. i < length bs0"
  shows "length bs = length bs0 \<and>
    (\<forall>j<length bs0. bs ! j = (if j \<in> set hs then (bs0 ! j)\<lparr>currentWeight := raised (bs0 ! j)\<rparr> else bs0 ! j)) \<and>
    sum_list (map currentWeight bs) = sum_list (map currentWeight bs0) + w \<and>
    (case best of None \<Rightarrow> hs = [] | Some i \<Rightarrow> i \<in> set hs \<and> (\<forall>j\<in>set hs. raised (bs0 ! j) \<le> raised (bs0 ! i)))"
  using assms
proof (induction hs arbitrary: bs best w rule: rev_induct)
  case (snoc i hs)
  obtain bs1 best1 w1 where f: "foldl wrr_step (bs0, None, 0) hs = (bs1, best1, w1)" by (metis prod_cases3)
  have s: "wrr_step (bs1, best1, w1) i = (bs, best, w)" using snoc.prems(1) f by simp
  have i: "i < length bs0" "i \<notin> set hs" using snoc.prems by simp_all
  have IH: "length bs1 = length bs0"
    "\<And>j. j < length bs0 \<Longrightarrow> bs1 ! j = (if j \<in> set hs then (bs0 ! j)\<lparr>currentWeight := raised (bs0 ! j)\<rparr> else bs0 ! j)"
    "sum_list (map currentWeight bs1) = sum_list (map currentWeight bs0) + w1"
    "case best1 of None \<Rightarrow> hs = [] | Some i \<Rightarrow> i \<in> set hs \<and> (\<forall>j\<in>set hs. raised (bs0 ! j) \<le> raised (bs0 ! i))"
    using snoc.IH [OF f] snoc.prems by simp_all
  have b: "bs = bs1[i := (bs0 ! i)\<lparr>currentWeight := raised (bs0 ! i)\<rparr>]" "w = w1 + max 1 (be_weight (bs0 ! i))"
    using s i IH(2) [OF i(1)] by (auto simp: wrr_step_def Let_def raised_def)
  have nth: "bs ! j = (if j \<in> set (hs @ [i]) then (bs0 ! j)\<lparr>currentWeight := raised (bs0 ! j)\<rparr> else bs0 ! j)"
    if "j < length bs0" for j
    using that i IH(1) IH(2) [OF that] by (cases "j = i") (simp_all add: b(1))
  have sum: "sum_list (map currentWeight bs) = sum_list (map currentWeight bs0) + w"
    using i IH by (simp add: b map_update sum_list_int_update raised_def)
  have "case best of None \<Rightarrow> hs @ [i] = [] | Some k \<Rightarrow> k \<in> set (hs @ [i]) \<and> (\<forall>j\<in>set (hs @ [i]). raised (bs0 ! j) \<le> raised (bs0 ! k))"
  proof (cases best1)
    case None
    then show ?thesis using s IH(4) by (auto simp: wrr_step_def Let_def)
  next
    case (Some k)
    then have k: "k \<in> set hs" "\<And>j. j \<in> set hs \<Longrightarrow> raised (bs0 ! j) \<le> raised (bs0 ! k)" "k < length bs0"
      using IH(4) snoc.prems(3) by auto
    have cw: "currentWeight (bs ! i) = raised (bs0 ! i)" "currentWeight (bs ! k) = raised (bs0 ! k)"
      using nth [OF i(1)] nth [OF k(3)] k(1) by simp_all
    have "best = Some i \<and> raised (bs0 ! k) \<le> raised (bs0 ! i) \<or> best = Some k \<and> raised (bs0 ! i) \<le> raised (bs0 ! k)"
      using s Some cw by (auto simp: wrr_step_def Let_def split: if_splits)
    then show ?thesis
    proof (elim disjE conjE)
      assume "best = Some i" and le: "raised (bs0 ! k) \<le> raised (bs0 ! i)"
      moreover have "raised (bs0 ! j) \<le> raised (bs0 ! i)" if "j \<in> set hs" for j using k(2) [OF that] le by simp
      ultimately show ?thesis by simp
    qed (use k in simp)
  qed
  then show ?case using IH(1) b(1) nth sum by simp
qed simp

subsection \<open>Correctness of the selection\<close>

lemma healthy_index: "b \<in> set bs \<Longrightarrow> healthy b \<Longrightarrow> \<exists>j\<in>set (healthy_indices bs). b = bs ! j"
  by (metis healthy_indices_iff in_set_conv_nth)

lemma select_least:
  assumes sel: "selectBackend draw hash key st = (Some i, st')" "strategy st = LeastConnections"
    and b: "b \<in> set (backends st)" "healthy b"
  shows "activeConnections (backends st ! i) \<le> activeConnections b \<and>
    (activeConnections (backends st ! i) = activeConnections b \<longrightarrow> be_weight b \<le> be_weight (backends st ! i))"
proof -
  let ?bs = "backends st"
  let ?hs = "healthy_indices ?bs"
  obtain j where j: "j \<in> set ?hs" "b = ?bs ! j" using healthy_index [OF b] by blast
  then have "?hs \<noteq> []" by auto
  then have "i = min_element (lighter ?bs) (hd ?hs) (tl ?hs)" using sel by (auto simp: selectBackend_def Let_def)
  then have "\<not> lighter ?bs j i" using least_connections [OF j(1), of ?bs] by simp
  then show ?thesis using j(2) by (auto simp: lighter_def split: if_splits)
qed

lemma select_weighted:
  assumes sel: "selectBackend draw hash key st = (Some i, st')" "strategy st = WeightedRoundRobin"
    and i: "i \<in> set (healthy_indices (backends st))"
  shows "sum_list (map currentWeight (backends st')) = sum_list (map currentWeight (backends st)) \<and>
    (\<forall>b\<in>set (backends st). healthy b \<longrightarrow> raised b \<le> raised (backends st ! i))"
proof -
  let ?bs = "backends st"
  let ?hs = "healthy_indices ?bs"
  obtain bs best w where f: "foldl wrr_step (?bs, None, 0) ?hs = (bs, best, w)" by (metis prod_cases3)
  have d: "distinct ?hs" "\<forall>i\<in>set ?hs. i < length ?bs" by (simp_all add: healthy_indices_def)
  note wf = wrr_fold [OF f d]
  have "?hs \<noteq> []" using i by auto
  then have b: "best = Some i" "backends st' = bs[i := (bs ! i)\<lparr>currentWeight := currentWeight (bs ! i) - w\<rparr>]"
    using sel f by (auto simp: selectBackend_def Let_def weightedRoundRobin_def split: option.splits)
  have "i < length bs" using i wf by (simp add: healthy_indices_iff)
  then have "sum_list (map currentWeight (backends st')) = sum_list (map currentWeight ?bs)"
    using wf by (simp add: b(2) map_update sum_list_int_update)
  moreover have "raised c \<le> raised (?bs ! i)" if h: "c \<in> set ?bs" "healthy c" for c
  proof -
    obtain j where "j \<in> set ?hs" "c = ?bs ! j" using healthy_index [OF h] by blast
    then show ?thesis using wf b(1) by simp
  qed
  ultimately show ?thesis by blast
qed

text \<open>C31: \<open>selectBackend\<close> fails only when no backend is healthy and always selects a healthy one. With least
  connections no healthy backend has fewer connections, and none with as many has a greater weight. With weighted
  round robin the backend selected has the greatest accumulated weight and the selection only moves weight between
  backends: their sum is unchanged. With IP hash and a key the choice depends only on the key and the healthy
  backends.\<close>

theorem selection_correct:
  assumes draw: "\<forall>n>0. draw n < n"
  shows "case selectBackend draw hash key st of
      (None, st') \<Rightarrow> st' = st \<and> (\<forall>b\<in>set (backends st). \<not> healthy b)
    | (Some i, st') \<Rightarrow>
        i < length (backends st) \<and> healthy (backends st ! i) \<and>
        (strategy st = LeastConnections \<longrightarrow>
           (\<forall>b\<in>set (backends st). healthy b \<longrightarrow>
              activeConnections (backends st ! i) \<le> activeConnections b \<and>
              (activeConnections (backends st ! i) = activeConnections b \<longrightarrow> be_weight b \<le> be_weight (backends st ! i)))) \<and>
        (strategy st = WeightedRoundRobin \<longrightarrow>
           sum_list (map currentWeight (backends st')) = sum_list (map currentWeight (backends st)) \<and>
           (\<forall>b\<in>set (backends st). healthy b \<longrightarrow> raised b \<le> raised (backends st ! i))) \<and>
        (strategy st = IPHash \<and> key \<noteq> [] \<longrightarrow>
           i = healthy_indices (backends st) ! (hash key mod length (healthy_indices (backends st))) \<and> st' = st)"
proof (cases "\<exists>b\<in>set (backends st). healthy b")
  case False
  then show ?thesis by (simp add: select_none)
next
  case True
  let ?hs = "healthy_indices (backends st)"
  obtain i st' where sel: "selectBackend draw hash key st = (Some i, st')" "i \<in> set ?hs"
    using select_some [of draw st hash key, OF _ True] draw by blast
  have "?hs \<noteq> []" using True by (simp add: healthy_indices_empty)
  then have "i = ?hs ! (hash key mod length ?hs) \<and> st' = st" if "strategy st = IPHash" "key \<noteq> []"
    using sel(1) that by (auto simp: selectBackend_def Let_def)
  then show ?thesis
    using sel select_least [OF sel(1)] select_weighted [OF sel(1) _ sel(2)] by (simp add: healthy_indices_iff)
qed

subsection \<open>A service with one backend\<close>

definition demo_manager :: cm where
  "demo_manager = addBackendServer ''api'' ''h'' 80 1 0 (cm_new \<lparr>options = [], explicitOptions = {}\<rparr>)"

definition demo_service :: ServiceState where
  "demo_service = svc demo_manager ''api''"

lemma strategy_default: "parseStrategy ''RoundRobin'' = RoundRobin"
  by (simp add: parseStrategy_def normalizeStrategyName_def conf_eval)

lemma demo_eval:
  "demo_manager =
    \<lparr>config = \<lparr>options = [], explicitOptions = {}\<rparr>, connections = [],
     services = [(''api'', demo_service)], nextConnectionId = 1, running = False, pendingRequests = 0,
     idleTimeout = 30000, healthCheckInterval = 30000, recoveryTimeout = 60000, circuitBreakerEnabled = True,
     failureThreshold = 5, halfOpenAttempts = 3\<rparr>"
  "demo_service =
    \<lparr>backends = [\<lparr>be_host = ''h'', be_port = 80, be_weight = 1, healthy = True, activeConnections = 0,
       be_failureCount = 0, currentWeight = 0, lastCheckTime = 0, be_lastFailureTime = 0\<rparr>],
     idleConnections = [], strategy = RoundRobin, circuitBreaker = CircuitBreakerStats_init, roundRobinIndex = 0,
     maxPoolSize = 1024, svc_pendingRequests = 0, totalConnections = 0\<rparr>"
  by (simp_all add: demo_manager_def demo_service_def addBackendServer_def cm_new_def getInt_def getBool_def getString_def
      ensureServiceState_def set_svc_def svc_def ServiceState_init_def strategy_default)


lemma demo_reachable: "cm_reachable demo_manager"
proof -
  have "cm_reachable (cm_new \<lparr>options = [], explicitOptions = {}\<rparr>)" by (rule reach_init) (auto simp: cm_init_def)
  then show ?thesis unfolding demo_manager_def by (rule reach_step) (rule cm_step.add)
qed

definition demo_used :: cm where
  "demo_used = demo_manager\<lparr>
     connections := [(1, \<lparr>ci_id = 1, ci_service = ''api'', remoteHost = ''h'', remotePort = 80, createdAt = 5,
       lastUsed = 5, isActive = True\<rparr>)],
     services := [(''api'', demo_service\<lparr>
       backends := [\<lparr>be_host = ''h'', be_port = 80, be_weight = 1, healthy = True, activeConnections = 1,
         be_failureCount = 0, currentWeight = 0, lastCheckTime = 0, be_lastFailureTime = 0\<rparr>],
       roundRobinIndex := 1, totalConnections := 1\<rparr>)],
     nextConnectionId := 2\<rparr>"

lemma demo_indices: "healthy_indices (backends demo_service) = [0]"
  by (simp add: demo_eval healthy_indices_def)

lemma demo_service_of: "map_of (services demo_manager) ''api'' = Some demo_service"
  by (simp add: demo_eval(1))

lemma demo_acquire: "acquireConnection (\<lambda>n. 0) (\<lambda>s. 0) ''api'' [] 5 demo_manager = (1, demo_used)"
  by (simp add: acquireConnection_def demo_used_def demo_eval Let_def ensureServiceState_def set_svc_def svc_def
      begin_request_def finish_request_def prepareCircuitBreaker_def CircuitBreakerStats_init_def take_connection_def
      reuse_idle.simps open_new_def getServiceConnectionCount_def selectBackend_def healthy_indices_def roundRobin_def
      createConnection_def map_backend_def set_conn_def wrap64_def)

theorem acquire_exclusive_witness:
  "\<exists>c. map_of (connections demo_used) 1 = Some c \<and> isActive c \<and> ci_id c = 1 \<and> ci_service c = ''api''"
proof -
  have "\<forall>n>0. (\<lambda>n::nat. 0::nat) n < n" by simp
  from acquire_exclusive [OF demo_reachable this demo_acquire] show ?thesis by auto
qed

theorem acquire_succeeds_witness: "fst (acquireConnection (\<lambda>n. 0) (\<lambda>s. 0) ''api'' [] 5 demo_manager) \<noteq> 0"
  by (rule acquire_succeeds [OF demo_reachable _ _ demo_service_of])
    (simp_all add: demo_eval CircuitBreakerStats_init_def)

theorem manager_counters_witness:
  "cm_reachable demo_used \<and> ss_totalConnections (getServiceStats demo_used ''api'') = 1 \<and>
   getActiveConnectionCount (svc demo_used ''api'') \<le> ss_activeConnections (getServiceStats demo_used ''api'')"
proof -
  have "cm_step demo_manager (snd (acquireConnection (\<lambda>n. 0) (\<lambda>s. 0) ''api'' [] 5 demo_manager))" by (rule cm_step.acquire) simp
  then have r: "cm_reachable demo_used" using demo_reachable by (simp add: demo_acquire reach_step)
  have st: "map_of (services demo_used) ''api'' = Some (svc demo_used ''api'')" by (simp add: demo_used_def svc_def)
  have "totalConnections (svc demo_used ''api'') = 1" by (simp add: demo_used_def svc_def)
  then show ?thesis using manager_counters [OF r st] r by simp
qed

theorem breaker_opens_witness:
  "fst (acquireConnection (\<lambda>n. 0) (\<lambda>s. 0) ''api'' [] 9 (reports ''api'' False [1, 2, 3, 4, 5] demo_manager)) = 0"
  using breaker_opens [OF _ demo_service_of, of "[1, 2, 3, 4, 5]" 9 "\<lambda>n. 0" "\<lambda>s. 0" "[]"]
  by (simp add: demo_eval CircuitBreakerStats_init_def in_ticks_def)

theorem breaker_recovers_witness:
  "cb_state (getCircuitBreakerStats (reports ''api'' True [0, 0, 0] (performHealthCheck 60000000005
     (reports ''api'' False [1, 2, 3, 4, 5] demo_manager))) ''api'') = Closed"
proof -
  let ?m = "reports ''api'' False [1, 2, 3, 4, 5] demo_manager"
  obtain st where st: "map_of (services ?m) ''api'' = Some st" "cb_state (circuitBreaker st) = Open"
    "cb_lastFailureTime (circuitBreaker st) = 5" "circuitBreakerEnabled ?m" "recoveryTimeout ?m = 60000" "halfOpenAttempts ?m = 3"
    by (simp add: reports_def reportExecution_def report_breaker_def applyExecutionResult_def set_svc_def demo_eval
        CircuitBreakerStats_init_def)
  show ?thesis using breaker_recovers [OF st(4,1,2), of 60000000005 "[0, 0, 0]" 0] st by (simp add: in_ticks_def)
qed

theorem round_robin_fair_witness:
  "mset (select_run (\<lambda>n. 0) (\<lambda>s. 0) [] 1 demo_service) = {#Some 0#}"
  using round_robin_fair [of demo_service "[0]" "\<lambda>n. 0" "\<lambda>s. 0" "[]"] demo_indices
  by (simp add: demo_eval(2) size_max_def)

theorem selection_correct_witness: "fst (selectBackend (\<lambda>n. 0) (\<lambda>s. 0) [] demo_service) \<noteq> None"
proof -
  have "\<forall>n>0. (\<lambda>n::nat. 0::nat) n < n" by simp
  from selection_correct [OF this, where hash = "\<lambda>s. 0" and key = "[]" and st = demo_service] show ?thesis
    by (auto simp: demo_eval(2) split: prod.splits option.splits)
qed

end
