(* ===== verification/Timer_Manager.thy ===== *)
theory Timer_Manager
  imports FN_Prelude "HOL-Library.AList"
begin

text \<open>
  \<open>src/src/Timer.cpp\<close> and \<open>src/include/FastNet/Timer.h\<close>: the timer manager with its worker thread,
  the connection timeouts kept with it, and the \<open>Timer\<close> object that delivers its callback through the event
  loop.

  A timer entry is a shared object, named by its identifier in the store \<open>entries\<close>; the priority queue and
  the table of active timers hold identifiers. The priority queue is the list of its elements, and which element is
  in front is an argument that the queue's contract (locale \<open>priority_queue\<close>) constrains. The worker is a
  state machine: what it does between two acquisitions of the mutex is one step, so the operations of other threads
  may come in between, in particular while a callback runs. The field \<open>fired\<close> records the callbacks run, each
  with the time it was due and the time it ran; no code reads it. Waiting on the condition variable is a step that
  changes nothing. \<open>start\<close> and \<open>stop\<close> are not interleaved with each other: both join the same
  \<open>std::thread\<close> object, which C++ leaves undefined. \<open>schedule\<close>, which starts the worker
  before it enters the new timer, is one step as far as \<open>stop\<close> is concerned: a \<open>stop\<close> between
  the two would leave the timer waiting for the next \<open>start\<close>.
\<close>

subsection \<open>The timer manager\<close>

type_synonym TimerId = nat

record 'c TimerEntry =
  te_id :: TimerId
  expireTime :: clock
  te_interval :: clock
  te_callback :: 'c
  te_repeat :: bool
  te_cancelled :: bool

datatype worker_pc =
    NoWorker
  | Looking
  | Holding TimerId clock
  | InCallback TimerId
  | Rearming TimerId
  | Exited

record 'c tm =
  entries :: "TimerId \<rightharpoonup> 'c TimerEntry"
  timers :: "TimerId list"
  activeTimers :: "TimerId list"
  tm_running :: bool
  tickInterval :: int
  nextTimerId :: TimerId
  worker :: worker_pc
  fired :: "(TimerId \<times> clock \<times> clock) list"

definition tm_new :: "int \<Rightarrow> 'c tm" where
  "tm_new tick =
     \<lparr>entries = Map.empty, timers = [], activeTimers = [], tm_running = False, tickInterval = max 1 tick,
      nextTimerId = 1, worker = NoWorker, fired = []\<rparr>"

definition entry :: "'c tm \<Rightarrow> TimerId \<Rightarrow> 'c TimerEntry" where
  "entry s t = the (entries s t)"

definition due :: "'c tm \<Rightarrow> TimerId \<Rightarrow> clock" where
  "due s t = expireTime (entry s t)"

definition is_cancelled :: "'c tm \<Rightarrow> TimerId \<Rightarrow> bool" where
  "is_cancelled s t = te_cancelled (entry s t)"

definition tm_start :: "'c tm \<Rightarrow> 'c tm" where
  "tm_start s = (if tm_running s then s else s\<lparr>tm_running := True, worker := Looking\<rparr>)"

text \<open>Stopping clears the flag, waits for the worker, and then cancels and drops everything.\<close>

definition stop_begin :: "'c tm \<Rightarrow> 'c tm" where
  "stop_begin s = s\<lparr>tm_running := False\<rparr>"

definition cancel_entries :: "TimerId list \<Rightarrow> ('c tm) \<Rightarrow> 'c tm" where
  "cancel_entries ts s =
     s\<lparr>entries := (\<lambda>t. if t \<in> set ts then map_option (\<lambda>e. e\<lparr>te_cancelled := True\<rparr>) (entries s t) else entries s t)\<rparr>"

definition stop_finish :: "'c tm \<Rightarrow> 'c tm" where
  "stop_finish s = (cancel_entries (activeTimers s) s)\<lparr>timers := [], activeTimers := [], worker := NoWorker\<rparr>"

definition cancelTimer :: "TimerId \<Rightarrow> 'c tm \<Rightarrow> bool \<times> 'c tm" where
  "cancelTimer t s =
     (if t \<notin> set (activeTimers s) then (False, s)
      else
        let s = cancel_entries [t] s
        in (True, s\<lparr>activeTimers := removeAll t (activeTimers s)\<rparr>))"

definition getActiveTimerCount :: "'c tm \<Rightarrow> nat" where
  "getActiveTimerCount s = length (activeTimers s)"

definition enqueue :: "TimerId \<Rightarrow> 'c tm \<Rightarrow> 'c tm" where
  "enqueue t s =
     s\<lparr>activeTimers := (if t \<in> set (activeTimers s) then activeTimers s else activeTimers s @ [t]),
       timers := timers s @ [t]\<rparr>"

definition schedule :: "int \<Rightarrow> 'c option \<Rightarrow> bool \<Rightarrow> clock \<Rightarrow> 'c tm \<Rightarrow> TimerId \<times> 'c tm" where
  "schedule delay callback rep now s =
     (case callback of
        None \<Rightarrow> (0, s)
      | Some c \<Rightarrow>
          let s = tm_start s;
              t = nextTimerId s;
              e = \<lparr>te_id = t, expireTime = now + in_ticks (max 0 delay), te_interval = in_ticks (max 1 delay),
                   te_callback = c, te_repeat = rep, te_cancelled = False\<rparr>;
              s = s\<lparr>nextTimerId := t + 1, entries := (entries s)(t \<mapsto> e)\<rparr>
          in (t, enqueue t s))"

definition addTimer :: "int \<Rightarrow> 'c option \<Rightarrow> clock \<Rightarrow> 'c tm \<Rightarrow> TimerId \<times> 'c tm" where
  "addTimer delay callback now s = schedule delay callback False now s"

definition addRepeatingTimer :: "int \<Rightarrow> 'c option \<Rightarrow> clock \<Rightarrow> 'c tm \<Rightarrow> TimerId \<times> 'c tm" where
  "addRepeatingTimer interval callback now s = schedule interval callback True now s"

subsection \<open>The worker thread\<close>

text \<open>The inner loop of the worker, from the moment it holds the mutex until it waits or has taken a timer. The
  argument \<open>front\<close> is the element \<open>std::priority_queue\<close> puts in front.\<close>

partial_function (option) worker_scan ::
    "((TimerId \<Rightarrow> clock) \<Rightarrow> TimerId list \<Rightarrow> TimerId) \<Rightarrow> clock \<Rightarrow> 'c tm \<Rightarrow> (TimerId option \<times> 'c tm) option" where
  "worker_scan front now s =
     (if \<not> tm_running s \<or> timers s = [] then Some (None, s)
      else
        let t = front (due s) (timers s)
        in if is_cancelled s t then worker_scan front now (s\<lparr>timers := remove1 t (timers s)\<rparr>)
           else if due s t > now then Some (None, s)
           else Some (Some t, s\<lparr>timers := remove1 t (timers s), activeTimers := removeAll t (activeTimers s)\<rparr>))"

definition next_expire :: "clock \<Rightarrow> 'c TimerEntry \<Rightarrow> clock" where
  "next_expire now e =
     (let nextExpire = expireTime e + te_interval e
      in if nextExpire \<le> now then now + te_interval e else nextExpire)"

definition worker_step ::
    "((TimerId \<Rightarrow> clock) \<Rightarrow> TimerId list \<Rightarrow> TimerId) \<Rightarrow> clock \<Rightarrow> 'c tm \<Rightarrow> 'c tm" where
  "worker_step front now s =
     (case worker s of
        NoWorker \<Rightarrow> s
      | Exited \<Rightarrow> s
      | Looking \<Rightarrow>
          if \<not> tm_running s then s\<lparr>worker := Exited\<rparr>
          else (case worker_scan front now s of
                  None \<Rightarrow> s
                | Some (None, s') \<Rightarrow> s'
                | Some (Some t, s') \<Rightarrow> s'\<lparr>worker := Holding t now\<rparr>)
      | Holding t seen \<Rightarrow>
          if \<not> tm_running s then s\<lparr>worker := Exited\<rparr>
          else if is_cancelled s t then s\<lparr>worker := Looking\<rparr>
          else s\<lparr>worker := InCallback t, fired := fired s @ [(t, due s t, now)]\<rparr>
      | InCallback t \<Rightarrow>
          if \<not> te_repeat (entry s t) \<or> is_cancelled s t \<or> \<not> tm_running s then s\<lparr>worker := Looking\<rparr>
          else s\<lparr>entries := (entries s)(t \<mapsto> (entry s t)\<lparr>expireTime := next_expire now (entry s t)\<rparr>),
                 worker := Rearming t\<rparr>
      | Rearming t \<Rightarrow>
          let s' = (if \<not> is_cancelled s t \<and> tm_running s then enqueue t s else s)
          in s'\<lparr>worker := Looking\<rparr>)"

text \<open>One step of the program: an operation of the class, whose effects are under the mutex, or a step of the
  worker. A timer taken at one time fires at a later one. \<open>stop\<close> joins the worker before it clears
  the timers, and \<open>schedule\<close> starts the worker again only after that.\<close>

inductive tm_step :: "((TimerId \<Rightarrow> clock) \<Rightarrow> TimerId list \<Rightarrow> TimerId) \<Rightarrow> 'c tm \<Rightarrow> 'c tm \<Rightarrow> bool" for front where
  add: "tm_running s \<or> worker s = NoWorker \<Longrightarrow> tm_step front s (snd (schedule delay callback rep now s))"
| cancel: "tm_step front s (snd (cancelTimer t s))"
| start: "tm_running s \<or> worker s = NoWorker \<Longrightarrow> tm_step front s (tm_start s)"
| stop_flag: "tm_step front s (stop_begin s)"
| stop_join: "\<not> tm_running s \<Longrightarrow> worker s = Exited \<Longrightarrow> tm_step front s (stop_finish s)"
| work: "(\<And>t seen. worker s = Holding t seen \<Longrightarrow> seen \<le> now) \<Longrightarrow> tm_step front s (worker_step front now s)"

definition tm_init :: "'c tm \<Rightarrow> bool" where
  "tm_init s \<longleftrightarrow> (\<exists>tick. s = tm_new tick)"

subsection \<open>The queue\<close>

lemma entry_fields [simp]:
  "entry (s\<lparr>timers := q\<rparr>) = entry s" "entry (s\<lparr>activeTimers := a\<rparr>) = entry s"
  "entry (s\<lparr>worker := w\<rparr>) = entry s" "entry (s\<lparr>fired := l\<rparr>) = entry s" "entry (s\<lparr>tm_running := r\<rparr>) = entry s"
  "due (s\<lparr>timers := q\<rparr>) = due s" "due (s\<lparr>activeTimers := a\<rparr>) = due s"
  "due (s\<lparr>worker := w\<rparr>) = due s" "due (s\<lparr>fired := l\<rparr>) = due s" "due (s\<lparr>tm_running := r\<rparr>) = due s"
  "is_cancelled (s\<lparr>timers := q\<rparr>) = is_cancelled s" "is_cancelled (s\<lparr>activeTimers := a\<rparr>) = is_cancelled s"
  "is_cancelled (s\<lparr>worker := w\<rparr>) = is_cancelled s" "is_cancelled (s\<lparr>fired := l\<rparr>) = is_cancelled s"
  "is_cancelled (s\<lparr>tm_running := r\<rparr>) = is_cancelled s"
  by (simp_all add: fun_eq_iff entry_def due_def is_cancelled_def)

definition scan_ends :: "clock \<Rightarrow> 'c tm \<Rightarrow> TimerId option \<Rightarrow> TimerId list \<Rightarrow> TimerId list \<Rightarrow> bool" where
  "scan_ends now s r q a \<longleftrightarrow>
     distinct q \<and> set q \<subseteq> set (timers s) \<and>
     (case r of
        None \<Rightarrow> a = activeTimers s \<and> (\<forall>u\<in>set (timers s). \<not> is_cancelled s u \<longrightarrow> u \<in> set q) \<and>
          (tm_running s \<longrightarrow> (\<forall>u\<in>set q. now < due s u))
      | Some t \<Rightarrow> tm_running s \<and> t \<in> set (timers s) \<and> t \<notin> set q \<and> \<not> is_cancelled s t \<and> due s t \<le> now \<and>
          a = removeAll t (activeTimers s) \<and>
          (\<forall>u\<in>set (timers s). \<not> is_cancelled s u \<and> u \<noteq> t \<longrightarrow> u \<in> set q \<and> due s t \<le> due s u))"

text \<open>What \<open>std::priority_queue\<close> promises of its front element: it is in the queue and no element compares
  before it. Which of several equal elements is in front is left open.\<close>

locale priority_queue =
  fixes front :: "(TimerId \<Rightarrow> clock) \<Rightarrow> TimerId list \<Rightarrow> TimerId"
  assumes front_in: "q \<noteq> [] \<Longrightarrow> front f q \<in> set q"
    and front_min: "x \<in> set q \<Longrightarrow> f (front f q) \<le> f x"
begin

text \<open>The scan drops cancelled timers until it finds one that is not, so it ends.\<close>

lemma scan_total: "\<exists>r s'. worker_scan front now s = Some (r, s')"
proof (induction "length (timers s)" arbitrary: s rule: less_induct)
  case less
  show ?case
  proof (cases "tm_running s \<and> timers s \<noteq> [] \<and> is_cancelled s (front (due s) (timers s))")
    case True
    let ?s = "s\<lparr>timers := remove1 (front (due s) (timers s)) (timers s)\<rparr>"
    have "length (timers ?s) < length (timers s)"
      using True front_in [of "timers s" "due s"] by (simp add: length_remove1)
    from less [OF this] True show ?thesis by (subst worker_scan.simps) (simp add: Let_def)
  next
    case False
    then show ?thesis by (subst worker_scan.simps) (auto simp: Let_def)
  qed
qed

text \<open>What the scan does: it removes only cancelled timers, besides the one it takes, and that one is due, not
  cancelled and due no later than any other.\<close>

lemma scan_result:
  assumes "worker_scan front now s = Some (r, s')" "distinct (timers s)"
  shows "\<exists>q a. s' = s\<lparr>timers := q, activeTimers := a\<rparr> \<and> scan_ends now s r q a"
  using assms
proof (induction "length (timers s)" arbitrary: s rule: less_induct)
  case less
  let ?t = "front (due s) (timers s)"
  consider (stop) "\<not> tm_running s \<or> timers s = []"
    | (drop) "tm_running s" "timers s \<noteq> []" "is_cancelled s ?t"
    | (wait) "tm_running s" "timers s \<noteq> []" "\<not> is_cancelled s ?t" "now < due s ?t"
    | (take) "tm_running s" "timers s \<noteq> []" "\<not> is_cancelled s ?t" "due s ?t \<le> now" by fastforce
  then show ?case
  proof cases
    case stop
    then have "r = None" "s' = s" using less.prems(1) by (simp_all add: worker_scan.simps [of front now s])
    then show ?thesis using less.prems stop
      by (intro exI [of _ "timers s"] exI [of _ "activeTimers s"]) (auto simp: scan_ends_def)
  next
    case drop
    let ?s = "s\<lparr>timers := remove1 ?t (timers s)\<rparr>"
    have t: "?t \<in> set (timers s)" using drop(2) by (rule front_in)
    have "length (timers ?s) < length (timers s)" using t drop(2) by (simp add: length_remove1)
    moreover have "worker_scan front now ?s = Some (r, s')"
      using less.prems(1) drop by (simp add: worker_scan.simps [of front now s] Let_def)
    moreover have "distinct (timers ?s)" using less.prems(2) by (simp add: distinct_remove1)
    ultimately obtain q a where qa: "s' = ?s\<lparr>timers := q, activeTimers := a\<rparr>" "scan_ends now ?s r q a"
      using less.hyps by blast
    have "s' = s\<lparr>timers := q, activeTimers := a\<rparr>" using qa(1) by simp
    moreover have "scan_ends now s r q a"
      using qa(2) less.prems(2) drop t by (auto simp: scan_ends_def split: option.splits)
    ultimately show ?thesis by blast
  next
    case wait
    then have "r = None" "s' = s" using less.prems(1) by (simp_all add: worker_scan.simps [of front now s] Let_def)
    moreover have "\<forall>u\<in>set (timers s). now < due s u" using wait(4) front_min [of _ "timers s" "due s"] by fastforce
    ultimately show ?thesis using less.prems
      by (intro exI [of _ "timers s"] exI [of _ "activeTimers s"]) (auto simp: scan_ends_def)
  next
    case take
    then have "r = Some ?t" "s' = s\<lparr>timers := remove1 ?t (timers s), activeTimers := removeAll ?t (activeTimers s)\<rparr>"
      using less.prems(1) by (simp_all add: worker_scan.simps [of front now s] Let_def)
    then show ?thesis using take less.prems(2) front_in [OF take(2), of "due s"] front_min [of _ "timers s" "due s"]
      by (intro exI [of _ "remove1 ?t (timers s)"] exI [of _ "removeAll ?t (activeTimers s)"]) (auto simp: scan_ends_def)
  qed
qed

end

subsection \<open>The invariant\<close>

fun held :: "worker_pc \<Rightarrow> TimerId option" where
  "held (Holding t seen) = Some t"
| "held (InCallback t) = Some t"
| "held (Rearming t) = Some t"
| "held pc = None"

definition tm_wf :: "'c tm \<Rightarrow> bool" where
  "tm_wf s \<longleftrightarrow>
     distinct (timers s) \<and> distinct (activeTimers s) \<and> 0 < nextTimerId s \<and>
     (\<forall>t e. entries s t = Some e \<longrightarrow> te_id e = t \<and> 0 < t \<and> t < nextTimerId s \<and> 0 < te_interval e) \<and>
     (\<forall>t\<in>set (timers s). entries s t \<noteq> None) \<and>
     set (activeTimers s) = {t \<in> set (timers s). \<not> is_cancelled s t} \<and>
     (\<forall>t. held (worker s) = Some t \<longrightarrow> t \<notin> set (timers s) \<and> entries s t \<noteq> None \<and> \<not> is_cancelled s t) \<and>
     (\<forall>t. worker s = Rearming t \<longrightarrow> te_repeat (entry s t)) \<and>
     (tm_running s \<longrightarrow> worker s \<noteq> NoWorker \<and> worker s \<noteq> Exited) \<and>
     (worker s = NoWorker \<longrightarrow> timers s = [])"

definition firings :: "'c tm \<Rightarrow> TimerId \<Rightarrow> nat" where
  "firings s t = length (filter (\<lambda>(u, d, c). u = t) (fired s))"

definition tm_log :: "'c tm \<Rightarrow> bool" where
  "tm_log s \<longleftrightarrow>
     (\<forall>t c. worker s = Holding t c \<longrightarrow> due s t \<le> c) \<and>
     (\<forall>t d c. (t, d, c) \<in> set (fired s) \<longrightarrow> d \<le> c \<and> entries s t \<noteq> None) \<and>
     (\<forall>t. entries s t \<noteq> None \<longrightarrow> \<not> te_repeat (entry s t) \<longrightarrow>
        firings s t \<le> 1 \<and> (t \<in> set (timers s) \<or> (\<exists>c. worker s = Holding t c) \<longrightarrow> firings s t = 0))"

definition tm_inv :: "'c tm \<Rightarrow> bool" where
  "tm_inv s \<longleftrightarrow> tm_wf s \<and> tm_log s"

lemma tm_inv_new: "tm_inv (tm_new tick)"
  by (simp add: tm_inv_def tm_wf_def tm_log_def tm_new_def)

lemma fields_simps [simp]:
  "entry (s\<lparr>nextTimerId := n\<rparr>) = entry s" "is_cancelled (s\<lparr>nextTimerId := n\<rparr>) = is_cancelled s" "due (s\<lparr>nextTimerId := n\<rparr>) = due s"
  "firings (s\<lparr>timers := q\<rparr>) = firings s" "firings (s\<lparr>activeTimers := a\<rparr>) = firings s"
  "firings (s\<lparr>worker := w\<rparr>) = firings s" "firings (s\<lparr>tm_running := r\<rparr>) = firings s"
  "firings (s\<lparr>nextTimerId := n\<rparr>) = firings s" "firings (s\<lparr>entries := e\<rparr>) = firings s"
  by (simp_all add: fun_eq_iff entry_def due_def is_cancelled_def firings_def)

lemma entry_update:
  "entry (s\<lparr>entries := (entries s)(t \<mapsto> e)\<rparr>) u = (if u = t then e else entry s u)"
  "due (s\<lparr>entries := (entries s)(t \<mapsto> e)\<rparr>) u = (if u = t then expireTime e else due s u)"
  "is_cancelled (s\<lparr>entries := (entries s)(t \<mapsto> e)\<rparr>) u = (if u = t then te_cancelled e else is_cancelled s u)"
  by (simp_all add: entry_def due_def is_cancelled_def)

lemma cancel_entries_fields [simp]:
  "timers (cancel_entries ts s) = timers s" "activeTimers (cancel_entries ts s) = activeTimers s"
  "worker (cancel_entries ts s) = worker s" "fired (cancel_entries ts s) = fired s"
  "tm_running (cancel_entries ts s) = tm_running s" "nextTimerId (cancel_entries ts s) = nextTimerId s"
  "firings (cancel_entries ts s) = firings s" "entries (cancel_entries ts s) t = None \<longleftrightarrow> entries s t = None"
  by (simp_all add: cancel_entries_def)

lemma cancel_entries_entry:
  "entries s u \<noteq> None \<Longrightarrow> entry (cancel_entries ts s) u = (if u \<in> set ts then (entry s u)\<lparr>te_cancelled := True\<rparr> else entry s u)"
  by (auto simp: cancel_entries_def entry_def)

lemma cancel_entries_cancelled:
  "entries s u \<noteq> None \<Longrightarrow> is_cancelled (cancel_entries ts s) u \<longleftrightarrow> u \<in> set ts \<or> is_cancelled s u"
  "entries s u \<noteq> None \<Longrightarrow> due (cancel_entries ts s) u = due s u"
  by (auto simp: is_cancelled_def due_def cancel_entries_entry)

text \<open>Starting, stopping and cancelling.\<close>

lemma tm_inv_start: "tm_inv s \<Longrightarrow> tm_running s \<or> worker s = NoWorker \<Longrightarrow> tm_inv (tm_start s)"
  by (auto simp: tm_inv_def tm_wf_def tm_log_def tm_start_def)

lemma tm_inv_stop_begin: "tm_inv s \<Longrightarrow> tm_inv (stop_begin s)"
  by (auto simp: tm_inv_def tm_wf_def tm_log_def stop_begin_def)

lemma tm_wf_cancel_entries:
  assumes "\<forall>t e. entries s t = Some e \<longrightarrow> te_id e = t \<and> 0 < t \<and> t < nextTimerId s \<and> 0 < te_interval e"
  shows "\<forall>t e. entries (cancel_entries ts s) t = Some e \<longrightarrow> te_id e = t \<and> 0 < t \<and> t < nextTimerId s \<and> 0 < te_interval e"
  using assms by (auto simp: cancel_entries_def split: if_splits)

lemma tm_inv_stop_finish:
  assumes inv: "tm_inv s" and "\<not> tm_running s" "worker s = Exited"
  shows "tm_inv (stop_finish s)"
proof -
  let ?c = "cancel_entries (activeTimers s) s"
  have "\<forall>t e. entries ?c t = Some e \<longrightarrow> te_id e = t \<and> 0 < t \<and> t < nextTimerId s \<and> 0 < te_interval e"
    by (rule tm_wf_cancel_entries) (use inv in \<open>simp add: tm_inv_def tm_wf_def\<close>)
  then have "tm_wf (stop_finish s)" using inv assms(2) by (simp add: tm_inv_def tm_wf_def stop_finish_def)
  moreover have "tm_log (stop_finish s)"
    using inv assms(3) by (auto simp: tm_inv_def tm_log_def stop_finish_def cancel_entries_entry split: if_splits)
  ultimately show ?thesis by (simp add: tm_inv_def)
qed

lemma tm_inv_cancel:
  assumes inv: "tm_inv s"
  shows "tm_inv (snd (cancelTimer t s))"
proof (cases "t \<in> set (activeTimers s)")
  case True
  let ?s = "(cancel_entries [t] s)\<lparr>activeTimers := removeAll t (activeTimers s)\<rparr>"
  have q: "\<forall>u\<in>set (timers s). entries s u \<noteq> None" using inv by (simp add: tm_inv_def tm_wf_def)
  have t: "t \<in> set (timers s)" using True inv by (simp add: tm_inv_def tm_wf_def)
  have h: "u \<noteq> t \<and> entries s u \<noteq> None \<and> \<not> is_cancelled s u \<and> u \<notin> set (timers s)" if "held (worker s) = Some u" for u
    using that inv t by (auto simp: tm_inv_def tm_wf_def)
  have "\<forall>u e. entries (cancel_entries [t] s) u = Some e \<longrightarrow> te_id e = u \<and> 0 < u \<and> u < nextTimerId s \<and> 0 < te_interval e"
    by (rule tm_wf_cancel_entries) (use inv in \<open>simp add: tm_inv_def tm_wf_def\<close>)
  moreover have "set (removeAll t (activeTimers s)) = {u \<in> set (timers s). \<not> is_cancelled (cancel_entries [t] s) u}"
    using inv q by (auto simp: tm_inv_def tm_wf_def cancel_entries_cancelled)
  moreover have "te_repeat (entry (cancel_entries [t] s) u)" if "worker s = Rearming u" for u
    using that inv h [of u] by (simp add: tm_inv_def tm_wf_def cancel_entries_entry)
  ultimately have "tm_wf ?s" using inv h
    by (simp add: tm_inv_def tm_wf_def distinct_removeAll cancel_entries_cancelled)
  moreover have "tm_log ?s"
    using inv h by (auto simp: tm_inv_def tm_log_def cancel_entries_entry cancel_entries_cancelled split: if_splits)
  ultimately show ?thesis using True by (simp add: cancelTimer_def Let_def tm_inv_def)
qed (simp add: cancelTimer_def inv)

text \<open>Scheduling a timer.\<close>

definition with_entry :: "TimerId \<Rightarrow> 'c TimerEntry \<Rightarrow> 'c tm \<Rightarrow> 'c tm" where
  "with_entry t e s = enqueue t (s\<lparr>nextTimerId := t + 1, entries := (entries s)(t \<mapsto> e)\<rparr>)"

lemma schedule_with_entry:
  "schedule delay (Some c) rep now s =
     (nextTimerId s, with_entry (nextTimerId s)
        \<lparr>te_id = nextTimerId s, expireTime = now + in_ticks (max 0 delay), te_interval = in_ticks (max 1 delay),
         te_callback = c, te_repeat = rep, te_cancelled = False\<rparr> (tm_start s))"
  by (simp add: schedule_def with_entry_def Let_def tm_start_def)

lemma with_entry_fields [simp]:
  "timers (with_entry t e s) = timers s @ [t]" "nextTimerId (with_entry t e s) = t + 1"
  "entries (with_entry t e s) = (entries s)(t \<mapsto> e)" "worker (with_entry t e s) = worker s"
  "fired (with_entry t e s) = fired s" "tm_running (with_entry t e s) = tm_running s"
  "firings (with_entry t e s) = firings s"
  "entry (with_entry t e s) u = (if u = t then e else entry s u)"
  "due (with_entry t e s) u = (if u = t then expireTime e else due s u)"
  "is_cancelled (with_entry t e s) u = (if u = t then te_cancelled e else is_cancelled s u)"
  by (simp_all add: with_entry_def enqueue_def entry_def due_def is_cancelled_def firings_def)

lemma with_entry_active: "t \<notin> set (activeTimers s) \<Longrightarrow> activeTimers (with_entry t e s) = activeTimers s @ [t]"
  by (simp add: with_entry_def enqueue_def)

lemma firings_none: "tm_log s \<Longrightarrow> entries s t = None \<Longrightarrow> firings s t = 0"
  unfolding tm_log_def firings_def by (fastforce simp: filter_empty_conv)

lemma tm_inv_with_entry:
  assumes inv: "tm_inv s" and run: "tm_running s"
    and e: "te_id e = nextTimerId s" "0 < te_interval e" "\<not> te_cancelled e"
  shows "tm_inv (with_entry (nextTimerId s) e s)"
proof -
  let ?t = "nextTimerId s"
  have fresh: "entries s ?t = None" using inv by (cases "entries s ?t") (auto simp: tm_inv_def tm_wf_def)
  then have out: "?t \<notin> set (timers s)" "?t \<notin> set (activeTimers s)" "held (worker s) \<noteq> Some ?t"
    using inv by (auto simp: tm_inv_def tm_wf_def)
  have "tm_wf (with_entry ?t e s)"
    using inv run e out fresh by (auto simp: tm_inv_def tm_wf_def with_entry_active less_Suc_eq)
  moreover have "tm_log (with_entry ?t e s)"
    using inv out firings_none [OF _ fresh] by (auto simp: tm_inv_def tm_log_def)
  ultimately show ?thesis by (simp add: tm_inv_def)
qed

lemma tm_inv_schedule:
  assumes inv: "tm_inv s" and "tm_running s \<or> worker s = NoWorker"
  shows "tm_inv (snd (schedule delay callback rep now s))"
proof (cases callback)
  case (Some c)
  have "tm_inv (tm_start s)" "tm_running (tm_start s)" "nextTimerId (tm_start s) = nextTimerId s"
    using tm_inv_start [OF assms] by (simp_all add: tm_start_def)
  from tm_inv_with_entry [OF this(1,2)] this(3) show ?thesis
    by (simp add: Some schedule_with_entry in_ticks_def)
qed (simp add: schedule_def inv)

text \<open>The worker.\<close>

lemma next_expire_later: "0 < te_interval e \<Longrightarrow> now < next_expire now e"
  by (simp add: next_expire_def Let_def)

context priority_queue
begin

lemma tm_inv_scan:
  assumes inv: "tm_inv s" and w: "worker s = Looking" and run: "tm_running s"
    and scan: "worker_scan front now s = Some (r, s')"
  shows "tm_inv (case r of None \<Rightarrow> s' | Some t \<Rightarrow> s'\<lparr>worker := Holding t now\<rparr>)"
proof -
  obtain q a where s': "s' = s\<lparr>timers := q, activeTimers := a\<rparr>" and ends: "scan_ends now s r q a"
    using scan_result [OF scan] inv by (auto simp: tm_inv_def tm_wf_def)
  show ?thesis
  proof (cases r)
    case None
    have "tm_wf s'" using inv None ends w run by (auto simp: s' tm_inv_def tm_wf_def scan_ends_def)
    moreover have "tm_log s'" using inv None ends w by (auto simp: s' tm_inv_def tm_log_def scan_ends_def)
    ultimately show ?thesis using None by (simp add: tm_inv_def)
  next
    case (Some t)
    let ?s = "s'\<lparr>worker := Holding t now\<rparr>"
    have "tm_wf ?s" using inv Some ends w run
      by (auto simp: s' tm_inv_def tm_wf_def scan_ends_def distinct_removeAll)
    moreover have "tm_log ?s" using inv Some ends w by (auto simp: s' tm_inv_def tm_log_def scan_ends_def)
    ultimately show ?thesis using Some by (simp add: tm_inv_def)
  qed
qed

end

lemma tm_inv_fire:
  assumes inv: "tm_inv s" and w: "worker s = Holding t seen" "seen \<le> now" and run: "tm_running s"
  shows "tm_inv (s\<lparr>worker := InCallback t, fired := fired s @ [(t, due s t, now)]\<rparr>)" (is "tm_inv ?s")
proof -
  have h: "t \<notin> set (timers s)" "entries s t \<noteq> None" "due s t \<le> now" using inv w by (auto simp: tm_inv_def tm_wf_def tm_log_def)
  have f: "firings ?s u = firings s u + (if u = t then 1 else 0)" for u by (simp add: firings_def)
  have "tm_wf ?s" using inv w run by (auto simp: tm_inv_def tm_wf_def)
  moreover have "tm_log ?s" using inv w h by (auto simp: tm_inv_def tm_log_def f)
  ultimately show ?thesis by (simp add: tm_inv_def)
qed

lemma tm_inv_callback_end:
  assumes inv: "tm_inv s" and w: "worker s = InCallback t" and run: "tm_running s" "te_repeat (entry s t)"
  shows "tm_inv (s\<lparr>entries := (entries s)(t \<mapsto> (entry s t)\<lparr>expireTime := x\<rparr>), worker := Rearming t\<rparr>)" (is "tm_inv ?s")
proof -
  obtain e where e: "entries s t = Some e" "entry s t = e" using inv w by (auto simp: tm_inv_def tm_wf_def entry_def)
  have "tm_wf ?s" using inv w run e by (auto simp: tm_inv_def tm_wf_def entry_update(1) is_cancelled_def)
  moreover have "tm_log ?s" using inv w run e by (auto simp: tm_inv_def tm_log_def entry_update(1))
  ultimately show ?thesis by (simp add: tm_inv_def)
qed

lemma tm_inv_rearm:
  assumes inv: "tm_inv s" and w: "worker s = Rearming t" and run: "tm_running s"
  shows "tm_inv ((enqueue t s)\<lparr>worker := Looking\<rparr>)" (is "tm_inv ?s")
proof -
  have h: "t \<notin> set (timers s)" "t \<notin> set (activeTimers s)" "entries s t \<noteq> None" "\<not> is_cancelled s t" "te_repeat (entry s t)"
    using inv w by (auto simp: tm_inv_def tm_wf_def)
  have "tm_wf ?s" using inv w run h by (auto simp: tm_inv_def tm_wf_def enqueue_def)
  moreover have "tm_log ?s" using inv w h by (auto simp: tm_inv_def tm_log_def enqueue_def)
  ultimately show ?thesis by (simp add: tm_inv_def)
qed

lemma tm_inv_worker_moves:
  "tm_inv s \<Longrightarrow> \<not> tm_running s \<Longrightarrow> worker s \<noteq> NoWorker \<Longrightarrow> tm_inv (s\<lparr>worker := Exited\<rparr>)"
  "tm_inv s \<Longrightarrow> worker s \<noteq> NoWorker \<Longrightarrow> tm_inv (s\<lparr>worker := Looking\<rparr>)"
  by (auto simp: tm_inv_def tm_wf_def tm_log_def)

context priority_queue
begin

lemma tm_inv_worker:
  assumes inv: "tm_inv s" and seen: "\<And>t c. worker s = Holding t c \<Longrightarrow> c \<le> now"
  shows "tm_inv (worker_step front now s)"
proof (cases "worker s")
  case Looking
  obtain r s' where scan: "worker_scan front now s = Some (r, s')" using scan_total by blast
  show ?thesis
    using Looking inv tm_inv_scan [OF inv Looking _ scan] tm_inv_worker_moves(1) [OF inv]
    by (cases r) (auto simp: worker_step_def scan)
next
  case (Holding t c)
  then show ?thesis using inv tm_inv_fire [OF inv Holding seen [OF Holding]] tm_inv_worker_moves [OF inv]
    by (simp add: worker_step_def)
next
  case (InCallback t)
  then show ?thesis using inv tm_inv_callback_end [OF inv InCallback] tm_inv_worker_moves [OF inv]
    by (simp add: worker_step_def)
next
  case (Rearming t)
  then show ?thesis using inv tm_inv_rearm [OF inv Rearming] tm_inv_worker_moves [OF inv]
    by (simp add: worker_step_def)
qed (simp_all add: worker_step_def inv)

lemma tm_step_inv: "tm_step front s s' \<Longrightarrow> tm_inv s \<Longrightarrow> tm_inv s'"
  by (induction rule: tm_step.induct)
    (simp_all add: tm_inv_schedule tm_inv_cancel tm_inv_start tm_inv_stop_begin tm_inv_stop_finish tm_inv_worker)

end

subsection \<open>What the timer manager guarantees\<close>

sublocale priority_queue \<subseteq> sys: invariant_system "tm_init :: 'c tm \<Rightarrow> bool" "tm_step front" tm_inv
  by unfold_locales (auto simp: tm_init_def tm_inv_new tm_step_inv)

context priority_queue
begin

lemma reachable_tm_inv: "reach tm_init (tm_step front) s \<Longrightarrow> tm_inv s"
  by (rule sys.reach_good)

end

text \<open>A queue that keeps equal elements in the order of their insertion.\<close>

fun earliest :: "(TimerId \<Rightarrow> clock) \<Rightarrow> TimerId list \<Rightarrow> TimerId" where
  "earliest f [] = 0"
| "earliest f [t] = t"
| "earliest f (t # u # ts) = (let v = earliest f (u # ts) in if f t \<le> f v then t else v)"

lemma earliest_in: "q \<noteq> [] \<Longrightarrow> earliest f q \<in> set q"
  by (induction f q rule: earliest.induct) (auto simp: Let_def)

lemma earliest_min: "x \<in> set q \<Longrightarrow> f (earliest f q) \<le> f x"
  by (induction f q rule: earliest.induct) (auto simp: Let_def)

interpretation fifo: priority_queue earliest
  by unfold_locales (simp_all add: earliest_in earliest_min)

abbreviation tm_reachable :: "((TimerId \<Rightarrow> clock) \<Rightarrow> TimerId list \<Rightarrow> TimerId) \<Rightarrow> 'c tm \<Rightarrow> bool" where
  "tm_reachable front \<equiv> reach tm_init (tm_step front)"

lemma tm_reachable_inv: "priority_queue front \<Longrightarrow> tm_reachable front s \<Longrightarrow> tm_inv s"
  by (rule priority_queue.reachable_tm_inv)

text \<open>C5: Whatever order the queue gives to timers due at the same time: no callback ever runs before its timer is
  due, a timer that does not repeat runs at most once, and the timers counted as active are exactly those in the
  queue that have not been cancelled.\<close>

theorem timers_fire_correctly:
  assumes "priority_queue front" "tm_reachable front s"
  shows "(\<forall>t d c. (t, d, c) \<in> set (fired s) \<longrightarrow> d \<le> c) \<and>
    (\<forall>t e. entries s t = Some e \<and> \<not> te_repeat e \<longrightarrow> firings s t \<le> 1) \<and>
    getActiveTimerCount s = length (filter (\<lambda>t. \<not> is_cancelled s t) (timers s))"
proof -
  have inv: "tm_wf s" "tm_log s" using tm_reachable_inv [OF assms] by (simp_all add: tm_inv_def)
  have d: "distinct (activeTimers s)" "distinct (timers s)"
    and set: "set (activeTimers s) = set (filter (\<lambda>t. \<not> is_cancelled s t) (timers s))"
    using inv(1) by (simp_all add: tm_wf_def)
  have "length (activeTimers s) = card (set (filter (\<lambda>t. \<not> is_cancelled s t) (timers s)))"
    unfolding set [symmetric] by (rule distinct_card [symmetric, OF d(1)])
  also have "\<dots> = length (filter (\<lambda>t. \<not> is_cancelled s t) (timers s))" using d(2) by (intro distinct_card) simp
  finally show ?thesis using inv(2) by (auto simp: getActiveTimerCount_def tm_log_def entry_def)
qed

text \<open>A cancelled timer outside the worker's hands stays that way.\<close>

definition dead :: "TimerId \<Rightarrow> 'c tm \<Rightarrow> bool" where
  "dead t s \<longleftrightarrow> entries s t \<noteq> None \<and> is_cancelled s t \<and> tm_inv s"

lemma dead_not_held: "dead t s \<Longrightarrow> held (worker s) \<noteq> Some t"
  by (auto simp: dead_def tm_inv_def tm_wf_def)

lemma cancelled_with_entry:
  "is_cancelled s t \<Longrightarrow> entries s t \<noteq> None \<Longrightarrow> tm_inv s \<Longrightarrow>
   is_cancelled (snd (schedule delay callback rep now s)) t \<and> entries (snd (schedule delay callback rep now s)) t \<noteq> None \<and>
   firings (snd (schedule delay callback rep now s)) t = firings s t"
  by (cases callback) (auto simp: schedule_with_entry tm_start_def tm_inv_def tm_wf_def, simp_all add: schedule_def)

context priority_queue
begin

lemma dead_worker:
  assumes d: "dead t s" and seen: "\<And>t c. worker s = Holding t c \<Longrightarrow> c \<le> now"
  shows "is_cancelled (worker_step front now s) t \<and> entries (worker_step front now s) t \<noteq> None \<and>
    firings (worker_step front now s) t = firings s t"
proof -
  have nh: "held (worker s) \<noteq> Some t" using d by (rule dead_not_held)
  have c: "is_cancelled s t" "entries s t \<noteq> None" using d by (simp_all add: dead_def)
  obtain r s' where scan: "worker_scan front now s = Some (r, s')" using scan_total by blast
  have "distinct (timers s)" using d by (simp add: dead_def tm_inv_def tm_wf_def)
  then obtain q a where s': "s' = s\<lparr>timers := q, activeTimers := a\<rparr>" using scan_result [OF scan] by blast
  show ?thesis
    using nh c s' by (cases "worker s"; cases r) (simp_all add: worker_step_def scan entry_update enqueue_def firings_def)
qed

lemma dead_step:
  assumes "tm_step front s s'" "dead t s"
  shows "dead t s' \<and> firings s' t = firings s t"
proof -
  have inv: "tm_inv s" "entries s t \<noteq> None" "is_cancelled s t" using assms(2) by (simp_all add: dead_def)
  have "tm_inv s'" using tm_step_inv [OF assms(1) inv(1)] .
  moreover have "entries s' t \<noteq> None \<and> is_cancelled s' t \<and> firings s' t = firings s t"
    using assms(1)
  proof cases
    case (add delay callback rep now)
    then show ?thesis using cancelled_with_entry [OF inv(3,2,1)] by simp
  next
    case (cancel u)
    then show ?thesis using inv by (simp add: cancelTimer_def Let_def cancel_entries_cancelled del: not_None_eq)
  next
    case stop_join
    then show ?thesis using inv by (simp add: stop_finish_def cancel_entries_cancelled del: not_None_eq)
  next
    case (work now)
    then show ?thesis using dead_worker [OF assms(2)] by simp
  qed (use inv in \<open>simp_all add: tm_start_def stop_begin_def\<close>)
  ultimately show ?thesis by (simp add: dead_def)
qed

lemma dead_forever: "(tm_step front)\<^sup>*\<^sup>* s s' \<Longrightarrow> dead t s \<Longrightarrow> dead t s' \<and> firings s' t = firings s t"
  by (induction rule: rtranclp_induct) (use dead_step in auto)

end

text \<open>C7: Once \<open>cancelTimer\<close> has returned true, the callback of that timer never runs again, whatever happens
  afterwards.\<close>

theorem cancelled_never_fires:
  assumes "priority_queue front" "tm_reachable front s" "cancelTimer t s = (True, s')" "(tm_step front)\<^sup>*\<^sup>* s' s''"
  shows "firings s'' t = firings s' t"
proof -
  have inv: "tm_inv s" using tm_reachable_inv [OF assms(1,2)] .
  have t: "t \<in> set (activeTimers s)" using assms(3) by (auto simp: cancelTimer_def split: if_splits)
  then have e: "entries s t \<noteq> None" using inv by (auto simp: tm_inv_def tm_wf_def)
  have "s' = (cancel_entries [t] s)\<lparr>activeTimers := removeAll t (activeTimers s)\<rparr>"
    using assms(3) t by (auto simp: cancelTimer_def Let_def)
  then have "dead t s'" 
    using e tm_inv_cancel [OF inv, of t] assms(3) by (simp add: dead_def cancel_entries_cancelled del: not_None_eq)
  then show ?thesis using priority_queue.dead_forever [OF assms(1,4)] by blast
qed

text \<open>The worker's search for the next timer always ends, whatever was cancelled, and it never lengthens the
  queue.\<close>

theorem worker_scan_ends:
  assumes "priority_queue front" "tm_reachable front s"
  shows "\<exists>r s'. worker_scan front now s = Some (r, s') \<and> length (timers s') \<le> length (timers s)"
proof -
  obtain r s' where scan: "worker_scan front now s = Some (r, s')" using priority_queue.scan_total [OF assms(1)] by blast
  have d: "distinct (timers s)" using tm_reachable_inv [OF assms] by (simp add: tm_inv_def tm_wf_def)
  from priority_queue.scan_result [OF assms(1) scan d] obtain q a
    where "s' = s\<lparr>timers := q, activeTimers := a\<rparr>" "distinct q" "set q \<subseteq> set (timers s)" by (auto simp: scan_ends_def)
  then have "length (timers s') \<le> length (timers s)"
    using d card_mono [of "set (timers s)" "set q"] by (simp add: distinct_card)
  then show ?thesis using scan by blast
qed

text \<open>C33: When some active timer is due, the worker takes one, the earliest, and unless the manager is stopped in
  between, its next step runs that timer's callback.\<close>

theorem due_timer_fires:
  assumes "priority_queue front" "tm_reachable front s" "tm_running s" "worker s = Looking"
    "\<exists>t\<in>set (activeTimers s). due s t \<le> now"
  shows "\<exists>t\<in>set (activeTimers s). (\<forall>u\<in>set (activeTimers s). due s t \<le> due s u) \<and>
    worker (worker_step front now s) = Holding t now \<and>
    worker (worker_step front later (worker_step front now s)) = InCallback t \<and>
    fired (worker_step front later (worker_step front now s)) = fired s @ [(t, due s t, later)]"
proof -
  have inv: "tm_wf s" using tm_reachable_inv [OF assms(1,2)] by (simp add: tm_inv_def)
  obtain r s' where scan: "worker_scan front now s = Some (r, s')" using priority_queue.scan_total [OF assms(1)] by blast
  have "distinct (timers s)" using inv by (simp add: tm_wf_def)
  from priority_queue.scan_result [OF assms(1) scan this] obtain q a
    where s': "s' = s\<lparr>timers := q, activeTimers := a\<rparr>" and ends: "scan_ends now s r q a" by blast
  have act: "set (activeTimers s) = {t \<in> set (timers s). \<not> is_cancelled s t}" using inv by (simp add: tm_wf_def)
  obtain t0 where t0: "t0 \<in> set (timers s)" "\<not> is_cancelled s t0" "due s t0 \<le> now" using assms(5) by (auto simp: act)
  have "r \<noteq> None"
  proof
    assume "r = None"
    then have "now < due s t0" using ends assms(3) t0(1,2) by (simp add: scan_ends_def)
    then show False using t0(3) by simp
  qed
  then obtain t where r: "r = Some t" by blast
  have t: "t \<in> set (activeTimers s)" "\<forall>u\<in>set (activeTimers s). due s t \<le> due s u" "\<not> is_cancelled s t"
    using ends by (auto simp: scan_ends_def r act)
  have st: "worker_step front now s = s'\<lparr>worker := Holding t now\<rparr>" using assms(3,4) scan r by (simp add: worker_step_def)
  have "worker_step front later (s'\<lparr>worker := Holding t now\<rparr>) =
      s'\<lparr>worker := InCallback t, fired := fired s @ [(t, due s t, later)]\<rparr>"
    using t(3) assms(3) by (simp add: worker_step_def s')
  then show ?thesis using t st by (intro bexI [of _ t]) simp_all
qed

text \<open>C34: A repeating timer is out of the table of active timers while its callback runs, so cancelling it there,
  from the callback itself or from another thread, returns false and has no effect: the worker puts the timer back
  with a later time.\<close>

theorem cancel_in_callback:
  assumes "priority_queue front" "tm_reachable front s" "tm_running s" "worker s = InCallback t" "te_repeat (entry s t)"
  shows "cancelTimer t s = (False, s) \<and>
    t \<in> set (activeTimers (worker_step front later (worker_step front now s))) \<and>
    now < due (worker_step front later (worker_step front now s)) t"
proof -
  have wf: "tm_wf s" using tm_reachable_inv [OF assms(1,2)] by (simp add: tm_inv_def)
  then have t: "t \<notin> set (timers s)" "entries s t \<noteq> None" "\<not> is_cancelled s t" "t \<notin> set (activeTimers s)"
    using assms(4) by (auto simp: tm_wf_def)
  then have "0 < te_interval (entry s t)" using wf by (auto simp: tm_wf_def entry_def)
  note later = next_expire_later [OF this, of now]
  let ?s = "s\<lparr>entries := (entries s)(t \<mapsto> (entry s t)\<lparr>expireTime := next_expire now (entry s t)\<rparr>), worker := Rearming t\<rparr>"
  have "worker_step front now s = ?s" using t assms(3,4,5) by (simp add: worker_step_def)
  moreover have "worker_step front later ?s = (enqueue t ?s)\<lparr>worker := Looking\<rparr>"
    using t assms(3) by (simp add: worker_step_def entry_update is_cancelled_def Let_def)
  moreover have "due (enqueue t ?s) t = next_expire now (entry s t)" by (simp add: due_def entry_def enqueue_def)
  ultimately show ?thesis using t later by (simp add: cancelTimer_def enqueue_def)
qed

subsection \<open>Connection timeouts\<close>

type_synonym ConnectionId = nat

record 'u ConnectionTimeout =
  ct_connId :: ConnectionId
  ct_timerId :: TimerId
  ct_timeout :: int
  ct_callback :: "'u option"

text \<open>The state is the table of connections and the timer manager; the closures given to the manager are the
  connection and the callback they capture.\<close>

type_synonym 'u ctm = "(ConnectionId \<times> 'u ConnectionTimeout) list \<times> (ConnectionId \<times> 'u option) tm"

definition setConnectionTimeout :: "ConnectionId \<Rightarrow> int \<Rightarrow> 'u option \<Rightarrow> clock \<Rightarrow> 'u ctm \<Rightarrow> 'u ctm" where
  "setConnectionTimeout connId timeout callback now x =
     (case x of (conns, s) \<Rightarrow>
        let s = (case map_of conns connId of None \<Rightarrow> s | Some existing \<Rightarrow> snd (cancelTimer (ct_timerId existing) s))
        in case addTimer timeout (Some (connId, callback)) now s of (t, s) \<Rightarrow>
             (AList.update connId
                \<lparr>ct_connId = connId, ct_timerId = t, ct_timeout = timeout, ct_callback = callback\<rparr> conns, s))"

definition refreshConnection :: "ConnectionId \<Rightarrow> clock \<Rightarrow> 'u ctm \<Rightarrow> 'u ctm" where
  "refreshConnection connId now x =
     (case x of (conns, s) \<Rightarrow>
        (case map_of conns connId of
           None \<Rightarrow> x
         | Some e \<Rightarrow>
             let s = snd (cancelTimer (ct_timerId e) s)
             in case addTimer (ct_timeout e) (Some (connId, ct_callback e)) now s of (t, s) \<Rightarrow>
                  (AList.update connId (e\<lparr>ct_timerId := t\<rparr>) conns, s)))"

definition ctm_removeConnection :: "ConnectionId \<Rightarrow> 'u ctm \<Rightarrow> 'u ctm" where
  "ctm_removeConnection connId x =
     (case x of (conns, s) \<Rightarrow>
        (case map_of conns connId of
           None \<Rightarrow> x
         | Some e \<Rightarrow> (AList.delete connId conns, snd (cancelTimer (ct_timerId e) s))))"

definition getManagedConnectionCount :: "'u ctm \<Rightarrow> nat" where
  "getManagedConnectionCount x = length (fst x)"

inductive ctm_step :: "((TimerId \<Rightarrow> clock) \<Rightarrow> TimerId list \<Rightarrow> TimerId) \<Rightarrow> 'u ctm \<Rightarrow> 'u ctm \<Rightarrow> bool" for front where
  set_timeout: "tm_running (snd x) \<or> worker (snd x) = NoWorker \<Longrightarrow>
    ctm_step front x (setConnectionTimeout connId timeout callback now x)"
| refresh: "tm_running (snd x) \<or> worker (snd x) = NoWorker \<Longrightarrow> ctm_step front x (refreshConnection connId now x)"
| remove: "ctm_step front x (ctm_removeConnection connId x)"
| stop_flag: "ctm_step front (conns, s) (conns, stop_begin s)"
| stop_join: "\<not> tm_running s \<Longrightarrow> worker s = Exited \<Longrightarrow> ctm_step front (conns, s) (conns, stop_finish s)"
| work: "(\<And>t seen. worker s = Holding t seen \<Longrightarrow> seen \<le> now) \<Longrightarrow>
    ctm_step front (conns, s) (conns, worker_step front now s)"

definition ctm_init :: "'u ctm \<Rightarrow> bool" where
  "ctm_init x \<longleftrightarrow> (\<exists>tick. x = ([], tm_new tick))"

definition ctm_inv :: "'u ctm \<Rightarrow> bool" where
  "ctm_inv x \<longleftrightarrow>
     tm_inv (snd x) \<and> distinct (map fst (fst x)) \<and>
     (\<forall>t e. entries (snd x) t = Some e \<longrightarrow> \<not> te_repeat e) \<and>
     (\<forall>t\<in>set (activeTimers (snd x)).
        \<exists>e. map_of (fst x) (fst (te_callback (entry (snd x) t))) = Some e \<and> ct_timerId e = t)"

text \<open>Cancelling the timer of a connection leaves it without active timers; adding one makes it the only one.\<close>

lemma active_defined: "tm_inv s \<Longrightarrow> t \<in> set (activeTimers s) \<Longrightarrow> entries s t \<noteq> None"
  by (auto simp: tm_inv_def tm_wf_def)

lemma cancel_facts:
  "set (activeTimers (snd (cancelTimer t s))) = set (activeTimers s) - {t}"
  "tm_running (snd (cancelTimer t s)) = tm_running s" "worker (snd (cancelTimer t s)) = worker s"
  "\<forall>u e. entries s u = Some e \<longrightarrow> \<not> te_repeat e \<Longrightarrow> \<forall>u e. entries (snd (cancelTimer t s)) u = Some e \<longrightarrow> \<not> te_repeat e"
  by (auto simp: cancelTimer_def Let_def cancel_entries_def split: if_splits)

lemma cancel_callback:
  "tm_inv s \<Longrightarrow> u \<in> set (activeTimers s) \<Longrightarrow> te_callback (entry (snd (cancelTimer t s)) u) = te_callback (entry s u)"
  by (simp add: cancelTimer_def Let_def cancel_entries_entry active_defined del: not_None_eq)

lemma add_facts:
  assumes inv: "tm_inv s" and ok: "tm_running s \<or> worker s = NoWorker"
    and run: "addTimer delay (Some c) now s = (t, s')"
  shows "tm_inv s'" "t \<notin> set (activeTimers s)" "set (activeTimers s') = insert t (set (activeTimers s))"
    "te_callback (entry s' t) = c" "u \<in> set (activeTimers s) \<Longrightarrow> te_callback (entry s' u) = te_callback (entry s u)"
    "\<forall>u e. entries s u = Some e \<longrightarrow> \<not> te_repeat e \<Longrightarrow> \<forall>u e. entries s' u = Some e \<longrightarrow> \<not> te_repeat e"
proof -
  have new: "entries s (nextTimerId s) = None" using inv by (cases "entries s (nextTimerId s)") (auto simp: tm_inv_def tm_wf_def)
  then have out: "nextTimerId s \<notin> set (activeTimers s)" using active_defined [OF inv] by blast
  have start: "activeTimers (tm_start s) = activeTimers s" "entry (tm_start s) = entry s" "entries (tm_start s) = entries s"
    by (simp_all add: tm_start_def)
  have r: "t = nextTimerId s" using run by (auto simp: addTimer_def schedule_with_entry)
  show "tm_inv s'" using tm_inv_schedule [OF inv ok, of delay "Some c" False now] run by (simp add: addTimer_def)
  show "t \<notin> set (activeTimers s)" using out r by simp
  show "set (activeTimers s') = insert t (set (activeTimers s))" "te_callback (entry s' t) = c"
    "u \<in> set (activeTimers s) \<Longrightarrow> te_callback (entry s' u) = te_callback (entry s u)"
    "\<forall>u e. entries s u = Some e \<longrightarrow> \<not> te_repeat e \<Longrightarrow> \<forall>u e. entries s' u = Some e \<longrightarrow> \<not> te_repeat e"
    using run out start by (auto simp: addTimer_def schedule_with_entry with_entry_active split: if_splits)
qed

definition ctm_ready :: "ConnectionId \<Rightarrow> (ConnectionId \<times> 'u ConnectionTimeout) list \<Rightarrow> (ConnectionId \<times> 'u option) tm \<Rightarrow> bool" where
  "ctm_ready c conns s \<longleftrightarrow>
     tm_inv s \<and> (\<forall>t e. entries s t = Some e \<longrightarrow> \<not> te_repeat e) \<and>
     (\<forall>t\<in>set (activeTimers s). fst (te_callback (entry s t)) \<noteq> c \<and>
        (\<exists>e. map_of conns (fst (te_callback (entry s t))) = Some e \<and> ct_timerId e = t))"

lemma ctm_invD:
  assumes "ctm_inv (conns, s)"
  shows "tm_inv s" "distinct (map fst conns)" "\<forall>t e. entries s t = Some e \<longrightarrow> \<not> te_repeat e"
    "\<forall>t\<in>set (activeTimers s). \<exists>e. map_of conns (fst (te_callback (entry s t))) = Some e \<and> ct_timerId e = t"
  using assms unfolding ctm_inv_def fst_conv snd_conv by blast+

lemma ctm_invI:
  assumes "tm_inv s" "distinct (map fst conns)" "\<forall>t e. entries s t = Some e \<longrightarrow> \<not> te_repeat e"
    "\<forall>t\<in>set (activeTimers s). \<exists>e. map_of conns (fst (te_callback (entry s t))) = Some e \<and> ct_timerId e = t"
  shows "ctm_inv (conns, s)"
  using assms unfolding ctm_inv_def fst_conv snd_conv by blast

lemma ctm_cancel:
  assumes inv: "ctm_inv (conns, s)" and e: "map_of conns c = Some e"
  shows "ctm_ready c conns (snd (cancelTimer (ct_timerId e) s))"
proof -
  note i = ctm_invD [OF inv]
  have "\<forall>t\<in>set (activeTimers (snd (cancelTimer (ct_timerId e) s))).
       fst (te_callback (entry (snd (cancelTimer (ct_timerId e) s)) t)) \<noteq> c \<and>
       (\<exists>e'. map_of conns (fst (te_callback (entry (snd (cancelTimer (ct_timerId e) s)) t))) = Some e' \<and> ct_timerId e' = t)"
    using i(4) e by (auto simp: cancel_facts cancel_callback [OF i(1)])
  then show ?thesis using tm_inv_cancel [OF i(1)] cancel_facts(4) [OF i(3)] unfolding ctm_ready_def by blast
qed

lemma ctm_unmanaged:
  assumes inv: "ctm_inv (conns, s)" and "map_of conns c = None"
  shows "ctm_ready c conns s"
proof -
  note i = ctm_invD [OF inv]
  have "fst (te_callback (entry s t)) \<noteq> c" if "t \<in> set (activeTimers s)" for t using i(4) that assms(2) by auto
  then show ?thesis using i unfolding ctm_ready_def by blast
qed

lemma ctm_add:
  assumes rd: "ctm_ready c conns s" and d: "distinct (map fst conns)"
    and ok: "tm_running s \<or> worker s = NoWorker" and run: "addTimer delay (Some (c, cb)) now s = (t, s')"
    and e: "ct_timerId e = t"
  shows "ctm_inv (AList.update c e conns, s')"
proof -
  have s: "tm_inv s" "\<forall>t e. entries s t = Some e \<longrightarrow> \<not> te_repeat e"
    and act: "\<forall>t\<in>set (activeTimers s). fst (te_callback (entry s t)) \<noteq> c \<and>
      (\<exists>e. map_of conns (fst (te_callback (entry s t))) = Some e \<and> ct_timerId e = t)"
    using rd unfolding ctm_ready_def by blast+
  note a = add_facts [OF s(1) ok run]
  have "\<exists>e'. map_of (AList.update c e conns) (fst (te_callback (entry s' u))) = Some e' \<and> ct_timerId e' = u"
    if u: "u \<in> set (activeTimers s')" for u
  proof (cases "u = t")
    case True
    then show ?thesis using a(4) e by (simp add: update_conv')
  next
    case False
    then have "u \<in> set (activeTimers s)" using u a(3) by simp
    then show ?thesis using act a(5) by (auto simp: update_conv')
  qed
  then show ?thesis by (intro ctm_invI a(1) a(6) s(2) distinct_update [OF d] ballI)
qed

lemma ctm_inv_set:
  assumes inv: "ctm_inv x" and ok: "tm_running (snd x) \<or> worker (snd x) = NoWorker"
  shows "ctm_inv (setConnectionTimeout c timeout cb now x)"
proof -
  obtain conns s where x: "x = (conns, s)" by fastforce
  define s1 where "s1 = (case map_of conns c of None \<Rightarrow> s | Some e \<Rightarrow> snd (cancelTimer (ct_timerId e) s))"
  have rd: "ctm_ready c conns s1"
    using ctm_cancel [OF inv [unfolded x]] ctm_unmanaged [OF inv [unfolded x]]
    by (simp add: s1_def split: option.split)
  have ok1: "tm_running s1 \<or> worker s1 = NoWorker" using ok by (simp add: s1_def x cancel_facts split: option.split)
  obtain t s2 where add: "addTimer timeout (Some (c, cb)) now s1 = (t, s2)" by fastforce
  have "setConnectionTimeout c timeout cb now x =
    (AList.update c \<lparr>ct_connId = c, ct_timerId = t, ct_timeout = timeout, ct_callback = cb\<rparr> conns, s2)"
    using add by (simp add: x setConnectionTimeout_def s1_def [symmetric] Let_def)
  then show ?thesis using ctm_add [OF rd ctm_invD(2) [OF inv [unfolded x]] ok1 add] by simp
qed

lemma ctm_inv_refresh:
  assumes inv: "ctm_inv x" and ok: "tm_running (snd x) \<or> worker (snd x) = NoWorker"
  shows "ctm_inv (refreshConnection c now x)"
proof -
  obtain conns s where x: "x = (conns, s)" by fastforce
  show ?thesis
  proof (cases "map_of conns c")
    case None
    then show ?thesis using inv by (simp add: x refreshConnection_def)
  next
    case (Some e)
    let ?s = "snd (cancelTimer (ct_timerId e) s)"
    obtain t s2 where add: "addTimer (ct_timeout e) (Some (c, ct_callback e)) now ?s = (t, s2)" by fastforce
    have "refreshConnection c now x = (AList.update c (e\<lparr>ct_timerId := t\<rparr>) conns, s2)"
      using add Some by (simp add: x refreshConnection_def Let_def)
    moreover have "tm_running ?s \<or> worker ?s = NoWorker" using ok by (simp add: x cancel_facts)
    ultimately show ?thesis
      using ctm_add [OF ctm_cancel [OF inv [unfolded x] Some] ctm_invD(2) [OF inv [unfolded x]] _ add] by simp
  qed
qed

lemma ctm_inv_remove:
  assumes inv: "ctm_inv x"
  shows "ctm_inv (ctm_removeConnection c x)"
proof -
  obtain conns s where x: "x = (conns, s)" by fastforce
  show ?thesis
  proof (cases "map_of conns c")
    case (Some e)
    let ?s = "snd (cancelTimer (ct_timerId e) s)"
    have i: "tm_inv ?s" "\<forall>t e. entries ?s t = Some e \<longrightarrow> \<not> te_repeat e"
      "\<forall>t\<in>set (activeTimers ?s). fst (te_callback (entry ?s t)) \<noteq> c \<and>
        (\<exists>e. map_of conns (fst (te_callback (entry ?s t))) = Some e \<and> ct_timerId e = t)"
      using ctm_cancel [OF inv [unfolded x] Some] unfolding ctm_ready_def by blast+
    have d: "distinct (map fst (AList.delete c conns))" using ctm_invD(2) [OF inv [unfolded x]] by (simp add: distinct_delete)
    have "ctm_inv (AList.delete c conns, ?s)" by (rule ctm_invI [OF i(1) d i(2)]) (use i(3) in \<open>simp add: delete_conv'\<close>)
    then show ?thesis using Some by (simp add: x ctm_removeConnection_def)
  qed (use inv in \<open>simp add: x ctm_removeConnection_def\<close>)
qed

text \<open>The worker and stopping only take timers out of the table: none of these timers repeats.\<close>

lemma ctm_inv_shrink:
  assumes inv: "ctm_inv (conns, s)" and tm: "tm_inv s'"
    and sub: "set (activeTimers s') \<subseteq> set (activeTimers s)"
    and cb: "\<And>t. t \<in> set (activeTimers s) \<Longrightarrow> te_callback (entry s' t) = te_callback (entry s t)"
    and rep: "\<And>t e. entries s' t = Some e \<Longrightarrow> \<exists>e0. entries s t = Some e0 \<and> te_repeat e0 = te_repeat e"
  shows "ctm_inv (conns, s')"
proof -
  note i = ctm_invD [OF inv]
  have "\<forall>t e. entries s' t = Some e \<longrightarrow> \<not> te_repeat e" using rep i(3) by blast
  moreover have "\<forall>t\<in>set (activeTimers s'). \<exists>e. map_of conns (fst (te_callback (entry s' t))) = Some e \<and> ct_timerId e = t"
  proof
    fix t
    assume "t \<in> set (activeTimers s')"
    then have t: "t \<in> set (activeTimers s)" using sub by blast
    show "\<exists>e. map_of conns (fst (te_callback (entry s' t))) = Some e \<and> ct_timerId e = t"
      unfolding cb [OF t] using i(4) t by blast
  qed
  ultimately show ?thesis by (rule ctm_invI [OF tm i(2)])
qed

lemma cancel_entries_keep:
  "entries s t \<noteq> None \<Longrightarrow> te_callback (entry (cancel_entries ts s) t) = te_callback (entry s t)"
  "entries (cancel_entries ts s) t = Some e \<Longrightarrow> \<exists>e0. entries s t = Some e0 \<and> te_repeat e0 = te_repeat e"
  by (simp add: cancel_entries_entry del: not_None_eq) (auto simp: cancel_entries_def split: if_splits)

lemma ctm_inv_stop:
  "ctm_inv (conns, s) \<Longrightarrow> ctm_inv (conns, stop_begin s)"
  "ctm_inv (conns, s) \<Longrightarrow> \<not> tm_running s \<Longrightarrow> worker s = Exited \<Longrightarrow> ctm_inv (conns, stop_finish s)"
proof -
  assume inv: "ctm_inv (conns, s)"
  have tm: "tm_inv s" by (rule ctm_invD(1) [OF inv])
  show "ctm_inv (conns, stop_begin s)"
    by (rule ctm_inv_shrink [OF inv tm_inv_stop_begin [OF tm]]) (auto simp: stop_begin_def)
  assume w: "\<not> tm_running s" "worker s = Exited"
  show "ctm_inv (conns, stop_finish s)"
    by (rule ctm_inv_shrink [OF inv tm_inv_stop_finish [OF tm w]])
      (simp_all add: stop_finish_def cancel_entries_keep active_defined [OF tm] del: not_None_eq)
qed

context priority_queue
begin

lemma ctm_inv_work:
  assumes inv: "ctm_inv (conns, s)" and seen: "\<And>t c. worker s = Holding t c \<Longrightarrow> c \<le> now"
  shows "ctm_inv (conns, worker_step front now s)"
proof -
  note i = ctm_invD [OF inv]
  have once: "\<not> te_repeat (entry s t)" if "held (worker s) = Some t" for t
    using that i(1,3) by (auto simp: tm_inv_def tm_wf_def entry_def)
  then have nr: "worker s \<noteq> Rearming t" for t using i(1) by (auto simp: tm_inv_def tm_wf_def)
  obtain r s' where scan: "worker_scan front now s = Some (r, s')" using scan_total by blast
  have "distinct (timers s)" using i(1) by (simp add: tm_inv_def tm_wf_def)
  then obtain q a where s': "s' = s\<lparr>timers := q, activeTimers := a\<rparr>" "scan_ends now s r q a" using scan_result [OF scan] by blast
  have a: "set a \<subseteq> set (activeTimers s)" using s'(2) by (auto simp: scan_ends_def split: option.splits)
  have "set (activeTimers (worker_step front now s)) \<subseteq> set (activeTimers s) \<and>
      entries (worker_step front now s) = entries s"
    using nr once a by (cases "worker s"; cases r) (simp_all add: worker_step_def scan s'(1))
  then show ?thesis
    by (intro ctm_inv_shrink [OF inv tm_inv_worker [OF i(1) seen]]) (simp_all add: entry_def)
qed

lemma ctm_step_inv: "ctm_step front x x' \<Longrightarrow> ctm_inv x \<Longrightarrow> ctm_inv x'"
  by (induction rule: ctm_step.induct)
    (simp_all add: ctm_inv_set ctm_inv_refresh ctm_inv_remove ctm_inv_stop ctm_inv_work)

end

lemma ctm_inv_init: "ctm_init x \<Longrightarrow> ctm_inv x"
  by (auto simp: ctm_init_def ctm_inv_def tm_inv_new) (simp_all add: tm_new_def)

sublocale priority_queue \<subseteq> timeouts: invariant_system "ctm_init :: 'u ctm \<Rightarrow> bool" "ctm_step front" ctm_inv
  by unfold_locales (auto simp: ctm_inv_init ctm_step_inv)

context priority_queue
begin

lemma reachable_ctm_inv: "reach ctm_init (ctm_step front) x \<Longrightarrow> ctm_inv x"
  by (rule timeouts.reach_good)

end

text \<open>The active timers of a connection timeout manager are those of its connections: each managed connection has
  at most one active timer, the one its entry records, however often its timeout was set or refreshed, and a removed
  connection has none.\<close>

theorem one_timer_per_connection:
  assumes "priority_queue front" "reach ctm_init (ctm_step front) (conns, s)"
    and "t \<in> set (activeTimers s)" "te_callback (entry s t) = (c, cb)"
  shows "(\<exists>e. map_of conns c = Some e \<and> ct_timerId e = t) \<and>
    (\<forall>u\<in>set (activeTimers s). fst (te_callback (entry s u)) = c \<longrightarrow> u = t)"
proof -
  note i = ctm_invD(4) [OF priority_queue.reachable_ctm_inv [OF assms(1,2)]]
  then obtain e where e: "map_of conns c = Some e" "ct_timerId e = t" using assms(3,4) by force
  moreover have "u = t" if "u \<in> set (activeTimers s)" "fst (te_callback (entry s u)) = c" for u using i that e by force
  ultimately show ?thesis by blast
qed

subsection \<open>The timer object\<close>

text \<open>A \<open>Timer\<close> over its manager and the event loop. The shared flags are a store, and the closure it
  schedules is the flag and the repeat mode it captures; \<open>posted\<close> is the queue of the event loop, and
  \<open>ran\<close> records the flags under which the user's callback ran.\<close>

record tw =
  tw_tm :: "(nat \<times> bool) tm"
  tokens :: "nat \<Rightarrow> bool"
  nextToken :: nat
  posted :: "(nat \<times> bool) list"
  ran :: "nat list"
  ut_timerId :: TimerId
  ut_token :: nat

definition Timer_new :: "(nat \<times> bool) tm \<Rightarrow> tw" where
  "Timer_new s =
     \<lparr>tw_tm = s, tokens = (\<lambda>k. False), nextToken = 1, posted = [], ran = [], ut_timerId = 0, ut_token = 0\<rparr>"

definition Timer_stop :: "tw \<Rightarrow> tw" where
  "Timer_stop w =
     (let w = w\<lparr>tokens := (tokens w)(ut_token w := False)\<rparr>;
          w = (if ut_timerId w \<noteq> 0 then w\<lparr>tw_tm := snd (cancelTimer (ut_timerId w) (tw_tm w))\<rparr> else w)
      in w\<lparr>ut_timerId := 0\<rparr>)"

definition Timer_start :: "int \<Rightarrow> bool \<Rightarrow> bool \<Rightarrow> clock \<Rightarrow> tw \<Rightarrow> tw" where
  "Timer_start delay callback rep now w =
     (let w = Timer_stop w
      in if \<not> callback then w
         else
           let k = nextToken w;
               w = w\<lparr>tokens := (tokens w)(k := True), nextToken := k + 1, ut_token := k\<rparr>;
               (t, s) = (if rep then addRepeatingTimer delay (Some (k, rep)) now (tw_tm w)
                         else addTimer delay (Some (k, rep)) now (tw_tm w))
           in w\<lparr>tw_tm := s, ut_timerId := t\<rparr>)"

definition Timer_isRunning :: "tw \<Rightarrow> bool" where
  "Timer_isRunning w = tokens w (ut_token w)"

definition wrapped :: "nat \<times> bool \<Rightarrow> tw \<Rightarrow> tw" where
  "wrapped c w = (if \<not> tokens w (fst c) then w else w\<lparr>posted := posted w @ [c]\<rparr>)"

definition run_posted :: "tw \<Rightarrow> tw" where
  "run_posted w =
     (case posted w of
        [] \<Rightarrow> w
      | (k, rep) # rest \<Rightarrow>
          let w = w\<lparr>posted := rest\<rparr>
          in if \<not> tokens w k then w
             else if rep then w\<lparr>ran := ran w @ [k]\<rparr>
             else w\<lparr>tokens := (tokens w)(k := False), ran := ran w @ [k]\<rparr>)"

definition tw_work :: "((TimerId \<Rightarrow> clock) \<Rightarrow> TimerId list \<Rightarrow> TimerId) \<Rightarrow> clock \<Rightarrow> tw \<Rightarrow> tw" where
  "tw_work front now w =
     (let s = tw_tm w; s' = worker_step front now s; w' = w\<lparr>tw_tm := s'\<rparr>
      in case (worker s, worker s') of
           (Holding t seen, InCallback u) \<Rightarrow> wrapped (te_callback (entry s t)) w'
         | _ \<Rightarrow> w')"

inductive tw_step :: "((TimerId \<Rightarrow> clock) \<Rightarrow> TimerId list \<Rightarrow> TimerId) \<Rightarrow> tw \<Rightarrow> tw \<Rightarrow> bool" for front where
  start: "tw_step front w (Timer_start delay callback rep now w)"
| stop: "tw_step front w (Timer_stop w)"
| work: "tw_step front w (tw_work front now w)"
| run: "tw_step front w (run_posted w)"

definition tw_init :: "tw \<Rightarrow> bool" where
  "tw_init w \<longleftrightarrow> (\<exists>s. w = Timer_new s)"

definition tw_inv :: "tw \<Rightarrow> bool" where
  "tw_inv w \<longleftrightarrow> ut_token w < nextToken w"

text \<open>A flag that is down and not the next one to be made stays down, and nothing runs under it.\<close>

definition silent :: "nat \<Rightarrow> tw \<Rightarrow> bool" where
  "silent k w \<longleftrightarrow> \<not> tokens w k \<and> k < nextToken w"

lemma Timer_stop_fields [simp]:
  "tokens (Timer_stop w) = (tokens w)(ut_token w := False)" "nextToken (Timer_stop w) = nextToken w"
  "ran (Timer_stop w) = ran w" "ut_token (Timer_stop w) = ut_token w" "posted (Timer_stop w) = posted w"
  by (simp_all add: Timer_stop_def Let_def)

lemma Timer_start_fields:
  "callback \<Longrightarrow> tokens (Timer_start delay callback rep now w) = (tokens w)(ut_token w := False, nextToken w := True)"
  "callback \<Longrightarrow> nextToken (Timer_start delay callback rep now w) = nextToken w + 1"
  "callback \<Longrightarrow> ut_token (Timer_start delay callback rep now w) = nextToken w"
  "ran (Timer_start delay callback rep now w) = ran w"
  "\<not> callback \<Longrightarrow> Timer_start delay callback rep now w = Timer_stop w"
  by (simp_all add: Timer_start_def Let_def split: prod.split)

lemma tw_work_fields [simp]:
  "tokens (tw_work front now w) = tokens w" "nextToken (tw_work front now w) = nextToken w"
  "ran (tw_work front now w) = ran w" "ut_token (tw_work front now w) = ut_token w"
  by (simp_all add: tw_work_def wrapped_def Let_def split: worker_pc.split)

lemma tw_step_inv: "tw_step front w w' \<Longrightarrow> tw_inv w \<Longrightarrow> tw_inv w'"
proof (induction rule: tw_step.induct)
  case (start w delay callback rep now)
  then show ?case by (cases callback) (simp_all add: tw_inv_def Timer_start_fields)
next
  case (run w)
  then show ?case by (auto simp: tw_inv_def run_posted_def Let_def split: list.split)
qed (simp_all add: tw_inv_def)

lemma silent_step:
  "tw_step front w w' \<Longrightarrow> silent k w \<Longrightarrow> silent k w' \<and> count_list (ran w') k = count_list (ran w) k"
proof (induction rule: tw_step.induct)
  case (start w delay callback rep now)
  then show ?case by (cases callback) (simp_all add: silent_def Timer_start_fields)
next
  case (run w)
  then show ?case by (auto simp: silent_def run_posted_def Let_def split: list.split)
qed (simp_all add: silent_def)

lemma silent_forever:
  "(tw_step front)\<^sup>*\<^sup>* w w' \<Longrightarrow> silent k w \<Longrightarrow> silent k w' \<and> count_list (ran w') k = count_list (ran w) k"
  by (induction rule: rtranclp_induct) (use silent_step in auto)

interpretation tws: invariant_system tw_init "tw_step front" tw_inv for front
  by unfold_locales (auto simp: tw_init_def tw_inv_def Timer_new_def dest: tw_step_inv [unfolded tw_inv_def])


subsection \<open>A run with one repeating timer\<close>

definition tick0 :: "unit tm" where
  "tick0 = snd (schedule 1 (Some ()) True 0 (tm_new 1))"

definition tick1 :: "unit tm" where
  "tick1 = worker_step earliest 1000000 tick0"

definition tick2 :: "unit tm" where
  "tick2 = worker_step earliest 1000005 tick1"

lemmas tick_eval = schedule_def tm_new_def tm_start_def enqueue_def in_ticks_def worker_step_def worker_scan.simps
  due_def entry_def is_cancelled_def

lemma tick0_eval:
  "tick0 = \<lparr>entries = [1 \<mapsto> \<lparr>te_id = 1, expireTime = 1000000, te_interval = 1000000, te_callback = (),
      te_repeat = True, te_cancelled = False\<rparr>], timers = [1], activeTimers = [1], tm_running = True, tickInterval = 1,
    nextTimerId = 2, worker = Looking, fired = []\<rparr>"
  by (simp add: tick0_def tick_eval)

lemma tick1_eval: "tick1 = tick0\<lparr>timers := [], activeTimers := [], worker := Holding 1 1000000\<rparr>"
  by (simp add: tick1_def tick0_eval tick_eval)

lemma tick2_eval: "tick2 = tick1\<lparr>worker := InCallback 1, fired := [(1, 1000000, 1000005)]\<rparr>"
  by (simp add: tick2_def tick1_eval tick0_eval tick_eval)

lemma tick_reachable: "tm_reachable earliest tick0" "tm_reachable earliest tick1" "tm_reachable earliest tick2"
proof -
  have "tm_reachable earliest (tm_new 1 :: unit tm)" by (rule reach_init) (auto simp: tm_init_def)
  then show r0: "tm_reachable earliest tick0" unfolding tick0_def by (rule reach_step) (rule tm_step.add, simp add: tm_new_def)
  from r0 show r1: "tm_reachable earliest tick1" unfolding tick1_def by (rule reach_step) (rule tm_step.work, simp add: tick0_eval)
  from r1 show "tm_reachable earliest tick2"
    unfolding tick2_def by (rule reach_step) (rule tm_step.work, simp add: tick1_eval)
qed

theorem timers_fire_correctly_witness: "fired tick2 = [(1, 1000000, 1000005)] \<and> getActiveTimerCount tick2 = 0"
  using timers_fire_correctly [OF fifo.priority_queue_axioms tick_reachable(3)] by (simp add: tick2_eval tick1_eval)

theorem cancelled_never_fires_witness:
  "fst (cancelTimer 1 tick0) \<and>
   firings (worker_step earliest 2000000 (snd (cancelTimer 1 tick0))) 1 = firings (snd (cancelTimer 1 tick0)) 1"
proof -
  have c: "cancelTimer 1 tick0 = (True, snd (cancelTimer 1 tick0))" by (simp add: cancelTimer_def tick0_eval)
  have "(tm_step earliest)\<^sup>*\<^sup>* (snd (cancelTimer 1 tick0)) (worker_step earliest 2000000 (snd (cancelTimer 1 tick0)))"
    by (rule r_into_rtranclp, rule tm_step.work) (simp add: cancelTimer_def tick0_eval cancel_entries_def)
  from cancelled_never_fires [OF fifo.priority_queue_axioms tick_reachable(1) c this] c show ?thesis
    by (metis fst_conv)
qed

theorem worker_scan_ends_witness: "\<exists>r s'. worker_scan earliest 5 tick0 = Some (r, s') \<and> length (timers s') \<le> 1"
  using worker_scan_ends [OF fifo.priority_queue_axioms tick_reachable(1), of 5] by (simp add: tick0_eval)

theorem due_timer_fires_witness:
  "worker (worker_step earliest 1000005 (worker_step earliest 1000000 tick0)) = InCallback 1"
  using due_timer_fires [OF fifo.priority_queue_axioms tick_reachable(1), of 1000000 1000005]
  by (simp add: tick0_eval due_def entry_def)

theorem cancel_in_callback_witness:
  "cancelTimer 1 tick2 = (False, tick2) \<and>
   1 \<in> set (activeTimers (worker_step earliest 1000030 (worker_step earliest 1000020 tick2)))"
  using cancel_in_callback [OF fifo.priority_queue_axioms tick_reachable(3), of 1 1000030 1000020]
  by (simp add: tick2_eval tick1_eval tick0_eval entry_def)

theorem one_timer_per_connection_witness:
  "\<exists>e. map_of (fst (setConnectionTimeout 7 10 (Some ()) 0 ([], tm_new 1))) 7 = Some e \<and> ct_timerId e = 1"
proof -
  let ?x = "setConnectionTimeout 7 10 (Some ()) 0 ([], tm_new 1)"
  have "reach ctm_init (ctm_step earliest) (([], tm_new 1) :: unit ctm)" by (rule reach_init) (auto simp: ctm_init_def)
  then have "reach ctm_init (ctm_step earliest) ?x"
    by (rule reach_step) (rule ctm_step.set_timeout, simp add: tm_new_def)
  then have r: "reach ctm_init (ctm_step earliest) (fst ?x, snd ?x)" by simp
  have "1 \<in> set (activeTimers (snd ?x))" "te_callback (entry (snd ?x) 1) = (7, Some ())"
    by (simp_all add: setConnectionTimeout_def addTimer_def tick_eval)
  from one_timer_per_connection [OF fifo.priority_queue_axioms r this] show ?thesis by blast
qed


end
