(* ===== verification/Tcp_Connection_Pool.thy ===== *)
theory Tcp_Connection_Pool
  imports FN_Prelude "HOL-Library.Multiset"
begin

text \<open>
  \<open>src/src/TcpConnectionPool.cpp\<close> and \<open>src/include/FastNet/TcpConnectionPool.h\<close>: the pool of
  client connections to one endpoint.

  A pooled connection is a shared object, named by its number in the store \<open>pstore\<close>; the lists of the pool
  hold numbers. What a thread does under one acquisition of the mutex is one step, and so is every access to a counter
  outside it; \<open>making\<close>, \<open>made\<close>, \<open>broken\<close>, \<open>returned\<close> and
  \<open>mthread\<close> say where the threads inside \<open>acquireSync\<close>, \<open>release\<close> and the maintenance
  loop are, and \<open>clients\<close> which connections callers hold. The counters keep their width, since they can wrap
  around. Whether a connection attempt succeeds and what the clock reads are arguments, and a connection may break at
  any time. Not modelled: the waiting of \<open>acquireSync\<close> for its deadline, the timeouts and the TLS options
  passed on to \<open>TcpClient\<close>, and \<open>fulfillPendingAcquire\<close>, which nothing calls.
\<close>

subsection \<open>Pooled connections\<close>

datatype PooledConnectionState = PIdle | PInUse | PClosing | PClosed | PError

record pconn =
  pc_state :: PooledConnectionState
  pc_lastUsed :: clock
  pc_connected :: bool

definition isValid :: "pconn \<Rightarrow> bool" where
  "isValid c \<longleftrightarrow> pc_connected c \<and> pc_state c \<noteq> PClosing \<and> pc_state c \<noteq> PClosed \<and> pc_state c \<noteq> PError"

definition pc_close :: "pconn \<Rightarrow> pconn" where
  "pc_close c =
     (if pc_state c = PClosed then c
      else let c = c\<lparr>pc_state := PClosing\<rparr>; c = c\<lparr>pc_connected := False\<rparr> in c\<lparr>pc_state := PClosed\<rparr>)"

subsection \<open>The pool\<close>

record pool_options =
  minConnections :: nat
  maxConnections :: nat
  po_idleTimeout :: int

datatype mt_phase =
    MWaiting
  | MChecked
  | MMaking
  | MMade nat
  | MPushing nat

record pool =
  popts :: pool_options
  pstore :: "nat \<Rightarrow> pconn"
  nextConn :: nat
  pconns :: "nat list"
  pidle :: "nat list"
  ppending :: "nat list"
  currentCount :: "32 word"
  idleCount :: "32 word"
  inUseCount :: "32 word"
  creatingCount :: "64 word"
  pinitialized :: bool
  pshutdown :: bool
  pposted :: "(nat \<times> nat option) list"
  clients :: "nat list"
  making :: nat
  made :: "nat list"
  broken :: "nat list"
  returned :: nat
  mthread :: mt_phase

definition pool_new :: "pool_options \<Rightarrow> pool" where
  "pool_new opts =
     \<lparr>popts = opts, pstore = (\<lambda>c. \<lparr>pc_state = PClosed, pc_lastUsed = 0, pc_connected = False\<rparr>), nextConn = 0,
      pconns = [], pidle = [], ppending = [], currentCount = 0, idleCount = 0, inUseCount = 0, creatingCount = 0,
      pinitialized = False, pshutdown = False, pposted = [], clients = [], making = 0, made = [], broken = [], returned = 0,
      mthread = MWaiting\<rparr>"

definition pcanReuse :: "clock \<Rightarrow> pool \<Rightarrow> nat \<Rightarrow> bool" where
  "pcanReuse now p c \<longleftrightarrow>
     isValid (pstore p c) \<and> now - pc_lastUsed (pstore p c) \<le> in_ticks (po_idleTimeout (popts p))"

definition on_conn :: "nat \<Rightarrow> (pconn \<Rightarrow> pconn) \<Rightarrow> pool \<Rightarrow> pool" where
  "on_conn c f p = p\<lparr>pstore := (pstore p)(c := f (pstore p c))\<rparr>"

definition pdiscard :: "nat \<Rightarrow> pool \<Rightarrow> pool" where
  "pdiscard c p =
     (on_conn c (\<lambda>x. pc_close (x\<lparr>pc_state := PError\<rparr>)) p)
       \<lparr>pconns := removeAll c (pconns p), currentCount := currentCount p - 1\<rparr>"

fun try_idle :: "clock \<Rightarrow> nat list \<Rightarrow> pool \<Rightarrow> nat option \<times> pool" where
  "try_idle now [] p = (None, p\<lparr>pidle := []\<rparr>)"
| "try_idle now (c # rest) p =
     (let p = p\<lparr>pidle := rest, idleCount := idleCount p - 1\<rparr>
      in if pcanReuse now p c then (Some c, p) else try_idle now rest (pdiscard c p))"

definition tryAcquireIdle :: "clock \<Rightarrow> pool \<Rightarrow> nat option \<times> pool" where
  "tryAcquireIdle now p = try_idle now (pidle p) p"

definition totalInFlight :: "pool \<Rightarrow> nat" where
  "totalInFlight p = wrap64 (unat (currentCount p) + unat (creatingCount p))"

definition hand_out :: "nat \<Rightarrow> clock \<Rightarrow> pool \<Rightarrow> pool" where
  "hand_out c now p =
     (on_conn c (\<lambda>x. x\<lparr>pc_state := PInUse, pc_lastUsed := now\<rparr>) p)
       \<lparr>inUseCount := inUseCount p + 1, clients := clients p @ [c]\<rparr>"

text \<open>The part of \<open>acquire\<close> under the mutex. Whether the caller goes on with \<open>acquireSync\<close> is the
  first component.\<close>

definition pacquire :: "nat \<Rightarrow> clock \<Rightarrow> pool \<Rightarrow> bool \<times> pool" where
  "pacquire callback now p =
     (if pshutdown p then (False, p\<lparr>pposted := pposted p @ [(callback, None)]\<rparr>)
      else
        case tryAcquireIdle now p of
          (Some c, p) \<Rightarrow>
            let p = hand_out c now p in (False, p\<lparr>pposted := pposted p @ [(callback, Some c)]\<rparr>)
        | (None, p) \<Rightarrow>
            if totalInFlight p \<ge> maxConnections (popts p) then (False, p\<lparr>ppending := ppending p @ [callback]\<rparr>)
            else (True, p))"

datatype sync_outcome = Got nat | Creating | Waiting | Refused

text \<open>One pass of the loop of \<open>acquireSync\<close> up to the point where it unlocks to connect, waits or returns.\<close>

definition sync_section :: "clock \<Rightarrow> pool \<Rightarrow> sync_outcome \<times> pool" where
  "sync_section now p =
     (if pshutdown p then (Refused, p)
      else
        case tryAcquireIdle now p of
          (Some c, p) \<Rightarrow> (Got c, hand_out c now p)
        | (None, p) \<Rightarrow>
            if totalInFlight p < maxConnections (popts p)
            then (Creating, p\<lparr>creatingCount := creatingCount p + 1, making := making p + 1\<rparr>)
            else (Waiting, p))"

text \<open>A connection attempt that succeeds enters the pool; the thread that made it still counts as creating.\<close>

definition enter_pool :: "clock \<Rightarrow> pool \<Rightarrow> nat \<times> pool" where
  "enter_pool now p =
     (let c = nextConn p
      in (c, p\<lparr>pstore := (pstore p)(c := \<lparr>pc_state = PIdle, pc_lastUsed = now, pc_connected = True\<rparr>),
               nextConn := c + 1, pconns := pconns p @ [c], currentCount := currentCount p + 1\<rparr>))"

definition sync_connected :: "clock \<Rightarrow> pool \<Rightarrow> pool" where
  "sync_connected now p =
     (case enter_pool now p of (c, p) \<Rightarrow> p\<lparr>making := making p - 1, made := made p @ [c]\<rparr>)"

definition sync_failed :: "pool \<Rightarrow> pool" where
  "sync_failed p = p\<lparr>making := making p - 1, creatingCount := creatingCount p - 1\<rparr>"

definition sync_finish :: "nat \<Rightarrow> clock \<Rightarrow> pool \<Rightarrow> pool" where
  "sync_finish c now p =
     hand_out c now (p\<lparr>creatingCount := creatingCount p - 1, made := remove1 c (made p)\<rparr>)"

text \<open>The part of \<open>release\<close> under the first lock. What the caller read before, whether the connection
  can be used again and whether it was in use, is an argument.\<close>

datatype release_outcome = Handed | Kept | ToClose

definition release_locked :: "bool \<Rightarrow> bool \<Rightarrow> nat \<Rightarrow> clock \<Rightarrow> pool \<Rightarrow> release_outcome \<times> pool" where
  "release_locked reusable wasInUse c now p =
     (let p = p\<lparr>clients := remove1 c (clients p)\<rparr>;
          back = returned p + (if wasInUse then 1 else 0)
      in if pshutdown p \<or> \<not> reusable then (ToClose, p\<lparr>broken := broken p @ [c], returned := back\<rparr>)
         else
           case ppending p of
             callback # rest \<Rightarrow>
               (Handed, (on_conn c (\<lambda>x. x\<lparr>pc_state := PInUse, pc_lastUsed := now\<rparr>) p)
                  \<lparr>ppending := rest, pposted := pposted p @ [(callback, Some c)], clients := clients p @ [c]\<rparr>)
           | [] \<Rightarrow>
               (Kept, (on_conn c (\<lambda>x. x\<lparr>pc_state := PIdle, pc_lastUsed := now\<rparr>) p)
                  \<lparr>pidle := pidle p @ [c], idleCount := idleCount p + 1, returned := back\<rparr>))"

definition release_settle :: "pool \<Rightarrow> pool" where
  "release_settle p = p\<lparr>inUseCount := inUseCount p - 1, returned := returned p - 1\<rparr>"

definition release_close :: "nat \<Rightarrow> pool \<Rightarrow> pool" where
  "release_close c p = pdiscard c (p\<lparr>broken := remove1 c (broken p)\<rparr>)"

text \<open>\<open>release\<close> when no other thread comes in between.\<close>

definition prelease :: "nat \<Rightarrow> clock \<Rightarrow> pool \<Rightarrow> pool" where
  "prelease c now p =
     (let wasInUse = pc_state (pstore p c) = PInUse
      in case release_locked (pcanReuse now p c) wasInUse c now p of (outcome, p) \<Rightarrow>
           let p = (if wasInUse \<and> outcome \<noteq> Handed then release_settle p else p)
           in if outcome = ToClose then release_close c p else p)"

definition shutdown_flag :: "pool \<Rightarrow> pool" where
  "shutdown_flag p = p\<lparr>pshutdown := True\<rparr>"

definition shutdown_finish :: "pool \<Rightarrow> pool" where
  "shutdown_finish p =
     p\<lparr>pstore := (\<lambda>c. if c \<in> set (pconns p) then pc_close (pstore p c) else pstore p c),
       pconns := [], ppending := [], pidle := [],
       pposted := pposted p @ map (\<lambda>callback. (callback, None)) (ppending p),
       currentCount := 0, idleCount := 0, inUseCount := 0, creatingCount := 0, pinitialized := False\<rparr>"

text \<open>\<open>initialize\<close> opens connections until one attempt fails; the outcomes of the attempts are an argument.\<close>

fun open_initial :: "bool list \<Rightarrow> clock \<Rightarrow> nat \<Rightarrow> pool \<Rightarrow> pool" where
  "open_initial oks now 0 p = p"
| "open_initial [] now (Suc n) p = p"
| "open_initial (ok # oks) now (Suc n) p =
     (if \<not> ok then p
      else case enter_pool now p of (c, p) \<Rightarrow>
        open_initial oks now n (p\<lparr>pidle := pidle p @ [c], idleCount := idleCount p + 1\<rparr>))"

definition pinitialize :: "bool list \<Rightarrow> clock \<Rightarrow> pool \<Rightarrow> bool \<times> pool" where
  "pinitialize oks now p =
     (if pinitialized p then (False, p)
      else (True, open_initial oks now (minConnections (popts p)) (p\<lparr>pinitialized := True, pshutdown := False\<rparr>)))"

text \<open>The loop of \<open>cleanupIdleConnections\<close>: \<open>seen\<close> idle connections have been retained or found
  stale, and the stale ones are closed.\<close>

fun cleanup_loop :: "clock \<Rightarrow> nat list \<Rightarrow> nat \<Rightarrow> nat list \<Rightarrow> pool \<Rightarrow> nat list \<times> pool" where
  "cleanup_loop now [] seen retained p = (retained, p)"
| "cleanup_loop now (c # rest) seen retained p =
     (let belowMinimum = seen + 1 \<le> minConnections (popts p);
          expired = now - pc_lastUsed (pstore p c) > in_ticks (po_idleTimeout (popts p))
      in if \<not> belowMinimum \<and> (\<not> pcanReuse now p c \<or> expired)
         then cleanup_loop now rest (seen + 1) retained
                ((on_conn c pc_close p)\<lparr>idleCount := idleCount p - 1, pconns := removeAll c (pconns p),
                   currentCount := currentCount p - 1\<rparr>)
         else cleanup_loop now rest (seen + 1) (retained @ [c]) p)"

definition cleanupIdleConnections :: "clock \<Rightarrow> pool \<Rightarrow> pool" where
  "cleanupIdleConnections now p =
     (case cleanup_loop now (pidle p) 0 [] p of (retained, p) \<Rightarrow> p\<lparr>pidle := retained\<rparr>)"

text \<open>The steps of \<open>ensureMinimumConnections\<close>: the check of the loop condition and what follows it are not
  under one lock.\<close>

definition ensure_step :: "bool \<Rightarrow> clock \<Rightarrow> pool \<Rightarrow> pool" where
  "ensure_step ok now p =
     (case mthread p of
        MWaiting \<Rightarrow>
          if \<not> pshutdown p \<and> totalInFlight p < minConnections (popts p) then p\<lparr>mthread := MChecked\<rparr> else p
      | MChecked \<Rightarrow> p\<lparr>creatingCount := creatingCount p + 1, mthread := MMaking\<rparr>
      | MMaking \<Rightarrow>
          if ok then (case enter_pool now p of (c, p) \<Rightarrow> p\<lparr>mthread := MMade c\<rparr>)
          else p\<lparr>creatingCount := creatingCount p - 1, mthread := MWaiting\<rparr>
      | MMade c \<Rightarrow> p\<lparr>creatingCount := creatingCount p - 1, mthread := MPushing c\<rparr>
      | MPushing c \<Rightarrow>
          (on_conn c (\<lambda>x. x\<lparr>pc_state := PIdle\<rparr>) p)
            \<lparr>pidle := pidle p @ [c], idleCount := idleCount p + 1, mthread := MWaiting\<rparr>)"

subsection \<open>Runs of a pool that is not shut down\<close>

definition pool_init :: "pool \<Rightarrow> bool" where
  "pool_init p \<longleftrightarrow>
     (\<exists>opts oks now. minConnections opts \<le> maxConnections opts \<and> maxConnections opts < 2 ^ 32 - 1 \<and>
        p = snd (pinitialize oks now (pool_new opts)))"

inductive pool_step :: "pool \<Rightarrow> pool \<Rightarrow> bool" where
  acquire: "pool_step p (snd (pacquire callback now p))"
| sync: "pool_step p (snd (sync_section now p))"
| connected: "0 < making p \<Longrightarrow> pool_step p (sync_connected now p)"
| failed: "0 < making p \<Longrightarrow> pool_step p (sync_failed p)"
| finish: "c \<in> set (made p) \<Longrightarrow> pool_step p (sync_finish c now p)"
| release: "c \<in> set (clients p) \<Longrightarrow>
    pool_step p (snd (release_locked reusable (pc_state (pstore p c) = PInUse) c now p))"
| settle: "0 < returned p \<Longrightarrow> pool_step p (release_settle p)"
| closing: "c \<in> set (broken p) \<Longrightarrow> pool_step p (release_close c p)"
| maintain: "mthread p = MWaiting \<Longrightarrow> pool_step p (cleanupIdleConnections now p)"
| ensure: "pool_step p (ensure_step ok now p)"
| disconnect: "pool_step p (on_conn c (\<lambda>x. x\<lparr>pc_connected := False\<rparr>) p)"

subsection \<open>Bookkeeping\<close>

fun mt_made :: "mt_phase \<Rightarrow> nat list" where
  "mt_made (MMade c) = [c]"
| "mt_made (MPushing c) = [c]"
| "mt_made ph = []"

fun mt_creating :: "mt_phase \<Rightarrow> nat" where
  "mt_creating MMaking = 1"
| "mt_creating (MMade c) = 1"
| "mt_creating ph = 0"

fun mt_making :: "mt_phase \<Rightarrow> nat" where
  "mt_making MMaking = 1"
| "mt_making ph = 0"

text \<open>Where the connections of the pool are: idle, with a client, with a thread that has just made
  them, or with a caller of \<open>release\<close> that is about to close them.\<close>

definition parts :: "pool \<Rightarrow> nat list" where
  "parts p = pidle p @ clients p @ made p @ mt_made (mthread p) @ broken p"

text \<open>The books balance, with the connections of \<open>L\<close> in the hands of the current operation.\<close>

definition books :: "nat list \<Rightarrow> pool \<Rightarrow> bool" where
  "books L p \<longleftrightarrow>
     distinct (parts p @ L) \<and> mset (pconns p) = mset (parts p @ L) \<and>
     (\<forall>c\<in>set (pconns p). c < nextConn p) \<and> (\<forall>c\<in>set (clients p). pc_state (pstore p c) = PInUse) \<and>
     currentCount p = of_nat (length (pconns p)) \<and> idleCount p = of_nat (length (pidle p)) \<and>
     inUseCount p = of_nat (length (clients p) + returned p) \<and>
     creatingCount p = of_nat (making p + length (made p) + mt_creating (mthread p))"

lemma books_distinct: "books L p \<Longrightarrow> distinct (pconns p)"
  using mset_eq_imp_distinct_iff [of "pconns p" "parts p @ L"] by (simp add: books_def)

lemma books_set: "books L p \<Longrightarrow> set (pconns p) = set (parts p) \<union> set L"
  using mset_eq_setD [of "pconns p" "parts p @ L"] by (simp add: books_def)

lemma mset_removeAll_distinct: "distinct xs \<Longrightarrow> mset (removeAll c xs) = mset xs - {#c#}"
  by (simp add: distinct_remove1_removeAll [symmetric])

lemma length_removeAll_distinct: "distinct xs \<Longrightarrow> c \<in> set xs \<Longrightarrow> length (removeAll c xs) = length xs - 1"
  by (simp add: distinct_remove1_removeAll [symmetric] length_remove1)

lemma of_nat_pred: "0 < n \<Longrightarrow> of_nat (n - 1) = (of_nat n :: 'a::len word) - 1"
  by (cases n) simp_all

lemma on_conn_fields [simp]:
  "pconns (on_conn c f p) = pconns p" "pidle (on_conn c f p) = pidle p" "clients (on_conn c f p) = clients p"
  "made (on_conn c f p) = made p" "making (on_conn c f p) = making p" "mthread (on_conn c f p) = mthread p"
  "popts (on_conn c f p) = popts p" "nextConn (on_conn c f p) = nextConn p" "pshutdown (on_conn c f p) = pshutdown p"
  "currentCount (on_conn c f p) = currentCount p" "idleCount (on_conn c f p) = idleCount p"
  "inUseCount (on_conn c f p) = inUseCount p" "creatingCount (on_conn c f p) = creatingCount p"
  "broken (on_conn c f p) = broken p" "returned (on_conn c f p) = returned p"
  "pinitialized (on_conn c f p) = pinitialized p" "ppending (on_conn c f p) = ppending p" "pposted (on_conn c f p) = pposted p"
  "pstore (on_conn c f p) = (pstore p)(c := f (pstore p c))"
  by (simp_all add: on_conn_def)

lemma books_pop:
  "books L p \<Longrightarrow> pidle p = c # rest \<Longrightarrow> books (c # L) (p\<lparr>pidle := rest, idleCount := idleCount p - 1\<rparr>)"
  by (auto simp: books_def parts_def)

lemma books_discard:
  assumes bk: "books (c # L) p"
  shows "books L (pdiscard c p)"
proof -
  have d: "distinct (pconns p)" "c \<in> set (pconns p)" using books_distinct [OF bk] books_set [OF bk] by simp_all
  then have pos: "0 < length (pconns p)" by auto
  have "mset (removeAll c (pconns p)) = mset (parts p @ L)"
    using bk d by (simp add: mset_removeAll_distinct books_def)
  moreover have "currentCount p = of_nat (length (pconns p))" using bk by (simp add: books_def)
  then have "currentCount p - 1 = of_nat (length (removeAll c (pconns p)))"
    by (simp only: length_removeAll_distinct [OF d] of_nat_pred [OF pos])
  ultimately show ?thesis using bk by (auto simp: books_def parts_def pdiscard_def)
qed

lemma books_hand_out: "books (c # L) p \<Longrightarrow> books L (hand_out c now p)"
  by (auto simp: books_def parts_def hand_out_def)

lemma books_enter:
  assumes bk: "books L p" and e: "enter_pool now p = (c, p')"
  shows "books (c # L) p'"
proof -
  have c: "c = nextConn p" "c \<notin> set (pconns p)" using bk e by (auto simp: enter_pool_def books_def Let_def)
  then have "c \<notin> set (parts p @ L)" using books_set [OF bk] by auto
  then show ?thesis using bk e c
    by (auto simp: books_def parts_def enter_pool_def Let_def less_Suc_eq)
qed

text \<open>What an operation on the idle connections leaves alone.\<close>

definition steady :: "pool \<Rightarrow> pool \<Rightarrow> bool" where
  "steady p p' \<longleftrightarrow>
     making p' = making p \<and> made p' = made p \<and> mthread p' = mthread p \<and> popts p' = popts p \<and>
     pshutdown p' = pshutdown p \<and> pinitialized p' = pinitialized p \<and> length (pconns p') \<le> length (pconns p)"

lemma steady_trans: "steady p q \<Longrightarrow> steady q r \<Longrightarrow> steady p r"
  by (simp add: steady_def)

lemma steady_discard: "steady p (pdiscard c p)"
  by (simp add: steady_def pdiscard_def removeAll_filter_not_eq)

lemma try_idle_books:
  "books [] p \<Longrightarrow> pidle p = idle \<Longrightarrow> try_idle now idle p = (r, p') \<Longrightarrow>
   steady p p' \<and> (case r of None \<Rightarrow> books [] p' \<and> pidle p' = [] | Some c \<Rightarrow> books [c] p')"
proof (induction idle arbitrary: p)
  case Nil
  then show ?case by (auto simp: steady_def books_def parts_def)
next
  case (Cons c rest)
  let ?q = "p\<lparr>pidle := rest, idleCount := idleCount p - 1\<rparr>"
  have q: "books [c] ?q" using books_pop [OF Cons.prems(1,2)] .
  have s: "steady p ?q" by (simp add: steady_def)
  show ?case
  proof (cases "pcanReuse now ?q c")
    case True
    then show ?thesis using Cons.prems(3) q s by auto
  next
    case False
    then have r: "try_idle now rest (pdiscard c ?q) = (r, p')" using Cons.prems(3) by (simp add: Let_def)
    have "pidle (pdiscard c ?q) = rest" by (simp add: pdiscard_def)
    from Cons.IH [OF books_discard [OF q] this r] show ?thesis
      using steady_trans [OF steady_trans [OF s steady_discard]] by blast
  qed
qed

lemma tryAcquireIdle_books:
  assumes "books [] p" "tryAcquireIdle now p = (r, p')"
  shows "steady p p' \<and> (case r of None \<Rightarrow> books [] p' \<and> pidle p' = [] | Some c \<Rightarrow> books [c] p')"
  using try_idle_books [OF assms(1) refl] assms(2) by (simp add: tryAcquireIdle_def)

definition load :: "pool \<Rightarrow> nat" where
  "load p = length (pconns p) + making p + mt_making (mthread p)"

definition pool_inv :: "pool \<Rightarrow> bool" where
  "pool_inv p \<longleftrightarrow>
     books [] p \<and> \<not> pshutdown p \<and> minConnections (popts p) \<le> maxConnections (popts p) \<and>
     maxConnections (popts p) < 2 ^ 32 - 1 \<and> load p \<le> maxConnections (popts p) + 1 \<and>
     (mthread p = MChecked \<longrightarrow> load p \<le> maxConnections (popts p))"

lemma books_length: "books L p \<Longrightarrow> length (pconns p) = length (parts p) + length L"
proof -
  assume "books L p"
  then have "size (mset (pconns p)) = size (mset (parts p @ L))" by (simp only: books_def)
  then show ?thesis by simp
qed

lemma totalInFlight_eq:
  assumes bk: "books [] p" and small: "load p < 2 ^ 32"
  shows "totalInFlight p = length (pconns p) + making p + length (made p) + mt_creating (mthread p)"
proof -
  let ?k = "making p + length (made p) + mt_creating (mthread p)"
  have len: "length (made p) \<le> length (pconns p)" using books_length [OF bk] by (simp add: parts_def)
  have cr: "mt_creating (mthread p) \<le> 1" by (cases "mthread p") simp_all
  have k: "?k < 2 ^ 64" using len cr small by (simp add: load_def)
  have "creatingCount p = of_nat ?k" "currentCount p = of_nat (length (pconns p))" using bk by (simp_all only: books_def)
  then have "unat (creatingCount p) = ?k" "unat (currentCount p) = length (pconns p)"
    using k small by (simp_all only: unat_of_nat, simp_all add: load_def)
  moreover have "length (pconns p) + ?k < 2 ^ 64" using len cr small by (simp add: load_def)
  ultimately show ?thesis by (simp add: totalInFlight_def wrap64_def)
qed

lemma load_le_total:
  assumes "books [] p" "load p < 2 ^ 32"
  shows "load p \<le> totalInFlight p"
  unfolding totalInFlight_eq [OF assms] load_def by (cases "mthread p") simp_all

lemma pool_inv_small: "pool_inv p \<Longrightarrow> load p < 2 ^ 32"
  by (simp add: pool_inv_def)

lemma pool_inv_steady: "pool_inv p \<Longrightarrow> steady p p' \<Longrightarrow> books [] p' \<Longrightarrow> pool_inv p'"
  by (auto simp: pool_inv_def steady_def load_def)

lemma books_outputs [simp]:
  "books L (p\<lparr>pposted := x\<rparr>) = books L p" "books L (p\<lparr>ppending := y\<rparr>) = books L p"
  by (simp_all add: books_def parts_def)

lemma steady_outputs [simp]:
  "steady p (q\<lparr>pposted := x\<rparr>) = steady p q" "steady p (q\<lparr>ppending := y\<rparr>) = steady p q"
  "steady p (hand_out c now q) = steady p q"
  by (simp_all add: steady_def hand_out_def)

lemma pool_inv_acquire: "pool_inv p \<Longrightarrow> pool_inv (snd (pacquire cb now p))"
proof -
  assume inv: "pool_inv p"
  obtain r q where t: "tryAcquireIdle now p = (r, q)" by fastforce
  have tb: "steady p q \<and> (case r of None \<Rightarrow> books [] q \<and> pidle q = [] | Some c \<Rightarrow> books [c] q)"
    by (rule tryAcquireIdle_books [OF _ t]) (use inv in \<open>simp add: pool_inv_def\<close>)
  have "\<not> pshutdown p" using inv by (simp add: pool_inv_def)
  then have "steady p (snd (pacquire cb now p)) \<and> books [] (snd (pacquire cb now p))"
    using tb books_hand_out by (cases r) (simp_all add: pacquire_def t Let_def)
  then show ?thesis using pool_inv_steady [OF inv] by blast
qed

lemma pool_inv_sync: "pool_inv p \<Longrightarrow> pool_inv (snd (sync_section now p))"
proof -
  assume inv: "pool_inv p"
  obtain r q where t: "tryAcquireIdle now p = (r, q)" by fastforce
  have tb: "steady p q \<and> (case r of None \<Rightarrow> books [] q \<and> pidle q = [] | Some c \<Rightarrow> books [c] q)"
    by (rule tryAcquireIdle_books [OF _ t]) (use inv in \<open>simp add: pool_inv_def\<close>)
  have ns: "\<not> pshutdown p" using inv by (simp add: pool_inv_def)
  show ?thesis
  proof (cases r)
    case (Some c)
    then have "steady p (snd (sync_section now p)) \<and> books [] (snd (sync_section now p))"
      using tb ns books_hand_out by (simp add: sync_section_def t)
    then show ?thesis using pool_inv_steady [OF inv] by blast
  next
    case None
    then have q: "pool_inv q" "books [] q" using tb pool_inv_steady [OF inv] by simp_all
    show ?thesis
    proof (cases "totalInFlight q < maxConnections (popts q)")
      case True
      then have "load q < maxConnections (popts q)" using load_le_total [OF q(2) pool_inv_small [OF q(1)]] by simp
      then have "pool_inv (q\<lparr>creatingCount := creatingCount q + 1, making := making q + 1\<rparr>)"
        using q by (simp add: pool_inv_def load_def books_def parts_def)
      then show ?thesis using True None ns by (simp add: sync_section_def t)
    qed (use q None ns in \<open>simp add: sync_section_def t\<close>)
  qed
qed

lemma enter_fields:
  assumes "enter_pool now p = (c, q)"
  shows "length (pconns q) = length (pconns p) + 1" "making q = making p" "made q = made p" "mthread q = mthread p"
    "popts q = popts p" "pshutdown q = pshutdown p" "pidle q = pidle p" "idleCount q = idleCount p"
    "creatingCount q = creatingCount p"
  using assms by (auto simp: enter_pool_def Let_def)

lemma pool_inv_connected:
  assumes inv: "pool_inv p" and mk: "0 < making p"
  shows "pool_inv (sync_connected now p)"
proof -
  obtain c q where e: "enter_pool now p = (c, q)" by fastforce
  note f = enter_fields [OF e]
  have "books [c] q" using books_enter [OF _ e] inv by (simp add: pool_inv_def)
  moreover obtain n where n: "making q = Suc n" using mk unfolding f(2) [symmetric] gr0_conv_Suc by blast
  ultimately have "books [] (q\<lparr>making := making q - 1, made := made q @ [c]\<rparr>)"
    by (auto simp: books_def parts_def)
  then show ?thesis using inv f n by (auto simp: pool_inv_def sync_connected_def e load_def)
qed

lemma pool_inv_failed:
  assumes inv: "pool_inv p" and mk: "0 < making p"
  shows "pool_inv (sync_failed p)"
proof -
  obtain n where n: "making p = Suc n" using mk unfolding gr0_conv_Suc by blast
  then have "books [] (sync_failed p)" using inv by (simp add: pool_inv_def books_def parts_def sync_failed_def)
  then show ?thesis using inv n by (auto simp: pool_inv_def sync_failed_def load_def)
qed

lemma pool_inv_finish:
  assumes inv: "pool_inv p" and c: "c \<in> set (made p)"
  shows "pool_inv (sync_finish c now p)"
proof -
  let ?q = "p\<lparr>creatingCount := creatingCount p - 1, made := remove1 c (made p)\<rparr>"
  have bk: "books [] p" using inv by (simp add: pool_inv_def)
  have d: "distinct (made p)" "0 < length (made p)" using bk c by (auto simp: books_def parts_def)
  then obtain n where n: "length (made p) = Suc n" unfolding gr0_conv_Suc by blast
  have "books [c] ?q"
    using bk c d n by (auto simp: books_def parts_def length_remove1 distinct_remove1)
  then have "books [] (sync_finish c now p)" using books_hand_out by (simp add: sync_finish_def)
  then show ?thesis using inv by (simp add: pool_inv_def sync_finish_def hand_out_def load_def)
qed

lemma books_take_back:
  assumes bk: "books [] p" and c: "c \<in> set (clients p)"
  shows "books [c] (p\<lparr>clients := remove1 c (clients p), returned := returned p + 1\<rparr>)"
proof -
  have d: "distinct (clients p)" "0 < length (clients p)" using bk c by (auto simp: books_def parts_def)
  then obtain n where n: "length (clients p) = Suc n" unfolding gr0_conv_Suc by blast
  then show ?thesis using bk c d
    by (auto simp: books_def parts_def distinct_remove1 length_remove1 dest: notin_set_remove1)
qed

lemma books_broken: "books (c # L) p \<Longrightarrow> books L (p\<lparr>broken := broken p @ [c]\<rparr>)"
  by (auto simp: books_def parts_def)

lemma books_idle:
  "books (c # L) p \<Longrightarrow>
   books L ((on_conn c (\<lambda>x. x\<lparr>pc_state := PIdle, pc_lastUsed := now\<rparr>) p)\<lparr>pidle := pidle p @ [c], idleCount := idleCount p + 1\<rparr>)"
  by (auto simp: books_def parts_def)

lemma pool_inv_release:
  assumes inv: "pool_inv p" and c: "c \<in> set (clients p)"
  shows "pool_inv (snd (release_locked reusable (pc_state (pstore p c) = PInUse) c now p))"
proof -
  let ?q = "p\<lparr>clients := remove1 c (clients p), returned := returned p + 1\<rparr>"
  let ?r = "snd (release_locked reusable (pc_state (pstore p c) = PInUse) c now p)"
  have bk: "books [] p" and ns: "\<not> pshutdown p" using inv by (simp_all add: pool_inv_def)
  have use: "pc_state (pstore p c) = PInUse" using bk c by (simp add: books_def)
  have q: "books [c] ?q" by (rule books_take_back [OF bk c])
  consider (broken) "\<not> reusable" | (pending) cb rest where "reusable" "ppending p = cb # rest"
    | (idle) "reusable" "ppending p = []" by (cases "ppending p") blast+
  then have "books [] ?r \<and> steady p ?r"
  proof cases
    case broken
    then have "?r = ?q\<lparr>broken := broken ?q @ [c]\<rparr>" using use by (simp add: release_locked_def Let_def)
    then show ?thesis using books_broken [OF q] by (simp add: steady_def)
  next
    case pending
    let ?h = "hand_out c now ?q"
    have r: "?r = ?h\<lparr>inUseCount := inUseCount ?h - 1, returned := returned ?h - 1,
        ppending := rest, pposted := pposted p @ [(cb, Some c)]\<rparr>"
      using ns use pending by (simp add: release_locked_def Let_def hand_out_def on_conn_def)
    have "books [] (?h\<lparr>inUseCount := inUseCount ?h - 1, returned := returned ?h - 1\<rparr>)"
      using books_hand_out [OF q, of now] by (simp add: books_def parts_def hand_out_def)
    then show ?thesis unfolding r by (simp add: steady_def hand_out_def)
  next
    case idle
    then have r: "?r = (on_conn c (\<lambda>x. x\<lparr>pc_state := PIdle, pc_lastUsed := now\<rparr>) ?q)
        \<lparr>pidle := pidle ?q @ [c], idleCount := idleCount ?q + 1\<rparr>"
      using ns use by (simp add: release_locked_def Let_def on_conn_def)
    show ?thesis unfolding r using books_idle [OF q, of now] by (simp add: steady_def)
  qed
  then show ?thesis using pool_inv_steady [OF inv] by blast
qed

lemma pool_inv_settle:
  assumes inv: "pool_inv p" and r: "0 < returned p"
  shows "pool_inv (release_settle p)"
proof -
  obtain n where "returned p = Suc n" using r unfolding gr0_conv_Suc by blast
  then have "books [] (release_settle p)" using inv by (simp add: pool_inv_def books_def parts_def release_settle_def)
  then show ?thesis using pool_inv_steady [OF inv, of "release_settle p"] by (simp add: steady_def release_settle_def)
qed

lemma pool_inv_closing:
  assumes inv: "pool_inv p" and c: "c \<in> set (broken p)"
  shows "pool_inv (release_close c p)"
proof -
  let ?q = "p\<lparr>broken := remove1 c (broken p)\<rparr>"
  have bk: "books [] p" using inv by (simp add: pool_inv_def)
  then have "distinct (broken p)" by (simp add: books_def parts_def)
  then have "books [c] ?q" using bk c by (auto simp: books_def parts_def distinct_remove1)
  then have "books [] (release_close c p)" unfolding release_close_def by (rule books_discard)
  moreover have "steady p (release_close c p)"
    unfolding release_close_def using steady_trans [OF _ steady_discard, of p ?q] by (simp add: steady_def)
  ultimately show ?thesis using pool_inv_steady [OF inv] by blast
qed

lemma cleanup_books:
  "books [] (p\<lparr>pidle := retained @ idle\<rparr>) \<Longrightarrow> cleanup_loop now idle seen retained p = (ret, p') \<Longrightarrow>
   books [] (p'\<lparr>pidle := ret\<rparr>) \<and> steady p p'"
proof (induction idle arbitrary: p seen retained)
  case Nil
  then show ?case by (simp add: steady_def)
next
  case (Cons c rest)
  let ?p = "p\<lparr>pidle := retained @ c # rest\<rparr>"
  let ?q = "(on_conn c pc_close p)\<lparr>idleCount := idleCount p - 1, pconns := removeAll c (pconns p), currentCount := currentCount p - 1\<rparr>"
  show ?case
  proof (cases "\<not> seen + 1 \<le> minConnections (popts p) \<and>
      (\<not> pcanReuse now p c \<or> now - pc_lastUsed (pstore p c) > in_ticks (po_idleTimeout (popts p)))")
    case True
    have pop: "books [c] (p\<lparr>pidle := retained @ rest, idleCount := idleCount p - 1\<rparr>)"
      using Cons.prems(1) by (auto simp: books_def parts_def)
    have "books [] (pdiscard c (p\<lparr>pidle := retained @ rest, idleCount := idleCount p - 1\<rparr>))" by (rule books_discard [OF pop])
    moreover have "c \<notin> set (clients p)" using pop by (simp add: books_def parts_def)
    ultimately have "books [] (?q\<lparr>pidle := retained @ rest\<rparr>)"
      by (auto simp: books_def parts_def pdiscard_def split: if_splits)
    moreover have "cleanup_loop now rest (seen + 1) retained ?q = (ret, p')"
      using Cons.prems(2) True by (simp add: Let_def)
    ultimately have "books [] (p'\<lparr>pidle := ret\<rparr>) \<and> steady ?q p'" by (rule Cons.IH)
    moreover have "steady p ?q" by (simp add: steady_def removeAll_filter_not_eq)
    ultimately show ?thesis using steady_trans by blast
  next
    case False
    then have "cleanup_loop now rest (seen + 1) (retained @ [c]) p = (ret, p')" using Cons.prems(2) by (auto simp: Let_def)
    then show ?thesis using Cons.IH [where p = p and retained = "retained @ [c]"] Cons.prems(1) by simp
  qed
qed

lemma pool_inv_cleanup: "pool_inv p \<Longrightarrow> pool_inv (cleanupIdleConnections now p)"
proof -
  assume inv: "pool_inv p"
  obtain ret q where l: "cleanup_loop now (pidle p) 0 [] p = (ret, q)" by fastforce
  have "books [] (p\<lparr>pidle := [] @ pidle p\<rparr>)" using inv by (simp add: pool_inv_def)
  from cleanup_books [OF this l] have "books [] (q\<lparr>pidle := ret\<rparr>)" "steady p (q\<lparr>pidle := ret\<rparr>)" by (simp_all add: steady_def)
  then show ?thesis using pool_inv_steady [OF inv] by (simp add: cleanupIdleConnections_def l)
qed

lemma pool_inv_ensure:
  assumes inv: "pool_inv p"
  shows "pool_inv (ensure_step ok now p)"
proof (cases "mthread p")
  case MWaiting
  show ?thesis
  proof (cases "totalInFlight p < minConnections (popts p)")
    case True
    have "load p \<le> totalInFlight p" by (rule load_le_total) (use inv in \<open>simp_all add: pool_inv_def\<close>)
    then have "load p \<le> maxConnections (popts p)" using True inv by (simp add: pool_inv_def)
    then have "pool_inv (p\<lparr>mthread := MChecked\<rparr>)" using inv MWaiting by (simp add: pool_inv_def load_def books_def parts_def)
    then show ?thesis using inv MWaiting True by (simp add: ensure_step_def)
  qed (simp add: ensure_step_def MWaiting inv)
next
  case MChecked
  then show ?thesis using inv by (simp add: ensure_step_def pool_inv_def load_def books_def parts_def)
next
  case MMaking
  obtain c q where e: "enter_pool now p = (c, q)" by fastforce
  note f = enter_fields [OF e]
  have "books [c] q" using books_enter [OF _ e] inv by (simp add: pool_inv_def)
  then have "books [] (q\<lparr>mthread := MMade c\<rparr>)" using MMaking f by (auto simp: books_def parts_def)
  then have "pool_inv (q\<lparr>mthread := MMade c\<rparr>)" using inv MMaking f by (simp add: pool_inv_def load_def)
  moreover have "pool_inv (p\<lparr>creatingCount := creatingCount p - 1, mthread := MWaiting\<rparr>)"
    using inv MMaking by (simp add: pool_inv_def load_def books_def parts_def)
  ultimately show ?thesis by (simp add: ensure_step_def MMaking e)
next
  case (MMade c)
  then show ?thesis using inv by (simp add: ensure_step_def pool_inv_def load_def books_def parts_def)
next
  case (MPushing c)
  then have "books [] (ensure_step ok now p)" using inv by (auto simp: ensure_step_def pool_inv_def books_def parts_def)
  then show ?thesis using inv MPushing by (simp add: ensure_step_def pool_inv_def load_def)
qed

lemma pool_inv_disconnect: "pool_inv p \<Longrightarrow> pool_inv (on_conn c (\<lambda>x. x\<lparr>pc_connected := False\<rparr>) p)"
  by (simp add: pool_inv_def load_def books_def parts_def)

lemma open_initial_inv:
  assumes "books [] p" "mthread p = MWaiting" "made p = []"
  shows "books [] (open_initial oks now n p) \<and> mthread (open_initial oks now n p) = MWaiting \<and>
    length (pconns (open_initial oks now n p)) \<le> length (pconns p) + n \<and> making (open_initial oks now n p) = making p \<and>
    popts (open_initial oks now n p) = popts p \<and> pshutdown (open_initial oks now n p) = pshutdown p"
  using assms
proof (induction oks now n p rule: open_initial.induct)
  case (3 ok oks now n p)
  obtain c q where e: "enter_pool now p = (c, q)" by fastforce
  let ?q = "q\<lparr>pidle := pidle q @ [c], idleCount := idleCount q + 1\<rparr>"
  note f = enter_fields [OF e]
  have "books [c] q" by (rule books_enter [OF 3(2) e])
  then have "books [] ?q" by (auto simp: books_def parts_def)
  then show ?case using 3 f by (cases ok) (simp_all add: e)
qed simp_all

lemma pool_inv_init: "pool_init p \<Longrightarrow> pool_inv p"
proof -
  assume "pool_init p"
  then obtain opts oks now where o: "minConnections opts \<le> maxConnections opts" "maxConnections opts < 2 ^ 32 - 1"
    and p: "p = snd (pinitialize oks now (pool_new opts))" by (auto simp: pool_init_def)
  let ?p = "(pool_new opts)\<lparr>pinitialized := True, pshutdown := False\<rparr>"
  have b: "books [] ?p" "mthread ?p = MWaiting" "made ?p = []" by (simp_all add: books_def parts_def pool_new_def)
  have "p = open_initial oks now (minConnections opts) ?p" by (simp add: p pinitialize_def pool_new_def)
  then show ?thesis using open_initial_inv [OF b, of oks now "minConnections opts"] o
    by (simp add: pool_inv_def load_def pool_new_def)
qed

lemma pool_step_inv: "pool_step p p' \<Longrightarrow> pool_inv p \<Longrightarrow> pool_inv p'"
  by (induction rule: pool_step.induct)
    (simp_all add: pool_inv_acquire pool_inv_sync pool_inv_connected pool_inv_failed pool_inv_finish pool_inv_release
      pool_inv_settle pool_inv_closing      pool_inv_cleanup pool_inv_ensure pool_inv_disconnect)

interpretation pools: invariant_system pool_init pool_step pool_inv
  by unfold_locales (simp_all add: pool_inv_init pool_step_inv)

subsection \<open>What the pool guarantees\<close>

abbreviation pool_reachable :: "pool \<Rightarrow> bool" where
  "pool_reachable \<equiv> reach pool_init pool_step"


text \<open>The maximum is not exact: the maintenance thread checks the number of connections without the mutex and
  counts its own attempt afterwards, so with \<open>acquireSync\<close> in between the pool ends up with one connection
  more than its maximum.\<close>

theorem pool_overshoot:
  "\<exists>p. pool_reachable p \<and> maxConnections (popts p) = 1 \<and> length (pconns p) = 2"
proof -
  let ?o = "\<lparr>minConnections = 1, maxConnections = 1, po_idleTimeout = 30000\<rparr>"
  let ?p0 = "snd (pinitialize [False] 0 (pool_new ?o))"
  let ?p1 = "ensure_step True 0 ?p0"
  let ?p2 = "snd (sync_section 0 ?p1)"
  let ?p3 = "ensure_step True 0 ?p2"
  let ?p4 = "ensure_step True 0 ?p3"
  have "pool_reachable ?p0" by (rule reach_init) (unfold pool_init_def, intro exI conjI refl, simp_all)
  then have "pool_reachable ?p1" by (rule reach_step) (rule pool_step.ensure)
  then have "pool_reachable ?p2" by (rule reach_step) (rule pool_step.sync)
  then have "pool_reachable ?p3" by (rule reach_step) (rule pool_step.ensure)
  then have r4: "pool_reachable ?p4" by (rule reach_step) (rule pool_step.ensure)
  note ev = pinitialize_def pool_new_def ensure_step_def sync_section_def tryAcquireIdle_def totalInFlight_def wrap64_def enter_pool_def Let_def
  have "0 < making ?p4" by (simp add: ev)
  from reach_step [OF r4 pool_step.connected [OF this, of 0]] have "pool_reachable (sync_connected 0 ?p4)" .
  moreover have "length (pconns (sync_connected 0 ?p4)) = 2" "maxConnections (popts (sync_connected 0 ?p4)) = 1"
    by (simp_all add: ev sync_connected_def)
  ultimately show ?thesis by blast
qed

text \<open>A released connection that can be used again goes to the caller that has waited longest. One that cannot is
  closed and leaves the pool, but no waiting caller is served then, although there is room for a new connection.\<close>

theorem release_and_pending:
  assumes "pool_reachable p" "c \<in> set (clients p)" "ppending p = callback # rest"
  shows "(pcanReuse now p c \<longrightarrow>
      pposted (prelease c now p) = pposted p @ [(callback, Some c)] \<and> ppending (prelease c now p) = rest \<and>
      c \<in> set (clients (prelease c now p)) \<and> inUseCount (prelease c now p) = inUseCount p) \<and>
    (\<not> pcanReuse now p c \<longrightarrow>
      pposted (prelease c now p) = pposted p \<and> ppending (prelease c now p) = callback # rest \<and>
      c \<notin> set (pconns (prelease c now p)) \<and> length (pconns (prelease c now p)) + 1 = length (pconns p) \<and>
      pc_state (pstore (prelease c now p) c) = PClosed)"
proof -
  have inv: "pool_inv p" using assms(1) by (rule pools.reach_good)
  then have bk: "books [] p" and ns: "\<not> pshutdown p" by (simp_all add: pool_inv_def)
  have c: "c \<in> set (pconns p)" using books_set [OF bk] assms(2) by (simp add: parts_def)
  have "0 < length (pconns p)" using c by auto
  then have "length (removeAll c (pconns p)) + 1 = length (pconns p)"
    using length_removeAll_distinct [OF books_distinct [OF bk] c] by simp
  moreover have "pc_state (pstore p c) = PInUse" using bk assms(2) by (simp add: books_def)
  ultimately show ?thesis using ns assms(3) by (simp add: prelease_def release_locked_def release_settle_def release_close_def Let_def pdiscard_def pc_close_def)
qed


subsection \<open>A pool with one connection\<close>

definition one_opts :: pool_options where
  "one_opts = \<lparr>minConnections = 1, maxConnections = 1, po_idleTimeout = 30000\<rparr>"

definition one_used :: pool where
  "one_used = snd (pacquire 7 5 (snd (pinitialize [True] 0 (pool_new one_opts))))"

definition one_waiting :: pool where
  "one_waiting = snd (pacquire 8 6 one_used)"

lemmas one_eval = one_opts_def pinitialize_def pool_new_def enter_pool_def pacquire_def tryAcquireIdle_def pcanReuse_def
  isValid_def in_ticks_def hand_out_def on_conn_def totalInFlight_def wrap64_def Let_def

lemma one_reachable: "pool_reachable one_used" "pool_reachable one_waiting"
proof -
  have "pool_reachable (snd (pinitialize [True] 0 (pool_new one_opts)))"
    by (rule reach_init) (unfold pool_init_def, intro exI conjI refl, simp_all add: one_opts_def)
  then show u: "pool_reachable one_used" unfolding one_used_def by (rule reach_step) (rule pool_step.acquire)
  show "pool_reachable one_waiting" unfolding one_waiting_def by (rule reach_step [OF u pool_step.acquire])
qed

lemma one_facts:
  "pconns one_used = [0]" "clients one_used = [0]" "pidle one_used = []" "returned one_used = 0" "clients one_waiting = [0]" "ppending one_waiting = [8]"
  by (simp_all add: one_waiting_def one_used_def one_eval)


theorem release_and_pending_witness:
  "pposted (prelease 0 9 one_waiting) = [(7, Some 0), (8, Some 0)] \<and> ppending (prelease 0 9 one_waiting) = []"
proof -
  have "pcanReuse 9 one_waiting 0" "pposted one_waiting = [(7, Some 0)]" by (simp_all add: one_waiting_def one_used_def one_eval)
  then show ?thesis using release_and_pending [OF one_reachable(2), of 0 8 "[]" 9] by (simp add: one_facts)
qed


end
