(* ===== verification/Http_Server.thy ===== *)
theory Http_Server
  imports Http_Messages
begin

text \<open>
  \<open>src/src/HttpServer.cpp\<close>: extracting requests from the bytes of a connection, choosing and running the
  handler, serving static files, completing responses, and the loop that ties these together.

  The parser is the one of theory \<open>Http_Parser\<close>. Request handlers are functions from a request and a prepared
  response to the response. The file system, the dates that \<open>strftime\<close> writes and whether \<open>TcpServer\<close>
  accepts a send are arguments; what the server asks of \<open>TcpServer\<close> is the list \<open>tcp_requests\<close>. The
  request timer of a client is whether it is armed, and its expiry the operation \<open>requestTimedOut\<close>. The error
  callback is not modelled, nor are the settings that are only passed on to \<open>TcpServer\<close>. Handlers and the
  file system queries \<open>exists\<close> and \<open>is_regular_file\<close> return; their exceptions are not modelled.

  The properties are in \<open>Http_Static_Files\<close> (ranges, files, cache and routing) and in
  \<open>Http_Server_Runs\<close> (extraction, the request loop and its interleaving with arriving data).
\<close>

subsection \<open>Text helpers\<close>

definition cSlash :: char where "cSlash = CHR ''/''"
definition cDash :: char where "cDash = CHR ''-''"

definition toLowerAscii :: "char \<Rightarrow> char" where
  "toLowerAscii c = (if 65 \<le> code_of c \<and> code_of c \<le> 90 then char_of (code_of c - 65 + 97) else c)"

definition trimAsciiWhitespace :: "string \<Rightarrow> string" where
  "trimAsciiWhitespace input = rev (dropWhile isspace (rev (dropWhile isspace input)))"

definition equalsAsciiIgnoreCase :: "string \<Rightarrow> string \<Rightarrow> bool" where
  "equalsAsciiIgnoreCase left right \<longleftrightarrow>
     length left = length right \<and> list_all2 (\<lambda>x y. toLowerAscii x = toLowerAscii y) left right"

text \<open>The scan of a comma-separated value, on the part from \<open>offset\<close> on.\<close>

function srv_containsToken :: "string \<Rightarrow> string \<Rightarrow> bool" where
  "srv_containsToken value token =
     (case find_char cComma value of
        None \<Rightarrow> equalsAsciiIgnoreCase (trimAsciiWhitespace value) token
      | Some separator \<Rightarrow>
          equalsAsciiIgnoreCase (trimAsciiWhitespace (take separator value)) token \<or>
          srv_containsToken (drop (separator + 1) value) token)"
  by pat_completeness auto
termination
  by (relation "measure (\<lambda>(v, t). length v)") (auto dest: find_pred_less)

declare srv_containsToken.simps [simp del]

fun headerValueCaseInsensitiveView :: "headers \<Rightarrow> string \<Rightarrow> string" where
  "headerValueCaseInsensitiveView [] name = []"
| "headerValueCaseInsensitiveView ((key, value) # rest) name =
     (if caseInsensitiveCompare key name then value else headerValueCaseInsensitiveView rest name)"

function drop_slashes :: "string \<Rightarrow> string" where
  "drop_slashes normalized =
     (if length normalized > 1 \<and> last normalized = cSlash then drop_slashes (butlast normalized) else normalized)"
  by pat_completeness auto
termination
  by (relation "measure length") auto

declare drop_slashes.simps [simp del]

definition normalizePath :: "string \<Rightarrow> string" where
  "normalizePath path =
     (if path = ''*'' then ''*''
      else if path = [] then ''/''
      else drop_slashes (if hd path \<noteq> cSlash then cSlash # path else path))"

definition normalizeRequestPath :: "string \<Rightarrow> string" where
  "normalizeRequestPath path =
     (if path = ''*'' then ''*''
      else
        let path =
              (case find_str ''://'' path of
                 None \<Rightarrow> path
               | Some schemePos \<Rightarrow>
                   (case find_char_from cSlash (schemePos + 3) path of
                      None \<Rightarrow> ''/''
                    | Some pathPos \<Rightarrow> drop pathPos path))
        in if path = [] then ''/''
           else drop_slashes (if hd path \<noteq> cSlash then cSlash # path else path))"

text \<open>\<open>std::stoull\<close>: white space, a sign, for base 16 an optional prefix, then as many digits as there are.
  A minus sign negates modulo \<open>2\<^sup>6\<^sup>4\<close>, and what follows the digits is ignored. \<^term>\<open>None\<close> is an
  exception: no digits, or a value out of range.\<close>

definition digit_value :: "nat \<Rightarrow> char \<Rightarrow> nat option" where
  "digit_value base c =
     (case hexDigit c of None \<Rightarrow> None | Some d \<Rightarrow> if d < base then Some d else None)"

fun digits_value :: "nat \<Rightarrow> nat \<Rightarrow> string \<Rightarrow> nat" where
  "digits_value base r [] = r"
| "digits_value base r (c # cs) =
     (case digit_value base c of None \<Rightarrow> r | Some d \<Rightarrow> digits_value base (r * base + d) cs)"

definition stoull :: "nat \<Rightarrow> string \<Rightarrow> nat option" where
  "stoull base text =
     (let s = dropWhile isspace text;
          negative = (take 1 s = ''-'');
          s = (if take 1 s = ''-'' \<or> take 1 s = ''+'' then tl s else s);
          s = (if base = 16 \<and> length s > 2 \<and> (take 2 s = ''0x'' \<or> take 2 s = ''0X'') \<and> digit_value 16 (s ! 2) \<noteq> None
               then drop 2 s else s)
      in if s = [] \<or> digit_value base (hd s) = None then None
         else
           let v = digits_value base 0 s
           in if v > size_max then None else Some (if negative then wrap64 (2 ^ 64 - v) else v))"

subsection \<open>Requests and responses\<close>

datatype HttpMethod = GET | POST | PUT | DELETE_METHOD | HEAD | OPTIONS_METHOD | PATCH

record Address =
  addr_ip :: string
  addr_port :: "16 word"

record HttpRequest =
  hr_method :: HttpMethod
  hr_methodName :: string
  hr_target :: string
  hr_path :: string
  hr_queryString :: string
  hr_version :: string
  hr_queryParams :: "(string, string) omap"
  hr_headers :: headers
  hr_body :: string
  hr_clientAddress :: Address

record HttpResponse =
  re_statusCode :: int
  re_statusMessage :: string
  re_headers :: headers
  re_body :: string
  hasFileBody :: bool
  filePath :: string
  fileOffset :: nat
  fileLength :: nat

definition HttpRequest_init :: HttpRequest where
  "HttpRequest_init =
     \<lparr>hr_method = GET, hr_methodName = ''GET'', hr_target = [], hr_path = [], hr_queryString = [],
      hr_version = ''HTTP/1.1'', hr_queryParams = [], hr_headers = [], hr_body = [],
      hr_clientAddress = \<lparr>addr_ip = [], addr_port = 0\<rparr>\<rparr>"

definition HttpResponse_init :: HttpResponse where
  "HttpResponse_init =
     \<lparr>re_statusCode = 200, re_statusMessage = ''OK'', re_headers = [], re_body = [],
      hasFileBody = False, filePath = [], fileOffset = 0, fileLength = 0\<rparr>"

definition tryStringToMethod :: "string \<Rightarrow> HttpMethod option" where
  "tryStringToMethod method =
     (if equalsAsciiIgnoreCase method ''GET'' then Some GET
      else if equalsAsciiIgnoreCase method ''POST'' then Some POST
      else if equalsAsciiIgnoreCase method ''PUT'' then Some PUT
      else if equalsAsciiIgnoreCase method ''DELETE'' then Some DELETE_METHOD
      else if equalsAsciiIgnoreCase method ''HEAD'' then Some HEAD
      else if equalsAsciiIgnoreCase method ''OPTIONS'' then Some OPTIONS_METHOD
      else if equalsAsciiIgnoreCase method ''PATCH'' then Some PATCH
      else None)"

definition shouldKeepAlive :: "HttpRequestView \<Rightarrow> bool" where
  "shouldKeepAlive requestView =
     (let http11 = (rq_version requestView = ''HTTP/1.1'')
      in case request_getHeader requestView ''Connection'' of
           None \<Rightarrow> http11
         | Some connection \<Rightarrow>
             if srv_containsToken connection ''close'' then False
             else if srv_containsToken connection ''keep-alive'' then True
             else http11)"

definition kTextPlain :: string where "kTextPlain = ''text/plain; charset=utf-8''"

definition makeErrorResponse :: "int \<Rightarrow> string \<Rightarrow> string \<Rightarrow> HttpResponse" where
  "makeErrorResponse statusCode statusMessage body =
     HttpResponse_init\<lparr>re_statusCode := statusCode, re_statusMessage := statusMessage, re_body := body,
       re_headers := omap_put ''Content-Type'' kTextPlain []\<rparr>"

subsection \<open>Extracting a request\<close>

record ParsedRequest =
  pr_request :: HttpRequest
  consumedBytes :: nat
  pr_keepAlive :: bool
  immediateResponse :: "HttpResponse option"

definition makeErrorRequest :: "nat \<Rightarrow> int \<Rightarrow> string \<Rightarrow> string \<Rightarrow> ParsedRequest" where
  "makeErrorRequest consumed statusCode statusMessage body =
     \<lparr>pr_request = HttpRequest_init\<lparr>hr_method := GET, hr_path := ''/'', hr_version := ''HTTP/1.1'', hr_headers := [], hr_body := body\<rparr>,
      consumedBytes = consumed, pr_keepAlive = False,
      immediateResponse = Some (makeErrorResponse statusCode statusMessage body)\<rparr>"

datatype server_exception = out_of_range | body_exception http_exception

text \<open>One pass of the loop of \<open>getChunkedMessageSize\<close>: on the left it returns, where
  \<^term>\<open>Inl out_of_range\<close> is the exception of \<open>substr\<close>, \<^term>\<open>Inr None\<close> is
  \<open>std::nullopt\<close> and zero stands for a malformed body; on the right it goes on at another offset.\<close>

definition chunk_step :: "string \<Rightarrow> nat \<Rightarrow> (server_exception + nat option) + nat" where
  "chunk_step data offset =
     (case find_str_from CRLF offset data of
        None \<Rightarrow> Inl (Inr None)
      | Some lineEnd \<Rightarrow>
          (case stoull 16 (substr data offset (lineEnd - offset)) of
             None \<Rightarrow> Inl (Inr (Some 0))
           | Some chunkSize \<Rightarrow>
               let offset = lineEnd + 2
               in if chunkSize = 0 then
                    Inl (Inr (if length data < offset + 2 then None
                              else if substr data offset 2 \<noteq> CRLF then Some 0
                              else Some (offset + 2)))
                  else if length data < wrap64 (offset + chunkSize + 2) then Inl (Inr None)
                  else if length data < wrap64 (offset + chunkSize) then Inl (Inl out_of_range)
                  else if substr data (wrap64 (offset + chunkSize)) 2 \<noteq> CRLF then Inl (Inr (Some 0))
                  else Inr (wrap64 (offset + chunkSize + 2))))"

text \<open>The loop; \<^term>\<open>None\<close> is a loop that does not end.\<close>

partial_function (option) chunkedSize_loop :: "string \<Rightarrow> nat \<Rightarrow> (server_exception + nat option) option" where
  "chunkedSize_loop data offset =
     (case chunk_step data offset of Inl result \<Rightarrow> Some result | Inr offset \<Rightarrow> chunkedSize_loop data offset)"

definition getChunkedMessageSize :: "string \<Rightarrow> (server_exception + nat option) option" where
  "getChunkedMessageSize data = chunkedSize_loop data 0"

definition isChunked :: "HttpRequestView \<Rightarrow> bool" where
  "isChunked view =
     (case request_getHeader view ''Transfer-Encoding'' of
        None \<Rightarrow> False
      | Some transferEncoding \<Rightarrow> srv_containsToken transferEncoding ''chunked'')"

definition srv_buildRequest :: "HttpRequestView \<Rightarrow> HttpMethod \<Rightarrow> Address \<Rightarrow> http_exception + HttpRequest" where
  "srv_buildRequest view method clientAddress =
     (let request = HttpRequest_init
            \<lparr>hr_method := method, hr_methodName := rq_method view, hr_target := rq_target view,
             hr_path := normalizeRequestPath (rq_uri view), hr_queryString := rq_queryString view,
             hr_version := rq_version view, hr_clientAddress := clientAddress,
             hr_queryParams := foldl (\<lambda>m (key, value). omap_put (urlDecode key) (urlDecode value) m) [] (rq_queryParams view),
             hr_headers := foldl (\<lambda>m (key, value). omap_put key value m) [] (rq_headers view)\<rparr>
      in if isChunked view then
           (case parseChunked (rq_body view) of
              Inl e \<Rightarrow> Inl e
            | Inr (ok, decoded) \<Rightarrow> Inr (request\<lparr>hr_body := (if ok then decoded else rq_body view)\<rparr>))
         else Inr (request\<lparr>hr_body := rq_body view\<rparr>))"

text \<open>How far the message reaches, from the framing headers: the code returns early, or goes on with
  \<open>totalBytes\<close>.\<close>

datatype extent = UpTo nat | Return "ParsedRequest option" | Throw server_exception

definition messageExtent :: "HttpRequestView \<Rightarrow> nat \<Rightarrow> string \<Rightarrow> extent option" where
  "messageExtent view headerBytes raw =
     (if isChunked view then
        (case getChunkedMessageSize (drop headerBytes raw) of
           None \<Rightarrow> None
         | Some (Inl e) \<Rightarrow> Some (Throw e)
         | Some (Inr None) \<Rightarrow> Some (Return None)
         | Some (Inr (Some chunkedSize)) \<Rightarrow>
             Some (if chunkedSize = 0
                   then Return (Some (makeErrorRequest (length raw) 400 ''Bad Request'' ''Malformed chunked body''))
                   else UpTo (wrap64 (headerBytes + chunkedSize))))
      else
        (case request_getHeader view ''Content-Length'' of
           None \<Rightarrow> Some (UpTo headerBytes)
         | Some contentLength \<Rightarrow>
             (case stoull 10 contentLength of
                None \<Rightarrow> Some (Return (Some (makeErrorRequest (length raw) 400 ''Bad Request'' ''Invalid Content-Length'')))
              | Some len \<Rightarrow>
                  let totalBytes = wrap64 (headerBytes + len)
                  in Some (if length raw < totalBytes then Return None else UpTo totalBytes))))"

definition finishRequest ::
    "HttpRequestView \<Rightarrow> Address \<Rightarrow> nat \<Rightarrow> nat \<Rightarrow> string \<Rightarrow> server_exception + ParsedRequest option" where
  "finishRequest view clientAddress headerBytes totalBytes raw =
     (if length raw < totalBytes then Inr None
      else
        let view = view\<lparr>rq_body := substr raw headerBytes (wrap64 (totalBytes + 2 ^ 64 - headerBytes))\<rparr>
        in case tryStringToMethod (rq_method view) of
             None \<Rightarrow> Inr (Some (makeErrorRequest totalBytes 501 ''Not Implemented'' ''Unsupported HTTP method''))
           | Some parsedMethod \<Rightarrow>
               (case srv_buildRequest view parsedMethod clientAddress of
                  Inl e \<Rightarrow> Inl (body_exception e)
                | Inr request \<Rightarrow>
                    Inr (Some \<lparr>pr_request = request, consumedBytes = totalBytes,
                               pr_keepAlive = shouldKeepAlive view, immediateResponse = None\<rparr>)))"

definition tryExtractRequest :: "Address \<Rightarrow> string \<Rightarrow> (server_exception + ParsedRequest option) option" where
  "tryExtractRequest clientAddress raw =
     (case find_str (CRLF @ CRLF) raw of
        None \<Rightarrow> Some (Inr None)
      | Some headerEnd \<Rightarrow>
          let headerBytes = headerEnd + 4
          in case parseRequestHead (substr raw 0 headerBytes) of
               None \<Rightarrow> Some (Inr (Some (makeErrorRequest (length raw) 400 ''Bad Request'' ''Invalid HTTP request'')))
             | Some view \<Rightarrow>
                 (case messageExtent view headerBytes raw of
                    None \<Rightarrow> None
                  | Some (Throw e) \<Rightarrow> Some (Inl e)
                  | Some (Return r) \<Rightarrow> Some (Inr r)
                  | Some (UpTo totalBytes) \<Rightarrow> Some (finishRequest view clientAddress headerBytes totalBytes raw)))"

subsection \<open>Static files\<close>

text \<open>What the server asks of the operating system: \<open>weakly_canonical\<close> (the components of the path, or an
  error), \<open>exists\<close>, \<open>is_regular_file\<close>, \<open>last_write_time\<close>, \<open>file_size\<close>, the contents of a
  file that can be opened, and the time of a file as the date that \<open>formatFileTime\<close> writes.\<close>

type_synonym path = "string list"

record fsys =
  fs_canonical :: "string \<Rightarrow> path option"
  fs_exists :: "path \<Rightarrow> bool"
  fs_regular :: "path \<Rightarrow> bool"
  fs_time :: "path \<Rightarrow> int option"
  fs_size :: "path \<Rightarrow> nat option"
  fs_data :: "path \<Rightarrow> string option"
  fs_date :: "int \<Rightarrow> string"

text \<open>\<open>operator/\<close>, \<open>string\<close> and \<open>extension\<close> of \<open>std::filesystem::path\<close>.\<close>

definition path_append :: "string \<Rightarrow> string \<Rightarrow> string" where
  "path_append p q =
     (if q \<noteq> [] \<and> hd q = cSlash then q
      else if p = [] \<or> last p = cSlash then p @ q
      else p @ [cSlash] @ q)"

definition path_string :: "path \<Rightarrow> string" where
  "path_string p = foldl path_append [] p"

definition path_extension :: "path \<Rightarrow> string" where
  "path_extension p =
     (let name = (if p = [] then [] else last p);
          stem = rev (dropWhile (\<lambda>c. c \<noteq> cDot) (rev name))
      in if name = ''.'' \<or> name = ''..'' \<or> length stem \<le> 1 then [] else cDot # drop (length stem) name)"

definition contentTypes :: "(string \<times> string) list" where
  "contentTypes =
     [(''.avif'', ''image/avif''), (''.css'', ''text/css''), (''.csv'', ''text/csv''), (''.ico'', ''image/x-icon''),
      (''.gif'', ''image/gif''), (''.htm'', ''text/html; charset=utf-8''), (''.html'', ''text/html; charset=utf-8''),
      (''.jpeg'', ''image/jpeg''), (''.jpg'', ''image/jpeg''), (''.js'', ''application/javascript''),
      (''.json'', ''application/json''), (''.map'', ''application/json''), (''.mjs'', ''application/javascript''),
      (''.pdf'', ''application/pdf''), (''.png'', ''image/png''), (''.svg'', ''image/svg+xml''),
      (''.txt'', ''text/plain; charset=utf-8''), (''.wasm'', ''application/wasm''), (''.webp'', ''image/webp''),
      (''.woff'', ''font/woff''), (''.woff2'', ''font/woff2''), (''.xml'', ''application/xml'')]"

definition getContentType :: "string \<Rightarrow> string" where
  "getContentType extension =
     (case map_of contentTypes extension of None \<Rightarrow> ''application/octet-stream'' | Some t \<Rightarrow> t)"

definition cQuote :: char where "cQuote = CHR 0x22"

definition buildStaticFileEtag :: "nat \<Rightarrow> int \<Rightarrow> string" where
  "buildStaticFileEtag fileSize lastWriteTime =
     [cQuote] @ appendSignedDecimal (to_chars 10 fileSize @ ''-'') lastWriteTime @ [cQuote]"

text \<open>The scan of \<open>If-None-Match\<close>, on the part from \<open>offset\<close> on.\<close>

definition etag_matches :: "string \<Rightarrow> string \<Rightarrow> bool" where
  "etag_matches etag token \<longleftrightarrow>
     token = ''*'' \<or> token = etag \<or>
     (length token = length etag + 2 \<and> substr token 0 2 = ''W/'' \<and> drop 2 token = etag)"

function etag_listed :: "string \<Rightarrow> string \<Rightarrow> bool" where
  "etag_listed etag ifNoneMatch =
     (case find_char cComma ifNoneMatch of
        None \<Rightarrow> etag_matches etag (trimAsciiWhitespace ifNoneMatch)
      | Some separator \<Rightarrow>
          etag_matches etag (trimAsciiWhitespace (take separator ifNoneMatch)) \<or>
          etag_listed etag (drop (separator + 1) ifNoneMatch))"
  by pat_completeness auto
termination
  by (relation "measure (\<lambda>(t, v). length v)") (auto dest: find_pred_less)

declare etag_listed.simps [simp del]

definition isNotModified :: "HttpRequest \<Rightarrow> string \<Rightarrow> string \<Rightarrow> bool" where
  "isNotModified request etag lastModified =
     (let ifNoneMatch = headerValueCaseInsensitiveView (hr_headers request) ''If-None-Match''
      in if ifNoneMatch \<noteq> [] \<and> etag_listed etag ifNoneMatch then True
         else
           let ifModifiedSince = headerValueCaseInsensitiveView (hr_headers request) ''If-Modified-Since''
           in ifModifiedSince \<noteq> [] \<and> ifModifiedSince = lastModified)"

definition parseRangeHeader :: "string \<Rightarrow> nat \<Rightarrow> (nat \<times> nat) option" where
  "parseRangeHeader header fileSize =
     (if fileSize = 0 then None
      else
        let rangeHeader = trimAsciiWhitespace header
        in if length rangeHeader < 6 \<or> \<not> equalsAsciiIgnoreCase (substr rangeHeader 0 6) ''bytes='' then None
           else
             let spec = drop 6 rangeHeader
             in if find_char cComma spec \<noteq> None then None
                else
                  (case find_char cDash spec of
                     None \<Rightarrow> None
                   | Some dashPos \<Rightarrow>
                       if dashPos = 0 then
                         (case stoull 10 (drop 1 spec) of
                            None \<Rightarrow> None
                          | Some suffixLength \<Rightarrow>
                              if suffixLength = 0 then None
                              else let len = min suffixLength fileSize in Some (fileSize - len, len))
                       else
                         (case stoull 10 (substr spec 0 dashPos) of
                            None \<Rightarrow> None
                          | Some start \<Rightarrow>
                              (case (if dashPos + 1 < length spec then stoull 10 (drop (dashPos + 1) spec)
                                     else Some (fileSize - 1)) of
                                 None \<Rightarrow> None
                               | Some end_ \<Rightarrow>
                                   if start \<ge> fileSize \<or> end_ < start then None
                                   else Some (start, min end_ (fileSize - 1) - start + 1)))))"

definition readFileSegment :: "fsys \<Rightarrow> path \<Rightarrow> nat \<Rightarrow> nat \<Rightarrow> string option" where
  "readFileSegment fs p offset len =
     (if len > size_max \<or> len > 2 ^ 63 - 1 then None
      else
        (case fs_data fs p of
           None \<Rightarrow> None
         | Some contents \<Rightarrow>
             let data = substr contents offset len
             in if length data \<noteq> len then None else Some data))"

record StaticFileCacheEntry =
  ce_size :: nat
  ce_lastWriteTime :: int
  ce_contentType :: string
  ce_etag :: string
  ce_lastModified :: string
  ce_body :: string

type_synonym file_cache = "(string, StaticFileCacheEntry) omap"

definition loadStaticFile ::
    "fsys \<Rightarrow> nat \<Rightarrow> path \<Rightarrow> nat \<Rightarrow> int \<Rightarrow> string \<Rightarrow> string \<Rightarrow> string \<Rightarrow> file_cache \<Rightarrow> string option \<times> file_cache" where
  "loadStaticFile fs limit p fileSize lastWriteTime contentType etag lastModified cache =
     (if fileSize \<le> limit then
        let cacheKey = path_string p;
            fresh =
              (case readFileSegment fs p 0 fileSize of
                 None \<Rightarrow> (None, cache)
               | Some body \<Rightarrow>
                   (Some body, omap_put cacheKey
                      \<lparr>ce_size = fileSize, ce_lastWriteTime = lastWriteTime, ce_contentType = contentType,
                       ce_etag = etag, ce_lastModified = lastModified, ce_body = body\<rparr> cache))
        in (case map_of cache cacheKey of
              None \<Rightarrow> fresh
            | Some entry \<Rightarrow>
                if ce_size entry = fileSize \<and> ce_lastWriteTime entry = lastWriteTime then (Some (ce_body entry), cache)
                else fresh)
      else (readFileSegment fs p 0 fileSize, cache))"

definition put_header :: "string \<Rightarrow> string \<Rightarrow> HttpResponse \<Rightarrow> HttpResponse" where
  "put_header name value response = response\<lparr>re_headers := omap_put name value (re_headers response)\<rparr>"

definition plain_answer :: "int \<Rightarrow> string \<Rightarrow> string \<Rightarrow> HttpResponse \<Rightarrow> HttpResponse" where
  "plain_answer code message body response =
     put_header ''Content-Type'' kTextPlain
       (response\<lparr>re_statusCode := code, re_statusMessage := message, re_body := body\<rparr>)"

definition file_answer :: "path \<Rightarrow> nat \<Rightarrow> nat \<Rightarrow> HttpResponse \<Rightarrow> HttpResponse" where
  "file_answer p offset len response =
     response\<lparr>hasFileBody := True, filePath := path_string p, fileOffset := offset, fileLength := len, re_body := []\<rparr>"

definition relative_path :: "string \<Rightarrow> string \<Rightarrow> string" where
  "relative_path prefix normalizedPath =
     (let relativePath = drop (length prefix) normalizedPath;
          relativePath = (if relativePath = [] \<or> relativePath = ''/'' then ''/index.html'' else relativePath)
      in if hd relativePath \<noteq> cSlash then cSlash # relativePath else relativePath)"

text \<open>The comparison of the components of the root directory with those of the requested path.\<close>

fun inside :: "path \<Rightarrow> path \<Rightarrow> bool" where
  "inside [] p = True"
| "inside (b # base) [] = False"
| "inside (b # base) (c # p) = (b = c \<and> inside base p)"

text \<open>The end of \<open>handleStaticFileRequest\<close>: the answer for a regular file inside the root.\<close>

definition serveFile ::
    "fsys \<Rightarrow> nat \<Rightarrow> HttpRequest \<Rightarrow> path \<Rightarrow> int \<Rightarrow> nat \<Rightarrow> HttpResponse \<Rightarrow> file_cache \<Rightarrow> HttpResponse \<times> file_cache" where
  "serveFile fs limit request p lastWriteTime fileSize response cache =
     (let contentType = getContentType (path_extension p);
          etag = buildStaticFileEtag fileSize lastWriteTime;
          lastModified = fs_date fs lastWriteTime;
          response = put_header ''Accept-Ranges'' ''bytes''
            (put_header ''Last-Modified'' lastModified (put_header ''ETag'' etag (put_header ''Content-Type'' contentType response)));
          rangeHeader = headerValueCaseInsensitiveView (hr_headers request) ''Range'';
          hasRangeRequest = (rangeHeader \<noteq> [] \<and> (hr_method request = GET \<or> hr_method request = HEAD))
      in if \<not> hasRangeRequest \<and> isNotModified request etag lastModified then
           (put_header ''Content-Length'' ''0'' (response\<lparr>re_statusCode := 304, re_statusMessage := ''Not Modified'', re_body := []\<rparr>), cache)
         else if hasRangeRequest then
           (case parseRangeHeader rangeHeader fileSize of
              None \<Rightarrow>
                (put_header ''Content-Length'' ''0'' (put_header ''Content-Range'' (''bytes */'' @ to_chars 10 fileSize)
                   (response\<lparr>re_statusCode := 416, re_statusMessage := ''Range Not Satisfiable'', re_body := []\<rparr>)), cache)
            | Some (offset, len) \<Rightarrow>
                let response = put_header ''Content-Length'' (to_chars 10 len)
                      (put_header ''Content-Range''
                        (''bytes '' @ to_chars 10 offset @ ''-'' @ to_chars 10 (offset + len - 1) @ ''/'' @ to_chars 10 fileSize)
                        (response\<lparr>re_statusCode := 206, re_statusMessage := ''Partial Content''\<rparr>))
                in if hr_method request = HEAD then (response, cache)
                   else if len > limit then (file_answer p offset len response, cache)
                   else
                     (case readFileSegment fs p offset len of
                        None \<Rightarrow>
                          let response = plain_answer 500 ''Internal Server Error'' ''Failed to read file'' response;
                              response = response\<lparr>re_headers := omap_erase ''Content-Range'' (re_headers response)\<rparr>
                          in (put_header ''Content-Length'' (to_chars 10 (length (re_body response))) response, cache)
                      | Some data \<Rightarrow> (response\<lparr>re_body := data\<rparr>, cache)))
         else
           let response = put_header ''Content-Length'' (to_chars 10 fileSize)
                 (response\<lparr>re_statusCode := 200, re_statusMessage := ''OK''\<rparr>)
           in if hr_method request = HEAD then (response\<lparr>re_body := []\<rparr>, cache)
              else if fileSize > limit then (file_answer p 0 fileSize response, cache)
              else
                (case loadStaticFile fs limit p fileSize lastWriteTime contentType etag lastModified cache of
                   (None, cache) \<Rightarrow>
                     let response = plain_answer 500 ''Internal Server Error'' ''Failed to read file'' response
                     in (put_header ''Content-Length'' (to_chars 10 (length (re_body response))) response, cache)
                 | (Some data, cache) \<Rightarrow> (response\<lparr>re_body := data\<rparr>, cache)))"

definition handleStaticFileRequest ::
    "fsys \<Rightarrow> nat \<Rightarrow> HttpRequest \<Rightarrow> (string \<times> string) option \<Rightarrow> HttpResponse \<Rightarrow> file_cache \<Rightarrow> (HttpResponse \<times> file_cache) option" where
  "handleStaticFileRequest fs limit request staticFileHandler response cache =
     (case staticFileHandler of
        None \<Rightarrow> None
      | Some (prefix, directory) \<Rightarrow>
          let requestedPath = path_append directory (drop 1 (relative_path prefix (normalizePath (hr_path request))))
          in Some (case fs_canonical fs directory of
               None \<Rightarrow> (plain_answer 500 ''Internal Server Error'' ''Static file root is invalid'' response, cache)
             | Some canonicalBase \<Rightarrow>
                 (case fs_canonical fs requestedPath of
                    None \<Rightarrow> (plain_answer 404 ''Not Found'' ''404 Not Found'' response, cache)
                  | Some canonicalPath \<Rightarrow>
                      if canonicalPath = [] then (plain_answer 404 ''Not Found'' ''404 Not Found'' response, cache)
                      else if \<not> inside canonicalBase canonicalPath then
                        (plain_answer 403 ''Forbidden'' ''403 Forbidden'' response, cache)
                      else if \<not> fs_exists fs canonicalPath \<or> \<not> fs_regular fs canonicalPath then
                        (plain_answer 404 ''Not Found'' ''404 Not Found'' response, cache)
                      else
                        (case fs_time fs canonicalPath of
                           None \<Rightarrow> (plain_answer 500 ''Internal Server Error'' ''Failed to inspect file'' response, cache)
                         | Some lastWriteTime \<Rightarrow>
                             (case fs_size fs canonicalPath of
                                None \<Rightarrow> (plain_answer 500 ''Internal Server Error'' ''Failed to inspect file'' response, cache)
                              | Some fileSize \<Rightarrow>
                                  serveFile fs limit request canonicalPath lastWriteTime fileSize response cache)))))"

subsection \<open>The server\<close>

type_synonym RequestHandler = "HttpRequest \<Rightarrow> HttpResponse \<Rightarrow> HttpResponse"

record ClientState =
  cs_buffer :: string
  cs_bufferOffset :: nat
  cs_address :: Address
  cs_processing :: bool
  cs_timerArmed :: bool

text \<open>What the server asks of its \<open>TcpServer\<close>.\<close>

datatype tcp_request =
    SendText string
  | SendFile string string nat nat
  | DisconnectClient
  | CloseAfterPendingWrites

record http_server =
  hs_running :: bool
  requestTimeout :: nat
  maxRequestSize :: nat
  hs_clients :: "nat \<rightharpoonup> ClientState"
  handlers :: "HttpMethod \<times> string \<rightharpoonup> RequestHandler"
  staticFileHandlers :: "(string, string) omap"
  staticFileCache :: file_cache
  staticFileCacheLimit :: nat
  defaultHandler :: "RequestHandler option"
  tcp_requests :: "(nat \<times> tcp_request) list"

definition http_server_new :: http_server where
  "http_server_new =
     \<lparr>hs_running = False, requestTimeout = 30000, maxRequestSize = 16 * 1024 * 1024, hs_clients = Map.empty,
      handlers = Map.empty, staticFileHandlers = [], staticFileCache = [], staticFileCacheLimit = 256 * 1024,
      defaultHandler = None, tcp_requests = []\<rparr>"

definition hs_start :: "bool \<Rightarrow> http_server \<Rightarrow> bool \<times> http_server" where
  "hs_start listening s = (if \<not> listening then (False, s) else (True, s\<lparr>hs_running := True\<rparr>))"

definition hs_stop :: "http_server \<Rightarrow> http_server" where
  "hs_stop s = (if \<not> hs_running s then s else s\<lparr>hs_running := False, hs_clients := Map.empty, staticFileCache := []\<rparr>)"

text \<open>Registering an empty \<open>std::function\<close> leaves the route without a handler.\<close>

definition registerHandler :: "string \<Rightarrow> HttpMethod \<Rightarrow> RequestHandler option \<Rightarrow> http_server \<Rightarrow> http_server" where
  "registerHandler path method handler s = s\<lparr>handlers := (handlers s)((method, normalizePath path) := handler)\<rparr>"

definition registerStaticFileHandler :: "string \<Rightarrow> string \<Rightarrow> http_server \<Rightarrow> http_server" where
  "registerStaticFileHandler pathPrefix directory s =
     s\<lparr>staticFileHandlers := omap_put (normalizePath pathPrefix) directory (staticFileHandlers s), staticFileCache := []\<rparr>"

definition setRequestHandler :: "RequestHandler option \<Rightarrow> http_server \<Rightarrow> http_server" where
  "setRequestHandler handler s = s\<lparr>defaultHandler := handler\<rparr>"

definition setRequestTimeout :: "nat \<Rightarrow> http_server \<Rightarrow> http_server" where
  "setRequestTimeout timeoutMs s = s\<lparr>requestTimeout := timeoutMs\<rparr>"

definition setMaxRequestSize :: "nat \<Rightarrow> http_server \<Rightarrow> http_server" where
  "setMaxRequestSize bytes s = s\<lparr>maxRequestSize := max 1024 bytes\<rparr>"

definition setStaticFileCacheLimit :: "nat \<Rightarrow> http_server \<Rightarrow> http_server" where
  "setStaticFileCacheLimit bytes s = s\<lparr>staticFileCacheLimit := bytes, staticFileCache := []\<rparr>"

subsection \<open>Dispatching\<close>

definition static_match :: "string \<Rightarrow> string \<Rightarrow> bool" where
  "static_match normalizedPath prefix \<longleftrightarrow>
     take (length prefix) normalizedPath = prefix \<and>
     (prefix = ''/'' \<or> normalizedPath = prefix \<or> take (length prefix + 1) normalizedPath = prefix @ ''/'')"

definition select_static :: "string \<Rightarrow> (string, string) omap \<Rightarrow> (string \<times> string) option" where
  "select_static normalizedPath table =
     foldl (\<lambda>best (prefix, directory).
        if \<not> static_match normalizedPath prefix then best
        else
          (case best of
             None \<Rightarrow> Some (prefix, directory)
           | Some (bestPrefix, _) \<Rightarrow>
               if length prefix > length bestPrefix then Some (prefix, directory) else best)) None table"

definition dispatchRequest :: "fsys \<Rightarrow> http_server \<Rightarrow> HttpRequest \<Rightarrow> HttpResponse \<times> file_cache" where
  "dispatchRequest fs s request =
     (let response = put_header ''Server'' ''FastNet-HttpServer/2.0''
            (HttpResponse_init\<lparr>re_statusCode := 200, re_statusMessage := ''OK''\<rparr>);
          normalizedPath = normalizePath (hr_path request)
      in case handlers s (hr_method request, normalizedPath) of
           Some exactHandler \<Rightarrow> (exactHandler request response, staticFileCache s)
         | None \<Rightarrow>
             (case handleStaticFileRequest fs (staticFileCacheLimit s) request
                     (select_static normalizedPath (staticFileHandlers s)) response (staticFileCache s) of
                Some answer \<Rightarrow> answer
              | None \<Rightarrow>
                  (case defaultHandler s of
                     Some h \<Rightarrow> (h request response, staticFileCache s)
                   | None \<Rightarrow> (plain_answer 404 ''Not Found'' ''404 Not Found'' response, staticFileCache s))))"

definition has_header :: "string \<Rightarrow> HttpResponse \<Rightarrow> bool" where
  "has_header name response \<longleftrightarrow> map_of (re_headers response) name \<noteq> None"

definition put_missing :: "string \<Rightarrow> string \<Rightarrow> HttpResponse \<Rightarrow> HttpResponse" where
  "put_missing name value response = (if has_header name response then response else put_header name value response)"

definition body_length :: "HttpResponse \<Rightarrow> nat" where
  "body_length response = (if hasFileBody response then fileLength response else length (re_body response))"

definition finalizeResponse :: "string \<Rightarrow> HttpRequest \<Rightarrow> bool \<Rightarrow> HttpResponse \<Rightarrow> HttpResponse" where
  "finalizeResponse date request keep response =
     (let response = put_missing ''Date'' date response;
          response = put_missing ''Connection'' (if keep then ''keep-alive'' else ''close'') response;
          response = put_missing ''Content-Type'' kTextPlain response;
          response = (if hasFileBody response then put_missing ''Content-Length'' (to_chars 10 (fileLength response)) response
                      else response)
      in if hr_method request = HEAD then
           (put_missing ''Content-Length'' (to_chars 10 (body_length response)) response)
             \<lparr>hasFileBody := False, filePath := [], fileOffset := 0, fileLength := 0, re_body := []\<rparr>
         else if \<not> srv_containsToken (headerValueCaseInsensitiveView (re_headers response) ''Transfer-Encoding'') ''chunked''
           then put_missing ''Content-Length'' (to_chars 10 (body_length response)) response
         else response)"

subsection \<open>Receiving data and answering requests\<close>

definition makeBufferedView :: "ClientState \<Rightarrow> string" where
  "makeBufferedView c =
     (if cs_bufferOffset c \<ge> length (cs_buffer c) then [] else drop (cs_bufferOffset c) (cs_buffer c))"

definition compactClientBuffer :: "ClientState \<Rightarrow> ClientState" where
  "compactClientBuffer c =
     (if cs_bufferOffset c = 0 then c
      else if cs_bufferOffset c \<ge> length (cs_buffer c) then c\<lparr>cs_buffer := [], cs_bufferOffset := 0\<rparr>
      else if cs_bufferOffset c < 4096 \<and> cs_bufferOffset c * 2 < length (cs_buffer c) then c
      else c\<lparr>cs_buffer := drop (cs_bufferOffset c) (cs_buffer c), cs_bufferOffset := 0\<rparr>)"

definition armRequestTimer :: "http_server \<Rightarrow> ClientState \<Rightarrow> ClientState" where
  "armRequestTimer s c = (if requestTimeout s = 0 then c else c\<lparr>cs_timerArmed := True\<rparr>)"

definition stopRequestTimer :: "ClientState \<Rightarrow> ClientState" where
  "stopRequestTimer c = c\<lparr>cs_timerArmed := False\<rparr>"

definition put_client :: "nat \<Rightarrow> ClientState \<Rightarrow> http_server \<Rightarrow> http_server" where
  "put_client cid c s = s\<lparr>hs_clients := (hs_clients s)(cid \<mapsto> c)\<rparr>"

definition ask_tcp :: "nat \<Rightarrow> tcp_request \<Rightarrow> http_server \<Rightarrow> http_server" where
  "ask_tcp cid action s = s\<lparr>tcp_requests := tcp_requests s @ [(cid, action)]\<rparr>"

definition handleClientConnected :: "nat \<Rightarrow> Address \<Rightarrow> http_server \<Rightarrow> http_server" where
  "handleClientConnected cid address s =
     put_client cid \<lparr>cs_buffer = [], cs_bufferOffset = 0, cs_address = address, cs_processing = False, cs_timerArmed = False\<rparr> s"

definition handleClientDisconnected :: "nat \<Rightarrow> http_server \<Rightarrow> http_server" where
  "handleClientDisconnected cid s = s\<lparr>hs_clients := (hs_clients s)(cid := None)\<rparr>"

text \<open>The locked part of \<open>handleDataReceived\<close>; whether the caller goes on to \<open>processBufferedRequests\<close> is
  the first component.\<close>

definition handleDataReceived :: "nat \<Rightarrow> string \<Rightarrow> http_server \<Rightarrow> bool \<times> http_server" where
  "handleDataReceived cid data s =
     (case hs_clients s cid of
        None \<Rightarrow> (False, s)
      | Some c \<Rightarrow>
          let c = compactClientBuffer c;
              c = (if cs_bufferOffset c = 0 \<and> cs_buffer c = [] then c\<lparr>cs_buffer := data\<rparr>
                   else c\<lparr>cs_buffer := cs_buffer c @ data\<rparr>);
              c = armRequestTimer s c
          in if \<not> cs_processing c then (True, put_client cid (c\<lparr>cs_processing := True\<rparr>) s)
             else (False, put_client cid c s))"

definition tooLarge :: "nat \<Rightarrow> ParsedRequest" where
  "tooLarge pending =
     \<lparr>pr_request = HttpRequest_init, consumedBytes = pending, pr_keepAlive = False,
      immediateResponse = Some (makeErrorResponse 413 ''Payload Too Large'' ''HTTP request too large'')\<rparr>"

text \<open>The locked part of one pass of \<open>processBufferedRequests\<close>. \<^term>\<open>None\<close> is a pass that never ends,
  \<^term>\<open>Inl e\<close> one that throws; without a request the loop returns.\<close>

definition nextRequest :: "nat \<Rightarrow> http_server \<Rightarrow> (server_exception + ParsedRequest option \<times> http_server) option" where
  "nextRequest cid s =
     (case hs_clients s cid of
        None \<Rightarrow> Some (Inr (None, s))
      | Some c \<Rightarrow>
          let pending = makeBufferedView c
          in if length pending > maxRequestSize s then
               Some (Inr (Some (tooLarge (length pending)),
                 put_client cid (stopRequestTimer (c\<lparr>cs_processing := False, cs_buffer := [], cs_bufferOffset := 0\<rparr>)) s))
             else
               (case tryExtractRequest (cs_address c) pending of
                  None \<Rightarrow> None
                | Some (Inl e) \<Rightarrow> Some (Inl e)
                | Some (Inr None) \<Rightarrow> Some (Inr (None, put_client cid (c\<lparr>cs_processing := False\<rparr>) s))
                | Some (Inr (Some r)) \<Rightarrow>
                    let c = compactClientBuffer (c\<lparr>cs_bufferOffset := cs_bufferOffset c + consumedBytes r\<rparr>);
                        c = (if makeBufferedView c = [] then stopRequestTimer c else armRequestTimer s c)
                    in Some (Inr (Some r, put_client cid c s))))"

text \<open>The rest of the pass: the answer, and whether the loop goes on. Whether \<open>TcpServer\<close> accepts the data
  is an argument.\<close>

definition answerRequest :: "fsys \<Rightarrow> string \<Rightarrow> bool \<Rightarrow> nat \<Rightarrow> ParsedRequest \<Rightarrow> http_server \<Rightarrow> bool \<times> http_server" where
  "answerRequest fs date sent cid r s =
     (let (response, cache) =
            (case immediateResponse r of
               Some response \<Rightarrow> (response, staticFileCache s)
             | None \<Rightarrow> dispatchRequest fs s (pr_request r));
          s = s\<lparr>staticFileCache := cache\<rparr>;
          response = finalizeResponse date (pr_request r) (pr_keepAlive r) response;
          s = ask_tcp cid
                (if hasFileBody response
                 then SendFile (buildResponse (re_statusCode response) (re_statusMessage response) (re_headers response) [])
                        (filePath response) (fileOffset response) (fileLength response)
                 else SendText (buildResponse (re_statusCode response) (re_statusMessage response) (re_headers response)
                        (re_body response))) s
      in if \<not> sent then (False, ask_tcp cid DisconnectClient s)
         else if \<not> pr_keepAlive r then (False, ask_tcp cid CloseAfterPendingWrites s)
         else (True, s))"

definition requestTimedOut :: "nat \<Rightarrow> http_server \<Rightarrow> http_server" where
  "requestTimedOut cid s = ask_tcp cid DisconnectClient s"

text \<open>The loop without interruption by other threads, while \<open>TcpServer\<close> accepts every send;
  \<^term>\<open>None\<close> is a loop that does not end.\<close>

partial_function (option) processBufferedRequests ::
    "fsys \<Rightarrow> string \<Rightarrow> nat \<Rightarrow> http_server \<Rightarrow> (server_exception + http_server) option" where
  "processBufferedRequests fs date cid s =
     (case nextRequest cid s of
        None \<Rightarrow> None
      | Some (Inl e) \<Rightarrow> Some (Inl e)
      | Some (Inr (None, s)) \<Rightarrow> Some (Inr s)
      | Some (Inr (Some q, s)) \<Rightarrow>
          (case answerRequest fs date True cid q s of (goes_on, s) \<Rightarrow>
             if goes_on then processBufferedRequests fs date cid s else Some (Inr s)))"

subsection \<open>Reading decimal numbers with \<open>std::stoull\<close>\<close>

lemma digit_value_10: "digit_value 10 c = decDigit c"
  by (auto simp: digit_value_def decDigit_def hexDigit_def isdigit_def Let_def)

lemma digits_value_num: "list_all isdigit s \<Longrightarrow> digits_value 10 r s = num_value 10 decDigit r s"
  by (induction s arbitrary: r) (simp_all add: digit_value_10 decDigit_def num_value_def)

lemma digit_plain: "isdigit c \<Longrightarrow> \<not> isspace c \<and> c \<noteq> CHR ''-'' \<and> c \<noteq> CHR ''+'' \<and> c \<noteq> cDash \<and> c \<noteq> cComma"
  by (auto simp: isdigit_def isspace_def cDash_def cComma_def)

text \<open>On what the parser accepts as a decimal number \<open>std::stoull\<close> returns that number.\<close>

lemma stoull_decimal:
  assumes "parseUnsignedDecimal v = Some n"
  shows "stoull 10 v = Some n"
proof -
  have v: "v \<noteq> []" "list_all isdigit v" "n \<le> size_max" "n = num_value 10 decDigit 0 v"
    using assms by (simp_all add: parseUnsignedDecimal_exact split: if_splits)
  then obtain c w where c: "v = c # w" "isdigit c" by (cases v) auto
  have "digits_value 10 0 v = n" using digits_value_num [OF v(2)] v(4) by simp
  then show ?thesis using v(3) c digit_plain [OF c(2)]
    by (simp add: stoull_def Let_def digit_value_10 decDigit_def)
qed

lemma stoull_to_chars: "n \<le> size_max \<Longrightarrow> stoull 10 (to_chars 10 n) = Some n"
  by (intro stoull_decimal) (simp add: parseUnsignedDecimal_to_chars)

lemma to_chars_10_ne: "to_chars 10 n \<noteq> []"
  using num_value_to_chars [of 10 decDigit n] by simp

end
