(* ===== verification/Http_Static_Files.thy ===== *)
theory Http_Static_Files
  imports Http_Server
begin

text \<open>
  What the HTTP server gives out for a path: byte ranges, files below a registered directory, the cache of file
  contents, and the choice between handlers. Definitions are in \<open>Http_Server\<close>.
\<close>

subsection \<open>Ranges\<close>

text \<open>A range header that begins with the unit and ends in a digit or a dash.\<close>

lemma parseRangeHeader_spec:
  assumes "0 < fileSize" "spec \<noteq> []" "\<not> isspace (last spec)" "cComma \<notin> set spec" "find_char cDash spec = Some d"
  shows "parseRangeHeader (''bytes='' @ spec) fileSize =
    (if d = 0 then
       (case stoull 10 (drop 1 spec) of
          None \<Rightarrow> None
        | Some suffixLength \<Rightarrow>
            if suffixLength = 0 then None else Some (fileSize - min suffixLength fileSize, min suffixLength fileSize))
     else
       (case stoull 10 (take d spec) of
          None \<Rightarrow> None
        | Some start \<Rightarrow>
            (case (if d + 1 < length spec then stoull 10 (drop (d + 1) spec) else Some (fileSize - 1)) of
               None \<Rightarrow> None
             | Some end_ \<Rightarrow>
                 if start \<ge> fileSize \<or> end_ < start then None else Some (start, min end_ (fileSize - 1) - start + 1))))"
proof -
  have "trimmed (''bytes='' @ spec)" using assms(2,3) by (simp add: trimmed_def isspace_def)
  then have t: "trimAsciiWhitespace (''bytes='' @ spec) = ''bytes='' @ spec"
    using trim_trimmed by (simp only: trimAsciiWhitespace_def trim_def)
  have u: "equalsAsciiIgnoreCase (take 6 (drop 0 (''bytes='' @ spec))) ''bytes=''" "\<not> length (''bytes='' @ spec) < 6"
    "drop 6 (''bytes='' @ spec) = spec"
    by (simp_all add: equalsAsciiIgnoreCase_def)
  have c: "find_char cComma spec = None" using assms(4) by (auto simp: find_pred_None)
  show ?thesis unfolding parseRangeHeader_def Let_def t substr_def u(3) c assms(5) option.case
    using assms(1) u(1,2) by (simp only: neq0_conv [symmetric] if_False de_Morgan_disj not_not) (simp add: drop_0)
qed

text \<open>C38: The range a file is cut to lies inside the file and is not empty, whatever the header says. The three forms of a
  byte range mean what they say: from one position to another, from a position to the end, and the last bytes.\<close>

theorem ranges_within_file:
  assumes "0 < n" "a \<le> size_max" "b \<le> size_max"
  shows "(case parseRangeHeader header n of None \<Rightarrow> True | Some (offset, len) \<Rightarrow> 0 < len \<and> offset + len \<le> n) \<and>
    parseRangeHeader (''bytes='' @ to_chars 10 a @ ''-'' @ to_chars 10 b) n =
      (if a < n \<and> a \<le> b then Some (a, min b (n - 1) - a + 1) else None) \<and>
    parseRangeHeader (''bytes='' @ to_chars 10 a @ ''-'') n = (if a < n then Some (a, n - a) else None) \<and>
    parseRangeHeader (''bytes='' @ ''-'' @ to_chars 10 b) n = (if b = 0 then None else Some (n - min b n, min b n))"
proof (intro conjI)
  show "case parseRangeHeader header n of None \<Rightarrow> True | Some (offset, len) \<Rightarrow> 0 < len \<and> offset + len \<le> n"
    using assms(1) by (auto simp: parseRangeHeader_def Let_def split: option.splits if_splits)
  have plain: "\<not> isspace c \<and> c \<noteq> cDash \<and> c \<noteq> cComma" if "c \<in> set (to_chars 10 k)" for c k
    using digit_plain [OF to_chars_10_digits [OF that]] by simp
  have ch: "cComma \<notin> set (to_chars 10 k)" "cDash \<notin> set (to_chars 10 k)" for k using plain by blast+
  have sp: "\<not> isspace (last (to_chars 10 k))" for k using plain [OF last_in_set [OF to_chars_10_ne]] by blast
  have dash: "find_char cDash (to_chars 10 k @ ''-'' @ s) = Some (length (to_chars 10 k))" for k s
    using find_pred_append_hit [of "to_chars 10 k" "\<lambda>x. x = cDash" cDash s] ch(2) [of k] by (auto simp: cDash_def)
  have pos: "length (to_chars 10 k) \<noteq> 0" for k using to_chars_10_ne by simp
  have st: "stoull 10 (to_chars 10 a) = Some a" "stoull 10 (to_chars 10 b) = Some b" using assms by (simp_all add: stoull_to_chars)
  have c: "cComma \<noteq> CHR ''-''" "\<not> isspace (CHR ''-'')" by (simp_all add: cComma_def isspace_def)
  show "parseRangeHeader (''bytes='' @ to_chars 10 a @ ''-'' @ to_chars 10 b) n =
      (if a < n \<and> a \<le> b then Some (a, min b (n - 1) - a + 1) else None)"
    by (subst parseRangeHeader_spec [OF assms(1) _ _ _ dash])
      (use ch [of a] ch [of b] sp [of b] c to_chars_10_ne [of a] to_chars_10_ne [of b] st pos [of a] pos [of b] in auto)
  show "parseRangeHeader (''bytes='' @ to_chars 10 a @ ''-'') n = (if a < n then Some (a, n - a) else None)"
    using parseRangeHeader_spec [OF assms(1) _ _ _ dash [of a "[]"]] ch [of a] sp [of a] c to_chars_10_ne [of a] st pos [of a] assms(1) by auto
  show "parseRangeHeader (''bytes='' @ ''-'' @ to_chars 10 b) n = (if b = 0 then None else Some (n - min b n, min b n))"
    by (subst parseRangeHeader_spec [OF assms(1), of _ 0])
      (use ch [of b] sp [of b] c to_chars_10_ne [of b] st in \<open>auto simp: cDash_def\<close>)
qed

theorem ranges_within_file_witness:
  "parseRangeHeader ''bytes=2-5'' 4 = Some (2, 2) \<and> parseRangeHeader ''bytes=-3'' 4 = Some (1, 3)"
proof -
  have "digit_char 2 = CHR ''2''" "digit_char 5 = CHR ''5''" "digit_char 3 = CHR ''3''" by code_simp+
  then have "to_chars 10 2 = ''2''" "to_chars 10 5 = ''5''" "to_chars 10 3 = ''3''" by (simp_all add: to_chars.simps)
  then show ?thesis
    using ranges_within_file [of 4 2 5 "[]"] ranges_within_file [of 4 2 3 "[]"] by (simp add: size_max_def)
qed

subsection \<open>Static files\<close>

definition requested_path :: "HttpRequest \<Rightarrow> string \<Rightarrow> string \<Rightarrow> string" where
  "requested_path request prefix directory = path_append directory (drop 1 (relative_path prefix (normalizePath (hr_path request))))"

lemma inside_prefix: "inside base p \<longleftrightarrow> take (length base) p = base"
  by (induction base p rule: inside.induct) auto

lemma answer_fields [simp]:
  "re_statusCode (put_header n v r) = re_statusCode r" "re_body (put_header n v r) = re_body r"
  "hasFileBody (put_header n v r) = hasFileBody r" "filePath (put_header n v r) = filePath r"
  "fileOffset (put_header n v r) = fileOffset r" "fileLength (put_header n v r) = fileLength r"
  "re_statusMessage (put_header n v r) = re_statusMessage r"
  "re_statusCode (plain_answer c m b r) = c" "re_body (plain_answer c m b r) = b" "hasFileBody (plain_answer c m b r) = hasFileBody r"
  by (simp_all add: put_header_def plain_answer_def)

text \<open>An answer other than an error is about a regular file inside the root.\<close>

lemma static_file_located:
  assumes "handleStaticFileRequest fs limit request (Some (prefix, directory)) response cache = Some (answer, cache')"
    "re_statusCode answer \<notin> {403, 404, 500}"
  obtains base p t n where "fs_canonical fs directory = Some base" "fs_canonical fs (requested_path request prefix directory) = Some p"
    "inside base p" "fs_regular fs p" "fs_time fs p = Some t" "fs_size fs p = Some n"
    "serveFile fs limit request p t n response cache = (answer, cache')"
proof -
  let ?q = "requested_path request prefix directory"
  obtain base where b: "fs_canonical fs directory = Some base"
    using assms by (cases "fs_canonical fs directory") (auto simp: handleStaticFileRequest_def Let_def)
  obtain p where p: "fs_canonical fs ?q = Some p"
    using assms b by (cases "fs_canonical fs ?q") (auto simp: handleStaticFileRequest_def requested_path_def Let_def)
  have i: "inside base p" "fs_regular fs p" "fs_exists fs p" "p \<noteq> []"
    using assms b p by (auto simp: handleStaticFileRequest_def requested_path_def Let_def split: if_splits)
  obtain t where t: "fs_time fs p = Some t"
    using assms b p i by (cases "fs_time fs p") (auto simp: handleStaticFileRequest_def requested_path_def Let_def)
  obtain n where n: "fs_size fs p = Some n"
    using assms b p i t by (cases "fs_size fs p") (auto simp: handleStaticFileRequest_def requested_path_def Let_def)
  show ?thesis
    by (rule that [OF b p i(1,2) t n]) (use assms b p i t n in \<open>simp add: handleStaticFileRequest_def requested_path_def Let_def\<close>)
qed

lemma range_bounds: "parseRangeHeader header n = Some (offset, len) \<Longrightarrow> 0 < len \<and> offset + len \<le> n"
  by (auto simp: parseRangeHeader_def Let_def split: option.splits if_splits)

lemma serveFile_file_body:
  assumes "serveFile fs limit request p t n response cache = (answer, cache')" "\<not> hasFileBody response" "hasFileBody answer"
  shows "filePath answer = path_string p \<and> fileOffset answer + fileLength answer \<le> n \<and> limit < fileLength answer \<and> re_body answer = []"
  using assms by (auto simp: serveFile_def Let_def file_answer_def dest: range_bounds split: if_splits option.splits prod.splits)

lemma serveFile_range_body:
  assumes "serveFile fs limit request p t n response cache = (answer, cache')" "\<not> hasFileBody answer" "re_statusCode answer = 206"
    "hr_method request \<noteq> HEAD"
  shows "\<exists>data offset len. fs_data fs p = Some data \<and> re_body answer = substr data offset len \<and> length (re_body answer) = len \<and>
    parseRangeHeader (headerValueCaseInsensitiveView (hr_headers request) ''Range'') n = Some (offset, len)"
  using assms
  by (auto simp: serveFile_def Let_def file_answer_def readFileSegment_def split: if_splits option.splits prod.splits)


text \<open>The cache of file contents. A version of a file is known by its path, its size and its modification time.\<close>

definition versioned :: "(string \<Rightarrow> nat \<Rightarrow> int \<Rightarrow> string) \<Rightarrow> fsys \<Rightarrow> bool" where
  "versioned version fs \<longleftrightarrow>
     (\<forall>p n t data. fs_size fs p = Some n \<longrightarrow> fs_time fs p = Some t \<longrightarrow> fs_data fs p = Some data \<longrightarrow>
        take n data = version (path_string p) n t)"

definition cache_consistent :: "(string \<Rightarrow> nat \<Rightarrow> int \<Rightarrow> string) \<Rightarrow> file_cache \<Rightarrow> bool" where
  "cache_consistent version cache \<longleftrightarrow>
     (\<forall>key e. map_of cache key = Some e \<longrightarrow> ce_body e = version key (ce_size e) (ce_lastWriteTime e))"

lemma readFileSegment_version:
  assumes "readFileSegment fs p 0 n = Some body" "versioned version fs" "fs_size fs p = Some n" "fs_time fs p = Some t"
  shows "body = version (path_string p) n t"
proof -
  obtain data where "fs_data fs p = Some data" "body = take n data"
    using assms(1) by (auto simp: readFileSegment_def substr_def Let_def split: option.splits if_splits)
  then show ?thesis using assms(2-4) by (auto simp: versioned_def)
qed

lemma loadStaticFile_version:
  assumes "loadStaticFile fs limit p n t ct etag lm cache = (r, cache')" "cache_consistent version cache" "versioned version fs"
    "fs_size fs p = Some n" "fs_time fs p = Some t"
  shows "cache_consistent version cache' \<and> (\<forall>body. r = Some body \<longrightarrow> body = version (path_string p) n t)"
  using assms(1,2) readFileSegment_version [OF _ assms(3-5)]
  by (auto simp: loadStaticFile_def cache_consistent_def map_of_omap_put Let_def split: if_splits option.splits)

lemma serveFile_cache:
  assumes "serveFile fs limit request p t n response cache = (answer, cache')" "cache_consistent version cache" "versioned version fs"
    "fs_size fs p = Some n" "fs_time fs p = Some t"
  shows "cache_consistent version cache' \<and>
    (re_statusCode answer = 200 \<and> hr_method request \<noteq> HEAD \<and> \<not> hasFileBody answer \<longrightarrow> re_body answer = version (path_string p) n t)"
  using assms(1,2) loadStaticFile_version [OF _ assms(2-5)]
  by (fastforce simp: serveFile_def Let_def file_answer_def split: if_splits option.splits prod.splits)

lemma handle_cache:
  assumes "handleStaticFileRequest fs limit request handler response cache = Some (answer, cache')" "cache_consistent version cache"
    "versioned version fs"
  shows "cache_consistent version cache'"
  using assms serveFile_cache [OF _ assms(2,3)]
  by (auto simp: handleStaticFileRequest_def Let_def split: if_splits option.splits prod.splits)

text \<open>C16: Serving a file from the cache is the same as reading it, as long as a file that changes also changes its size or
  its modification time: the body of a successful answer is the current version of the file, and the cache holds
  only versions that files had.\<close>

theorem static_cache_transparent:
  assumes "cache_consistent version cache" "versioned version fs"
    "handleStaticFileRequest fs limit request (Some (prefix, directory)) response cache = Some (answer, cache')"
  shows "cache_consistent version cache' \<and>
    (re_statusCode answer = 200 \<and> hr_method request \<noteq> HEAD \<and> \<not> hasFileBody answer \<longrightarrow>
      (\<exists>p n t. fs_canonical fs (path_append directory (drop 1 (relative_path prefix (normalizePath (hr_path request))))) = Some p \<and>
         fs_size fs p = Some n \<and> fs_time fs p = Some t \<and> re_body answer = version (path_string p) n t))"
proof (intro conjI impI)
  show "cache_consistent version cache'" by (rule handle_cache [OF assms(3,1,2)])
  assume a: "re_statusCode answer = 200 \<and> hr_method request \<noteq> HEAD \<and> \<not> hasFileBody answer"
  then have "re_statusCode answer \<notin> {403, 404, 500}" by simp
  then obtain p t n where l: "fs_canonical fs (requested_path request prefix directory) = Some p" "fs_time fs p = Some t" "fs_size fs p = Some n"
    "serveFile fs limit request p t n response cache = (answer, cache')"
    by (rule static_file_located [OF assms(3)])
  then show "\<exists>p n t. fs_canonical fs (path_append directory (drop 1 (relative_path prefix (normalizePath (hr_path request))))) = Some p \<and>
      fs_size fs p = Some n \<and> fs_time fs p = Some t \<and> re_body answer = version (path_string p) n t"
    using serveFile_cache [OF l(4) assms(1,2) l(3,2)] a unfolding requested_path_def by blast
qed

subsection \<open>Routing\<close>

lemma select_static_snoc:
  "select_static path (table @ [(prefix, directory)]) =
     (if \<not> static_match path prefix then select_static path table
      else
        (case select_static path table of
           None \<Rightarrow> Some (prefix, directory)
         | Some (bestPrefix, d) \<Rightarrow>
             if length prefix > length bestPrefix then Some (prefix, directory) else select_static path table))"
  by (auto simp: select_static_def split: option.splits)

lemma select_static_spec:
  "(case select_static path table of
      None \<Rightarrow> \<forall>(prefix, directory)\<in>set table. \<not> static_match path prefix
    | Some (best, directory) \<Rightarrow> (best, directory) \<in> set table \<and> static_match path best \<and>
        (\<forall>(prefix, d)\<in>set table. static_match path prefix \<longrightarrow> length prefix \<le> length best))"
proof (induction table rule: rev_induct)
  case Nil
  then show ?case by (simp add: select_static_def)
next
  case (snoc e table)
  obtain prefix directory where e: "e = (prefix, directory)" by (cases e)
  show ?case using snoc unfolding e select_static_snoc by (cases "select_static path table") fastforce+
qed

text \<open>Two prefixes of one path that have the same length are the same.\<close>

lemma static_match_unique:
  "static_match path a \<Longrightarrow> static_match path b \<Longrightarrow> length a = length b \<Longrightarrow> a = b"
  by (metis static_match_def)

text \<open>C37: A request goes to the handler registered for its method and path; without one, to the static directory with the
  longest prefix that ends at a path separator; without one, to the default handler; and to nothing else.\<close>

theorem requests_are_routed:
  assumes "omap_inv (staticFileHandlers s)" and path_def: "path = normalizePath (hr_path request)"
    and prepared_def: "prepared = put_header ''Server'' ''FastNet-HttpServer/2.0'' HttpResponse_init"
  shows "(handlers s (hr_method request, path) = Some h \<longrightarrow> dispatchRequest fs s request = (h request prepared, staticFileCache s)) \<and>
    (handlers s (hr_method request, path) = None \<and> map_of (staticFileHandlers s) prefix = Some directory \<and> static_match path prefix \<and>
       (\<forall>other\<in>set (map fst (staticFileHandlers s)). static_match path other \<longrightarrow> length other \<le> length prefix) \<longrightarrow>
       Some (dispatchRequest fs s request) =
         handleStaticFileRequest fs (staticFileCacheLimit s) request (Some (prefix, directory)) prepared (staticFileCache s)) \<and>
    (handlers s (hr_method request, path) = None \<and> (\<forall>other\<in>set (map fst (staticFileHandlers s)). \<not> static_match path other) \<longrightarrow>
       dispatchRequest fs s request =
         (case defaultHandler s of
            Some d \<Rightarrow> (d request prepared, staticFileCache s)
          | None \<Rightarrow> (plain_answer 404 ''Not Found'' ''404 Not Found'' prepared, staticFileCache s)))"
proof (intro conjI impI)
  have r: "HttpResponse_init\<lparr>re_statusCode := 200, re_statusMessage := ''OK''\<rparr> = HttpResponse_init" by (simp add: HttpResponse_init_def)
  show "dispatchRequest fs s request = (h request prepared, staticFileCache s)" if "handlers s (hr_method request, path) = Some h"
    using that by (simp add: dispatchRequest_def Let_def path_def prepared_def r)
  note sel = select_static_spec [where path = path and table = "staticFileHandlers s"]
  show "Some (dispatchRequest fs s request) =
      handleStaticFileRequest fs (staticFileCacheLimit s) request (Some (prefix, directory)) prepared (staticFileCache s)"
    if a: "handlers s (hr_method request, path) = None \<and> map_of (staticFileHandlers s) prefix = Some directory \<and> static_match path prefix \<and>
       (\<forall>other\<in>set (map fst (staticFileHandlers s)). static_match path other \<longrightarrow> length other \<le> length prefix)"
  proof -
    have m: "(prefix, directory) \<in> set (staticFileHandlers s)" using a by (auto dest: map_of_SomeD)
    then obtain best d where b: "select_static path (staticFileHandlers s) = Some (best, d)"
      using sel a by (cases "select_static path (staticFileHandlers s)") auto
    then have "(best, d) \<in> set (staticFileHandlers s)" "static_match path best" "length prefix \<le> length best"
      using sel m a by auto
    moreover from this have "length best \<le> length prefix" using a by force
    ultimately have "best = prefix" using static_match_unique a by simp
    moreover have "distinct (map fst (staticFileHandlers s))" using om.entries_distinct [OF assms(1)] .
    ultimately have "d = directory" using \<open>(best, d) \<in> set (staticFileHandlers s)\<close> m by (metis eq_key_imp_eq_value)
    moreover have "\<exists>x. handleStaticFileRequest fs (staticFileCacheLimit s) request (Some (prefix, directory)) prepared (staticFileCache s) = Some x"
      by (simp add: handleStaticFileRequest_def Let_def)
    ultimately show ?thesis using a b \<open>best = prefix\<close>
      by (auto simp: dispatchRequest_def Let_def path_def [symmetric] prepared_def [symmetric] r)
  qed
  show "dispatchRequest fs s request = (case defaultHandler s of Some d \<Rightarrow> (d request prepared, staticFileCache s)
      | None \<Rightarrow> (plain_answer 404 ''Not Found'' ''404 Not Found'' prepared, staticFileCache s))"
    if a: "handlers s (hr_method request, path) = None \<and> (\<forall>other\<in>set (map fst (staticFileHandlers s)). \<not> static_match path other)"
  proof -
    have "select_static path (staticFileHandlers s) = None" using sel a by (force split: option.splits)
    then show ?thesis using a
      by (simp add: dispatchRequest_def Let_def path_def [symmetric] prepared_def [symmetric] r handleStaticFileRequest_def)
  qed
qed

subsection \<open>A directory with one file\<close>

definition one_file :: fsys where
  "one_file =
     \<lparr>fs_canonical = (\<lambda>p. if p = ''www'' then Some [''/'', ''www'']
        else if p = ''www/a.txt'' then Some [''/'', ''www'', ''a.txt''] else None),
      fs_exists = (\<lambda>p. p = [''/'', ''www'', ''a.txt'']), fs_regular = (\<lambda>p. p = [''/'', ''www'', ''a.txt'']),
      fs_time = (\<lambda>p. Some 5), fs_size = (\<lambda>p. Some 4), fs_data = (\<lambda>p. Some ''abcd''), fs_date = (\<lambda>t. ''today'')\<rparr>"

definition get_file :: HttpRequest where
  "get_file = HttpRequest_init\<lparr>hr_path := ''/files/a.txt''\<rparr>"

definition get_part :: HttpRequest where
  "get_part = get_file\<lparr>hr_headers := [(''Range'', ''bytes=1-2'')]\<rparr>"

lemma get_file_path [simp]:
  "normalizePath ''/files/a.txt'' = ''/files/a.txt''" "relative_path ''/files'' ''/files/a.txt'' = ''/a.txt''"
  "path_append ''www'' ''a.txt'' = ''www/a.txt''"
  by (simp_all add: normalizePath_def drop_slashes.simps relative_path_def path_append_def cSlash_def Let_def)

lemma part_range: "parseRangeHeader ''bytes=1-2'' 4 = Some (1, 2)"
  by (simp add: parseRangeHeader_def trimAsciiWhitespace_def substr_def equalsAsciiIgnoreCase_def stoull_def digit_value_def
    hexDigit_def Let_def size_max_def isspace_def cComma_def cDash_def)

lemma located:
  "handleStaticFileRequest one_file limit r (Some (''/files'', ''www'')) resp cache =
     Some (serveFile one_file limit r [''/'', ''www'', ''a.txt''] 5 4 resp cache)" if "hr_path r = ''/files/a.txt''"
  using that by (simp add: handleStaticFileRequest_def one_file_def Let_def)

lemma file_served:
  "\<exists>answer cache'. serveFile one_file 100 get_file p 5 4 HttpResponse_init [] = (answer, cache') \<and> re_statusCode answer = 200 \<and>
     \<not> hasFileBody answer \<and> re_body answer = ''abcd''"
  by (simp add: serveFile_def get_file_def HttpRequest_init_def HttpResponse_init_def isNotModified_def loadStaticFile_def
    readFileSegment_def one_file_def substr_def size_max_def put_header_def Let_def)

lemma part_served:
  "\<exists>answer cache'. serveFile one_file 100 get_part p 5 4 HttpResponse_init [] = (answer, cache') \<and> re_statusCode answer = 206 \<and>
     \<not> hasFileBody answer \<and> re_body answer = ''bc''"
  by (simp add: serveFile_def get_part_def get_file_def HttpRequest_init_def HttpResponse_init_def caseInsensitiveCompare_def part_range
    readFileSegment_def one_file_def substr_def size_max_def put_header_def Let_def)


theorem static_cache_transparent_witness:
  "\<exists>answer cache'. handleStaticFileRequest one_file 100 get_file (Some (''/files'', ''www'')) HttpResponse_init [] = Some (answer, cache') \<and>
     re_body answer = ''abcd'' \<and> cache_consistent (\<lambda>p n t. ''abcd'') cache'"
proof -
  obtain answer cache' where a: "serveFile one_file 100 get_file [''/'', ''www'', ''a.txt''] 5 4 HttpResponse_init [] = (answer, cache')"
    "re_body answer = ''abcd''" using file_served by blast
  have p: "hr_path get_file = ''/files/a.txt''" by (simp add: get_file_def)
  have h: "handleStaticFileRequest one_file 100 get_file (Some (''/files'', ''www'')) HttpResponse_init [] = Some (answer, cache')"
    using located [OF p] a(1) by simp
  have "cache_consistent (\<lambda>p n t. ''abcd'') []" "versioned (\<lambda>p n t. ''abcd'') one_file"
    by (simp_all add: cache_consistent_def versioned_def one_file_def)
  from static_cache_transparent [OF this h] show ?thesis using h a(2) by blast
qed

definition say_hi :: RequestHandler where
  "say_hi request response = response\<lparr>re_body := ''hi''\<rparr>"

definition file_server :: http_server where
  "file_server = registerStaticFileHandler ''/files'' ''www'' (registerHandler ''/hello/'' GET (Some say_hi) http_server_new)"

lemma file_server_tables:
  "staticFileHandlers file_server = [(''/files'', ''www'')]" "handlers file_server = [(GET, ''/hello'') \<mapsto> say_hi]"
  by (simp_all add: file_server_def registerStaticFileHandler_def registerHandler_def http_server_new_def normalizePath_def
    drop_slashes.simps cSlash_def)

theorem requests_are_routed_witness:
  "re_body (fst (dispatchRequest one_file file_server (get_file\<lparr>hr_path := ''/hello''\<rparr>))) = ''hi'' \<and>
   Some (dispatchRequest one_file file_server get_file) =
     handleStaticFileRequest one_file (staticFileCacheLimit file_server) get_file (Some (''/files'', ''www''))
       (put_header ''Server'' ''FastNet-HttpServer/2.0'' HttpResponse_init) (staticFileCache file_server)"
proof
  have inv: "omap_inv (staticFileHandlers file_server)" by (simp add: file_server_tables omap_inv_def)
  have hello: "normalizePath ''/hello'' = ''/hello''" by (simp add: normalizePath_def drop_slashes.simps cSlash_def)
  show "re_body (fst (dispatchRequest one_file file_server (get_file\<lparr>hr_path := ''/hello''\<rparr>))) = ''hi''"
    using requests_are_routed [OF inv refl refl, where request = "get_file\<lparr>hr_path := ''/hello''\<rparr>" and h = say_hi and fs = one_file]
    by (simp add: file_server_tables hello say_hi_def get_file_def HttpRequest_init_def)
  have "static_match ''/files/a.txt'' ''/files''" by (simp add: static_match_def)
  then show "Some (dispatchRequest one_file file_server get_file) =
     handleStaticFileRequest one_file (staticFileCacheLimit file_server) get_file (Some (''/files'', ''www''))
       (put_header ''Server'' ''FastNet-HttpServer/2.0'' HttpResponse_init) (staticFileCache file_server)"
    using requests_are_routed [OF inv refl refl, where request = get_file and prefix = "''/files''" and directory = "''www''" and fs = one_file]
    by (simp add: file_server_tables get_file_def)
qed

end
