(* ===== verification/Http_Server_Runs.thy ===== *)
theory Http_Server_Runs
  imports Http_Server
begin

text \<open>
  The HTTP server over time. More input never changes a request that was complete, and a prefix of a request is
  recognised as incomplete; from this the requests of a connection are answered in order for every way the bytes
  arrive. What the request builder writes is such a complete request. Two inputs make the server loop forever.
\<close>

subsection \<open>What more input changes\<close>

lemma find_from_extend: "find_str_from pat off p = Some e \<Longrightarrow> find_str_from pat off (p @ rest) = Some e"
  by (auto simp: find_str_from_def find_str_extend split: if_splits)

lemma substr_extend: "pos + n \<le> length p \<Longrightarrow> substr (p @ rest) pos n = substr p pos n"
  by (simp add: substr_def)

lemma wrap64_add_two:
  assumes "wrap64 a + 2 < 2 ^ 64"
  shows "wrap64 (a + 2) = wrap64 a + 2"
proof -
  have "(a + 2) mod 2 ^ 64 = (a mod 2 ^ 64 + 2) mod 2 ^ 64" by (simp only: mod_add_left_eq)
  then show ?thesis using assms unfolding wrap64_def by (simp only: mod_less)
qed

text \<open>A pass of the chunk scanner that does not ask for more input does the same when there is more.\<close>

lemma chunk_step_extend:
  assumes "chunk_step p off \<noteq> Inl (Inr None)" "length p + length rest < 2 ^ 63"
  shows "chunk_step (p @ rest) off = chunk_step p off"
proof -
  obtain e where e: "find_str_from CRLF off p = Some e"
    using assms(1) by (cases "find_str_from CRLF off p") (simp_all add: chunk_step_def)
  note e' = find_from_extend [OF e, of rest]
  have le: "off \<le> e" "e + 2 \<le> length p" using find_str_from_le [OF e] by simp_all
  have line: "substr (p @ rest) off (e - off) = substr p off (e - off)" using le by (intro substr_extend) simp
  show ?thesis
  proof (cases "stoull 16 (substr p off (e - off))")
    case None
    then show ?thesis by (simp add: chunk_step_def e e' line)
  next
    case (Some c)
    let ?n = "wrap64 (e + 2 + c)"
    show ?thesis
    proof (cases "c = 0")
      case True
      then have "e + 4 \<le> length p" using assms(1) Some e by (auto simp: chunk_step_def Let_def split: if_splits)
      then show ?thesis using True Some by (simp add: chunk_step_def e e' line Let_def substr_extend)
    next
      case False
      then have n2: "wrap64 (e + 2 + c + 2) \<le> length p"
        using assms(1) Some e by (auto simp: chunk_step_def Let_def split: if_splits)
      show ?thesis
      proof (cases "?n + 2 < 2 ^ 64")
        case True
        then have "?n + 2 \<le> length p" using n2 wrap64_add_two [OF True] by simp
        then show ?thesis using n2 False Some by (simp add: chunk_step_def e e' line Let_def substr_extend)
      next
        case wrapped: False
        then have "length p + length rest < ?n" using assms(2) by simp
        then show ?thesis using n2 False Some by (simp add: chunk_step_def e e' line Let_def)
      qed
    qed
  qed
qed

lemmas chunkedSize_induct = chunkedSize_loop.raw_induct [rotated, consumes 1, case_names pass]

lemma chunkedSize_extend:
  "chunkedSize_loop p off = Some r \<Longrightarrow> length p + length rest < 2 ^ 63 \<Longrightarrow> r \<noteq> Inr None \<Longrightarrow>
   chunkedSize_loop (p @ rest) off = Some r"
proof (induction p off r rule: chunkedSize_induct)
  case (pass loop p off r)
  show ?case
  proof (cases "chunk_step p off")
    case (Inl r')
    then have "chunk_step (p @ rest) off = Inl r" using pass chunk_step_extend [of p off rest] by simp
    then show ?thesis by (subst chunkedSize_loop.simps) simp
  next
    case (Inr off')
    then have "chunk_step (p @ rest) off = Inr off'" using pass chunk_step_extend [of p off rest] by simp
    moreover have "chunkedSize_loop (p @ rest) off' = Some r" using pass Inr by simp
    ultimately show ?thesis by (subst chunkedSize_loop.simps) simp
  qed
qed

lemma chunkedSize_prefix:
  "chunkedSize_loop q off = Some r \<Longrightarrow> q = p @ rest \<Longrightarrow> length q < 2 ^ 63 \<Longrightarrow>
   chunkedSize_loop p off = Some r \<or> chunkedSize_loop p off = Some (Inr None)"
proof (induction q off r rule: chunkedSize_induct)
  case (pass loop q off r)
  show ?case
  proof (cases "chunk_step p off = Inl (Inr None)")
    case True
    then have "chunkedSize_loop p off = Some (Inr None)" by (subst chunkedSize_loop.simps) simp
    then show ?thesis ..
  next
    case False
    then have same: "chunk_step q off = chunk_step p off" using pass chunk_step_extend [of p off rest] by simp
    show ?thesis
    proof (cases "chunk_step p off")
      case (Inl r')
      then have "chunkedSize_loop p off = Some r" using pass same by (subst chunkedSize_loop.simps) simp
      then show ?thesis ..
    next
      case (Inr off')
      then have "chunkedSize_loop p off = chunkedSize_loop p off'" by (subst chunkedSize_loop.simps) simp
      moreover have "chunkedSize_loop p off' = Some r \<or> chunkedSize_loop p off' = Some (Inr None)"
        using pass Inr same by simp
      ultimately show ?thesis by simp
    qed
  qed
qed

subsection \<open>Complete messages\<close>

text \<open>A byte string that the server extracts as exactly one request.\<close>

definition complete_message :: "Address \<Rightarrow> string \<Rightarrow> ParsedRequest \<Rightarrow> bool" where
  "complete_message a raw r \<longleftrightarrow>
     tryExtractRequest a raw = Some (Inr (Some r)) \<and> consumedBytes r = length raw \<and> immediateResponse r = None"

lemma error_request_fields [simp]:
  "immediateResponse (makeErrorRequest n c m b) = Some (makeErrorResponse c m b)"
  "consumedBytes (makeErrorRequest n c m b) = n" "\<not> pr_keepAlive (makeErrorRequest n c m b)"
  by (simp_all add: makeErrorRequest_def)

lemma extent_returns_error:
  "messageExtent view hb raw = Some (Return (Some r)) \<Longrightarrow> immediateResponse r \<noteq> None"
  by (auto simp: messageExtent_def Let_def split: if_splits option.splits sum.splits)

lemma finish_consumes:
  "finishRequest view a hb t raw = Inr (Some r) \<Longrightarrow> consumedBytes r = t \<and> t \<le> length raw"
  by (auto simp: finishRequest_def Let_def split: if_splits option.splits sum.splits)

lemma complete_messageE:
  assumes "complete_message a raw r"
  obtains e view where "find_str (CRLF @ CRLF) raw = Some e" "e + 4 \<le> length raw"
    "parseRequestHead (substr raw 0 (e + 4)) = Some view" "messageExtent view (e + 4) raw = Some (UpTo (length raw))"
    "finishRequest view a (e + 4) (length raw) raw = Inr (Some r)"
proof -
  have x: "tryExtractRequest a raw = Some (Inr (Some r))" and c: "consumedBytes r = length raw" "immediateResponse r = None"
    using assms by (simp_all add: complete_message_def)
  obtain e where e: "find_str (CRLF @ CRLF) raw = Some e"
    using x by (cases "find_str (CRLF @ CRLF) raw") (simp_all add: tryExtractRequest_def)
  obtain view where v: "parseRequestHead (substr raw 0 (e + 4)) = Some view"
    using x e c(2) by (cases "parseRequestHead (substr raw 0 (e + 4))") (auto simp: tryExtractRequest_def Let_def)
  obtain t where t: "messageExtent view (e + 4) raw = Some (UpTo t)" "finishRequest view a (e + 4) t raw = Inr (Some r)"
    using x e v c(2) extent_returns_error [of view "e + 4" raw r]
    by (auto simp: tryExtractRequest_def Let_def split: option.splits extent.splits)
  then show ?thesis using that [OF e _ v] find_str_Some_le [OF e] finish_consumes [OF t(2)] c(1) by simp
qed

lemma head_extend:
  assumes "find_str (CRLF @ CRLF) raw = Some e"
  shows "find_str (CRLF @ CRLF) (raw @ rest) = Some e" "substr (raw @ rest) 0 (e + 4) = substr raw 0 (e + 4)"
    "drop (e + 4) (raw @ rest) = drop (e + 4) raw @ rest"
  using assms find_str_Some_le [OF assms] by (simp_all add: find_str_extend substr_extend)

lemma extent_extend:
  assumes "messageExtent view (e + 4) raw = Some (UpTo t)" "find_str (CRLF @ CRLF) raw = Some e" "length raw + length rest < 2 ^ 63"
  shows "messageExtent view (e + 4) (raw @ rest) = Some (UpTo t)"
proof (cases "isChunked view")
  case True
  then obtain n where n: "chunkedSize_loop (drop (e + 4) raw) 0 = Some (Inr (Some n))" "n \<noteq> 0" "t = wrap64 (e + 4 + n)"
    using assms(1) by (auto simp: messageExtent_def getChunkedMessageSize_def split: option.splits sum.splits if_splits)
  then have "chunkedSize_loop (drop (e + 4) raw @ rest) 0 = Some (Inr (Some n))"
    using assms(3) by (intro chunkedSize_extend) simp_all
  then show ?thesis using True n head_extend(3) [OF assms(2), of rest]
    by (simp add: messageExtent_def getChunkedMessageSize_def del: drop_append)
next
  case False
  then show ?thesis using assms(1) by (auto simp: messageExtent_def Let_def split: option.splits if_splits)
qed

lemma extract_extend:
  assumes "complete_message a raw r" "length raw + length rest < 2 ^ 63"
  shows "tryExtractRequest a (raw @ rest) = Some (Inr (Some r))"
proof -
  obtain e view where c: "find_str (CRLF @ CRLF) raw = Some e" "e + 4 \<le> length raw"
    "parseRequestHead (substr raw 0 (e + 4)) = Some view" "messageExtent view (e + 4) raw = Some (UpTo (length raw))"
    "finishRequest view a (e + 4) (length raw) raw = Inr (Some r)"
    using assms(1) by (rule complete_messageE)
  have "wrap64 (length raw + 2 ^ 64 - (e + 4)) = length raw - (e + 4)"
  proof -
    have "length raw + 2 ^ 64 - (e + 4) = length raw - (e + 4) + 2 ^ 64" using c(2) by simp
    moreover have "length raw - (e + 4) < 2 ^ 64" using assms(2) by simp
    ultimately show ?thesis by (simp only: wrap64_def mod_add_self2 mod_less)
  qed
  then have "finishRequest view a (e + 4) (length raw) (raw @ rest) = finishRequest view a (e + 4) (length raw) raw"
    using c(2) by (simp add: finishRequest_def substr_extend)
  then show ?thesis using c head_extend [OF c(1), of rest] extent_extend [OF c(4,1) assms(2)]
    by (simp add: tryExtractRequest_def Let_def)
qed

lemma extent_prefix:
  assumes "messageExtent view (e + 4) (p @ rest) = Some (UpTo (length (p @ rest)))" "find_str (CRLF @ CRLF) p = Some e"
    "length (p @ rest) < 2 ^ 63" "rest \<noteq> []"
  shows "messageExtent view (e + 4) p = Some (Return None) \<or> messageExtent view (e + 4) p = Some (UpTo (length (p @ rest)))"
proof (cases "isChunked view")
  case True
  then obtain n where n: "chunkedSize_loop (drop (e + 4) (p @ rest)) 0 = Some (Inr (Some n))" "n \<noteq> 0" "length (p @ rest) = wrap64 (e + 4 + n)"
    using assms(1) by (auto simp: messageExtent_def getChunkedMessageSize_def split: option.splits sum.splits if_splits)
  have "chunkedSize_loop (drop (e + 4) p) 0 = Some (Inr (Some n)) \<or> chunkedSize_loop (drop (e + 4) p) 0 = Some (Inr None)"
    using n(1) by (rule chunkedSize_prefix) (use head_extend(3) [OF assms(2)] assms(3) in simp_all)
  then show ?thesis using True n by (auto simp: messageExtent_def getChunkedMessageSize_def)
next
  case False
  have "e + 4 \<le> length p" using find_str_Some_le [OF assms(2)] by simp
  then show ?thesis using False assms(1,4) by (auto simp: messageExtent_def Let_def split: option.splits if_splits)
qed

lemma extract_prefix:
  assumes "complete_message a (p @ rest) r" "rest \<noteq> []" "length (p @ rest) < 2 ^ 63"
  shows "tryExtractRequest a p = Some (Inr None)"
proof (cases "find_str (CRLF @ CRLF) p")
  case None
  then show ?thesis by (simp add: tryExtractRequest_def Let_def)
next
  case (Some e)
  obtain e' view where c: "find_str (CRLF @ CRLF) (p @ rest) = Some e'"
    "parseRequestHead (substr (p @ rest) 0 (e' + 4)) = Some view"
    "messageExtent view (e' + 4) (p @ rest) = Some (UpTo (length (p @ rest)))"
    using assms(1) by (rule complete_messageE)
  note h = head_extend [OF Some, of rest]
  have e: "e' = e" using c(1) h(1) by simp
  have "finishRequest view a (e + 4) (length (p @ rest)) p = Inr None" using assms(2) by (simp add: finishRequest_def)
  then show ?thesis using extent_prefix [OF c(3) [unfolded e] Some assms(3,2)] Some c(2) h(2)
    by (auto simp: tryExtractRequest_def Let_def e)
qed

subsection \<open>Runs of the server\<close>

text \<open>Where the thread that processes the data of a client is: nowhere, before the locked part of a pass, or after it
  with the request it took.\<close>

datatype serving_phase = Off | Scanning | Answering ParsedRequest

text \<open>A run keeps, besides the server, the bytes that have arrived from every client, the requests answered, and the
  clients given up after a failed send or an exception.\<close>

record http_run =
  server :: http_server
  arrived :: "nat \<Rightarrow> string"
  answered :: "nat \<Rightarrow> ParsedRequest list"
  serving :: "nat \<Rightarrow> serving_phase"
  dropped :: "nat set"

inductive http_step :: "fsys \<Rightarrow> http_run \<Rightarrow> http_run \<Rightarrow> bool" for fs where
  connect: "http_step fs r (r\<lparr>server := handleClientConnected cid a (server r), arrived := (arrived r)(cid := []),
      answered := (answered r)(cid := []), dropped := dropped r - {cid}\<rparr>)"
    if "hs_clients (server r) cid = None" "serving r cid = Off"
| disconnect: "http_step fs r (r\<lparr>server := handleClientDisconnected cid (server r)\<rparr>)"
| receive: "http_step fs r (r\<lparr>server := s', arrived := (arrived r)(cid := arrived r cid @ data),
      serving := (if start then (serving r)(cid := Scanning) else serving r)\<rparr>)"
    if "hs_clients (server r) cid \<noteq> None" "handleDataReceived cid data (server r) = (start, s')"
| pause: "http_step fs r (r\<lparr>server := s', serving := (serving r)(cid := Off)\<rparr>)"
    if "serving r cid = Scanning" "nextRequest cid (server r) = Some (Inr (None, s'))"
| take: "http_step fs r (r\<lparr>server := s', serving := (serving r)(cid := Answering q)\<rparr>)"
    if "serving r cid = Scanning" "nextRequest cid (server r) = Some (Inr (Some q, s'))"
| throw: "http_step fs r (r\<lparr>serving := (serving r)(cid := Off), dropped := insert cid (dropped r)\<rparr>)"
    if "serving r cid = Scanning" "nextRequest cid (server r) = Some (Inl e)"
| answer: "http_step fs r (r\<lparr>server := s', answered := (answered r)(cid := answered r cid @ [q]),
      serving := (serving r)(cid := if goes_on then Scanning else Off),
      dropped := (if sent then dropped r else insert cid (dropped r))\<rparr>)"
    if "serving r cid = Answering q" "answerRequest fs date sent cid q (server r) = (goes_on, s')"
| timeout: "http_step fs r (r\<lparr>server := requestTimedOut cid (server r)\<rparr>)"
| route: "http_step fs r (r\<lparr>server := registerHandler path method handler (server r)\<rparr>)"
| static: "http_step fs r (r\<lparr>server := registerStaticFileHandler pathPrefix directory (server r)\<rparr>)"
| fallback: "http_step fs r (r\<lparr>server := setRequestHandler handler (server r)\<rparr>)"
| stop: "http_step fs r (r\<lparr>server := hs_stop (server r)\<rparr>)"

definition http_init :: "http_run \<Rightarrow> bool" where
  "http_init r \<longleftrightarrow> hs_clients (server r) = Map.empty \<and> serving r = (\<lambda>cid. Off)"

subsection \<open>Requests are answered in order\<close>

lemma view_compact [simp]:
  "makeBufferedView (compactClientBuffer c) = makeBufferedView c" "cs_address (compactClientBuffer c) = cs_address c"
  "cs_processing (compactClientBuffer c) = cs_processing c"
  by (simp_all add: makeBufferedView_def compactClientBuffer_def)

lemma timer_fields [simp]:
  "makeBufferedView (armRequestTimer s c) = makeBufferedView c" "cs_address (armRequestTimer s c) = cs_address c"
  "cs_processing (armRequestTimer s c) = cs_processing c" "makeBufferedView (stopRequestTimer c) = makeBufferedView c"
  "cs_address (stopRequestTimer c) = cs_address c" "cs_processing (stopRequestTimer c) = cs_processing c"
  "makeBufferedView (c\<lparr>cs_processing := b\<rparr>) = makeBufferedView c"
  by (simp_all add: makeBufferedView_def armRequestTimer_def stopRequestTimer_def)

lemma view_append:
  assumes "c' = compactClientBuffer c"
  shows "makeBufferedView (c'\<lparr>cs_buffer := cs_buffer c' @ data\<rparr>) = makeBufferedView c @ data"
  unfolding assms by (auto simp: makeBufferedView_def compactClientBuffer_def)

lemma view_advance:
  "n \<le> length (makeBufferedView c) \<Longrightarrow>
   makeBufferedView (c\<lparr>cs_bufferOffset := cs_bufferOffset c + n\<rparr>) = drop n (makeBufferedView c)"
  by (auto simp: makeBufferedView_def add.commute split: if_splits)

definition complete_messages :: "Address \<Rightarrow> (string \<times> ParsedRequest) list \<Rightarrow> bool" where
  "complete_messages a msgs \<longleftrightarrow>
     (\<forall>(raw, q)\<in>set msgs. complete_message a raw q \<and> pr_keepAlive q) \<and> length (concat (map fst msgs)) < 2 ^ 63"

definition taken :: "http_run \<Rightarrow> nat \<Rightarrow> ParsedRequest list" where
  "taken r cid = answered r cid @ (case serving r cid of Answering q \<Rightarrow> [q] | _ \<Rightarrow> [])"

text \<open>After \<open>k\<close> messages of the stream the client's buffer holds what has arrived of the others.\<close>

definition in_order :: "(string \<times> ParsedRequest) list \<Rightarrow> http_run \<Rightarrow> nat \<Rightarrow> ClientState \<Rightarrow> bool" where
  "in_order msgs r cid c \<longleftrightarrow>
     (let k = length (taken r cid)
      in k \<le> length msgs \<and> taken r cid = map snd (take k msgs) \<and>
         arrived r cid = concat (map fst (take k msgs)) @ makeBufferedView c \<and>
         cs_processing c = (serving r cid \<noteq> Off) \<and>
         (serving r cid = Off \<longrightarrow> k < length msgs \<longrightarrow> length (makeBufferedView c) < length (fst (msgs ! k))))"

definition http_inv :: "http_run \<Rightarrow> bool" where
  "http_inv r \<longleftrightarrow>
     (\<forall>cid c msgs rest. hs_clients (server r) cid = Some c \<longrightarrow> cid \<notin> dropped r \<longrightarrow>
        length (arrived r cid) \<le> maxRequestSize (server r) \<longrightarrow> complete_messages (cs_address c) msgs \<longrightarrow>
        arrived r cid @ rest = concat (map fst msgs) \<longrightarrow> in_order msgs r cid c)"

lemma complete_nonempty: "complete_message a raw q \<Longrightarrow> raw \<noteq> []"
  by (auto simp: complete_message_def tryExtractRequest_def)

text \<open>How the buffer relates to the next message of the stream.\<close>

lemma next_message:
  assumes ms: "complete_messages a msgs" and st: "s0 @ rest = concat (map fst msgs)"
    and s0: "s0 = concat (map fst (take k msgs)) @ v" and k: "k \<le> length msgs"
  shows "(if k < length msgs \<and> length (fst (msgs ! k)) \<le> length v
     then \<exists>v'. v = fst (msgs ! k) @ v' \<and> tryExtractRequest a v = Some (Inr (Some (snd (msgs ! k)))) \<and>
       consumedBytes (snd (msgs ! k)) = length (fst (msgs ! k)) \<and> pr_keepAlive (snd (msgs ! k))
     else tryExtractRequest a v = Some (Inr None))"
proof -
  have "concat (map fst msgs) = concat (map fst (take k msgs)) @ concat (map fst (drop k msgs))"
    by (metis append_take_drop_id concat_append map_append)
  then have vr: "v @ rest = concat (map fst (drop k msgs))" using st s0 by simp
  show ?thesis
  proof (cases "k < length msgs")
    case False
    then have "v = []" using vr k by simp
    then show ?thesis using False by (simp add: tryExtractRequest_def)
  next
    case True
    obtain raw q where m: "msgs ! k = (raw, q)" by (cases "msgs ! k")
    let ?tail = "concat (map fst (drop (Suc k) msgs))"
    have vq: "v @ rest = raw @ ?tail" using vr True m by (simp add: Cons_nth_drop_Suc [symmetric])
    have "(raw, q) \<in> set msgs" using nth_mem [OF True] m by simp
    then have cm: "complete_message a raw q" "pr_keepAlive q" using ms by (auto simp: complete_messages_def)
    have lens: "length v + length rest = length raw + length ?tail" using arg_cong [OF vq, of length] by simp
    have "length s0 + length rest < 2 ^ 63" using ms arg_cong [OF st, of length] by (simp add: complete_messages_def)
    then have small: "length raw + length ?tail < 2 ^ 63" using s0 lens by simp
    show ?thesis
    proof (cases "length raw \<le> length v")
      case le: True
      have "take (length raw) v = raw" using arg_cong [OF vq, of "take (length raw)"] le by simp
      then have v': "v = raw @ drop (length raw) v" by (metis append_take_drop_id)
      have "tryExtractRequest a (raw @ drop (length raw) v) = Some (Inr (Some q))"
        by (rule extract_extend [OF cm(1)]) (use small lens le in simp)
      then show ?thesis using True le m v' cm by (auto simp: complete_message_def)
    next
      case less: False
      have "take (length v) raw = v" using arg_cong [OF vq, of "take (length v)"] less by simp
      then have u: "raw = v @ drop (length v) raw" by (metis append_take_drop_id)
      let ?u = "drop (length v) raw"
      have "tryExtractRequest a v = Some (Inr None)"
        by (rule extract_prefix [of a v ?u q]) (use cm u small less in simp_all)
      then show ?thesis using less m by simp
    qed
  qed
qed

definition same_client :: "nat \<Rightarrow> http_run \<Rightarrow> http_run \<Rightarrow> bool" where
  "same_client cid r r' \<longleftrightarrow>
     hs_clients (server r') cid = hs_clients (server r) cid \<and> arrived r' cid = arrived r cid \<and>
     answered r' cid = answered r cid \<and> serving r' cid = serving r cid \<and> (cid \<in> dropped r' \<longleftrightarrow> cid \<in> dropped r)"

lemma in_order_same: "same_client cid r r' \<Longrightarrow> in_order msgs r' cid c = in_order msgs r cid c"
  by (simp add: same_client_def in_order_def taken_def)

lemma http_invD:
  "http_inv r \<Longrightarrow> hs_clients (server r) cid = Some c \<Longrightarrow> cid \<notin> dropped r \<Longrightarrow>
   length (arrived r cid) \<le> maxRequestSize (server r) \<Longrightarrow> complete_messages (cs_address c) msgs \<Longrightarrow>
   arrived r cid @ rest = concat (map fst msgs) \<Longrightarrow> in_order msgs r cid c"
  unfolding http_inv_def by blast

text \<open>A step that concerns one client.\<close>

lemma http_inv_focus:
  assumes "http_inv r" "maxRequestSize (server r') = maxRequestSize (server r)"
    "\<And>other. other \<noteq> cid \<Longrightarrow> same_client other r r'"
    "\<And>c msgs rest. hs_clients (server r') cid = Some c \<Longrightarrow> cid \<notin> dropped r' \<Longrightarrow>
       length (arrived r' cid) \<le> maxRequestSize (server r) \<Longrightarrow> complete_messages (cs_address c) msgs \<Longrightarrow>
       arrived r' cid @ rest = concat (map fst msgs) \<Longrightarrow> in_order msgs r' cid c"
  shows "http_inv r'"
  unfolding http_inv_def
proof (intro allI impI)
  fix other c msgs rest
  assume a: "hs_clients (server r') other = Some c" "other \<notin> dropped r'"
    "length (arrived r' other) \<le> maxRequestSize (server r')" "complete_messages (cs_address c) msgs"
    "arrived r' other @ rest = concat (map fst msgs)"
  show "in_order msgs r' other c"
  proof (cases "other = cid")
    case True
    then show ?thesis using assms(4) [of c msgs rest] a assms(2) by simp
  next
    case False
    have s: "same_client other r r'" by (rule assms(3) [OF False])
    have "in_order msgs r other c"
      by (rule http_invD [OF assms(1), where rest = rest]) (use a s assms(2) in \<open>auto simp: same_client_def\<close>)
    then show ?thesis using in_order_same [OF s] by simp
  qed
qed

lemma http_inv_unchanged:
  assumes "http_inv r" "maxRequestSize (server r') = maxRequestSize (server r)" "\<And>cid. same_client cid r r'"
  shows "http_inv r'"
  by (rule http_inv_focus [OF assms(1,2), of 0])
    (use assms in \<open>auto simp: same_client_def in_order_same [OF assms(3)] intro!: http_invD\<close>)

lemma http_inv_connect:
  assumes "http_inv r" "serving r cid = Off"
  shows "http_inv (r\<lparr>server := handleClientConnected cid a (server r), arrived := (arrived r)(cid := []),
    answered := (answered r)(cid := []), dropped := dropped r - {cid}\<rparr>)" (is "http_inv ?r")
proof (rule http_inv_focus [OF assms(1), where cid = cid])
  fix c msgs and rest :: string
  assume c: "hs_clients (server ?r) cid = Some c" and ms: "complete_messages (cs_address c) msgs"
  have "0 < length (fst (msgs ! 0))" if "0 < length msgs"
    using ms nth_mem [OF that] complete_nonempty [of "cs_address c"] by (auto simp: complete_messages_def)
  then show "in_order msgs ?r cid c"
    using c assms(2) by (auto simp: in_order_def taken_def handleClientConnected_def put_client_def makeBufferedView_def)
qed (simp_all add: same_client_def handleClientConnected_def put_client_def)

lemma put_client_inject [simp]: "put_client cid c s = put_client cid d s \<longleftrightarrow> c = d"
proof
  assume "put_client cid c s = put_client cid d s"
  then have "hs_clients (put_client cid c s) cid = hs_clients (put_client cid d s) cid" by simp
  then show "c = d" by (simp add: put_client_def)
qed simp

lemma handleDataReceived_client:
  assumes "hs_clients s cid = Some c0" "handleDataReceived cid data s = (start, s')"
  obtains c where "s' = put_client cid c s" "makeBufferedView c = makeBufferedView c0 @ data"
    "cs_address c = cs_address c0" "cs_processing c" "start \<longleftrightarrow> \<not> cs_processing c0"
proof -
  let ?c = "compactClientBuffer c0"
  let ?d = "armRequestTimer s (?c\<lparr>cs_buffer := cs_buffer ?c @ data\<rparr>)"
  have eq: "(if cs_bufferOffset ?c = 0 \<and> cs_buffer ?c = [] then ?c\<lparr>cs_buffer := data\<rparr>
      else ?c\<lparr>cs_buffer := cs_buffer ?c @ data\<rparr>) = ?c\<lparr>cs_buffer := cs_buffer ?c @ data\<rparr>" by simp
  have h: "(if \<not> cs_processing ?d then (True, put_client cid (?d\<lparr>cs_processing := True\<rparr>) s) else (False, put_client cid ?d s)) = (start, s')"
    using assms by (simp only: handleDataReceived_def Let_def option.case eq)
  have v: "makeBufferedView ?d = makeBufferedView c0 @ data" using view_append [OF refl, of c0 data] by simp
  show ?thesis
  proof (cases "cs_processing c0")
    case True
    then show ?thesis using that [of ?d] h v by simp
  next
    case False
    then show ?thesis using that [of "?d\<lparr>cs_processing := True\<rparr>"] h v by simp
  qed
qed

lemma http_inv_receive:
  assumes inv: "http_inv r" and c0: "hs_clients (server r) cid = Some c0"
    and h: "handleDataReceived cid data (server r) = (start, s')"
  shows "http_inv (r\<lparr>server := s', arrived := (arrived r)(cid := arrived r cid @ data),
    serving := (if start then (serving r)(cid := Scanning) else serving r)\<rparr>)" (is "http_inv ?r")
proof -
  obtain c1 where s': "s' = put_client cid c1 (server r)" and v: "makeBufferedView c1 = makeBufferedView c0 @ data"
    "cs_address c1 = cs_address c0" "cs_processing c1" "start \<longleftrightarrow> \<not> cs_processing c0"
    by (rule handleDataReceived_client [OF c0 h])
  show ?thesis
  proof (rule http_inv_focus [OF inv, where cid = cid])
    show "maxRequestSize (server ?r) = maxRequestSize (server r)" "\<And>other. other \<noteq> cid \<Longrightarrow> same_client other r ?r"
      using s' by (simp_all add: put_client_def same_client_def)
    fix c msgs rest
    assume c: "hs_clients (server ?r) cid = Some c" "cid \<notin> dropped ?r" "length (arrived ?r cid) \<le> maxRequestSize (server r)"
      and ms: "complete_messages (cs_address c) msgs" "arrived ?r cid @ rest = concat (map fst msgs)"
    have c': "c = c1" using c(1) s' by (simp add: put_client_def)
    have "in_order msgs r cid c0"
      by (rule http_invD [OF inv c0, where rest = "data @ rest"]) (use c ms v c' in simp_all)
    then show "in_order msgs ?r cid c"
      using v c' by (auto simp: in_order_def taken_def Let_def split: serving_phase.splits)
  qed
qed

lemma http_inv_next:
  assumes inv: "http_inv r" and sc: "serving r cid = Scanning" and nx: "nextRequest cid (server r) = Some (Inr (q, s'))"
  shows "http_inv (r\<lparr>server := s', serving := (serving r)(cid := case q of None \<Rightarrow> Off | Some q \<Rightarrow> Answering q)\<rparr>)" (is "http_inv ?r")
proof (cases "hs_clients (server r) cid")
  case None
  then have "s' = server r" using nx by (simp add: nextRequest_def)
  then show ?thesis by (intro http_inv_focus [OF inv, where cid = cid]) (use None in \<open>simp_all add: same_client_def\<close>)
next
  case c0: (Some c0)
  have same: "\<exists>c. s' = put_client cid c (server r) \<and> cs_address c = cs_address c0"
    using nx c0 by (auto simp: nextRequest_def Let_def split: if_splits option.splits sum.splits)
  show ?thesis
  proof (rule http_inv_focus [OF inv, where cid = cid])
    show "maxRequestSize (server ?r) = maxRequestSize (server r)" "\<And>other. other \<noteq> cid \<Longrightarrow> same_client other r ?r"
      using same by (auto simp: put_client_def same_client_def)
    fix c msgs rest
    assume c: "hs_clients (server ?r) cid = Some c" "cid \<notin> dropped ?r" "length (arrived ?r cid) \<le> maxRequestSize (server r)"
      and ms: "complete_messages (cs_address c) msgs" "arrived ?r cid @ rest = concat (map fst msgs)"
    have s': "s' = put_client cid c (server r)" and a: "cs_address c = cs_address c0"
      using same c(1) by (auto simp: put_client_def)
    let ?k = "length (answered r cid)" and ?v = "makeBufferedView c0"
    have "in_order msgs r cid c0" by (rule http_invD [OF inv c0, where rest = rest]) (use c ms a in simp_all)
    then have io: "?k \<le> length msgs" "answered r cid = map snd (take ?k msgs)"
      "arrived r cid = concat (map fst (take ?k msgs)) @ ?v" "cs_processing c0"
      using sc by (simp_all add: in_order_def taken_def Let_def)
    have small: "length ?v \<le> maxRequestSize (server r)" using c(3) io(3) by simp
    note nm = next_message [OF ms(1) [unfolded a] _ io(3,1), of rest]
    show "in_order msgs ?r cid c"
    proof (cases "?k < length msgs \<and> length (fst (msgs ! ?k)) \<le> length ?v")
      case True
      let ?q = "snd (msgs ! ?k)"
      obtain v' where v': "?v = fst (msgs ! ?k) @ v'" "tryExtractRequest (cs_address c0) ?v = Some (Inr (Some ?q))"
        "consumedBytes ?q = length (fst (msgs ! ?k))" using nm True ms(2) by auto
      then have q: "q = Some ?q" and cv: "makeBufferedView c = drop (consumedBytes ?q) ?v" "cs_processing c"
        using nx s' small c0 io(4) by (auto simp: nextRequest_def Let_def view_advance)
      have t: "take (Suc ?k) msgs = take ?k msgs @ [msgs ! ?k]" using True by (simp add: take_Suc_conv_app_nth)
      have tk: "taken ?r cid = map snd (take (Suc ?k) msgs)" using io(2) t by (simp add: taken_def q)
      have "length (taken ?r cid) = Suc ?k" using True by (simp add: taken_def q)
      moreover have "arrived ?r cid = concat (map fst (take (Suc ?k) msgs)) @ makeBufferedView c"
        using io(3) v' cv(1) t by simp
      ultimately show ?thesis using True tk cv(2) by (simp add: in_order_def Let_def q)
    next
      case False
      then have "tryExtractRequest (cs_address c0) ?v = Some (Inr None)" using nm ms(2) by auto
      then have "q = None" "makeBufferedView c = ?v" "\<not> cs_processing c"
        using nx s' small c0 by (auto simp: nextRequest_def Let_def)
      then show ?thesis using io False by (auto simp: in_order_def taken_def Let_def)
    qed
  qed
qed

lemma answerRequest_fields:
  assumes "answerRequest fs date sent cid q s = (goes_on, s')"
  shows "hs_clients s' = hs_clients s" "maxRequestSize s' = maxRequestSize s" "goes_on \<longleftrightarrow> sent \<and> pr_keepAlive q"
proof -
  obtain response cache where d: "(case immediateResponse q of Some response \<Rightarrow> (response, staticFileCache s)
     | None \<Rightarrow> dispatchRequest fs s (pr_request q)) = (response, cache)" by fastforce
  show "hs_clients s' = hs_clients s" "maxRequestSize s' = maxRequestSize s" "goes_on \<longleftrightarrow> sent \<and> pr_keepAlive q"
    using assms unfolding answerRequest_def d Let_def prod.case ask_tcp_def by (auto split: if_splits)
qed

lemma http_inv_answer:
  assumes inv: "http_inv r" and an: "serving r cid = Answering q" and h: "answerRequest fs date sent cid q (server r) = (goes_on, s')"
  shows "http_inv (r\<lparr>server := s', answered := (answered r)(cid := answered r cid @ [q]),
    serving := (serving r)(cid := if goes_on then Scanning else Off),
    dropped := (if sent then dropped r else insert cid (dropped r))\<rparr>)" (is "http_inv ?r")
proof (rule http_inv_focus [OF inv, where cid = cid])
  note f = answerRequest_fields [OF h]
  show "maxRequestSize (server ?r) = maxRequestSize (server r)" "\<And>other. other \<noteq> cid \<Longrightarrow> same_client other r ?r"
    using f by (simp_all add: same_client_def)
  fix c msgs rest
  assume c: "hs_clients (server ?r) cid = Some c" "cid \<notin> dropped ?r" "length (arrived ?r cid) \<le> maxRequestSize (server r)"
    and ms: "complete_messages (cs_address c) msgs" "arrived ?r cid @ rest = concat (map fst msgs)"
  have sent: "sent" "cid \<notin> dropped r" using c(2) by (auto split: if_splits)
  have io: "in_order msgs r cid c"
    by (rule http_invD [OF inv, where rest = rest]) (use c ms f sent in simp_all)
  have "q \<in> set (taken r cid)" using an by (simp add: taken_def)
  moreover have tk: "taken r cid = map snd (take (length (taken r cid)) msgs)" using io by (simp add: in_order_def Let_def)
  have "set (taken r cid) \<subseteq> snd ` set msgs" by (subst tk) (auto dest: in_set_takeD)
  ultimately have "q \<in> snd ` set msgs" by blast
  then have "pr_keepAlive q" using ms(1) by (auto simp: complete_messages_def)
  then have g: "goes_on" using f(3) sent by simp
  have "taken ?r cid = taken r cid" using an g by (simp add: taken_def)
  then show "in_order msgs ?r cid c" using io an g by (simp add: in_order_def Let_def)
qed

lemma http_inv_throw:
  "http_inv r \<Longrightarrow> http_inv (r\<lparr>serving := (serving r)(cid := Off), dropped := insert cid (dropped r)\<rparr>)"
  by (rule http_inv_focus [where cid = cid]) (simp_all add: same_client_def)

lemma http_inv_disconnect: "http_inv r \<Longrightarrow> http_inv (r\<lparr>server := handleClientDisconnected cid (server r)\<rparr>)"
  by (rule http_inv_focus [where cid = cid]) (simp_all add: same_client_def handleClientDisconnected_def)

lemma http_inv_stop: "http_inv r \<Longrightarrow> http_inv (r\<lparr>server := hs_stop (server r)\<rparr>)"
  by (cases "hs_running (server r)") (simp_all add: http_inv_def hs_stop_def)

lemma http_inv_init: "http_init r \<Longrightarrow> http_inv r"
  by (simp add: http_init_def http_inv_def)

lemma http_inv_other:
  assumes "http_inv r" "hs_clients s' = hs_clients (server r)" "maxRequestSize s' = maxRequestSize (server r)"
  shows "http_inv (r\<lparr>server := s'\<rparr>)"
  by (rule http_inv_unchanged [OF assms(1)]) (simp_all add: same_client_def assms)

lemma http_step_inv:
  assumes "http_step fs r r'" "http_inv r"
  shows "http_inv r'"
  using assms
proof cases
  case (connect cid a)
  then show ?thesis using http_inv_connect [OF assms(2)] by simp
next
  case (disconnect cid)
  then show ?thesis using http_inv_disconnect [OF assms(2)] by simp
next
  case (receive cid data start s')
  then obtain c where "hs_clients (server r) cid = Some c" by blast
  then show ?thesis using http_inv_receive [OF assms(2)] receive by simp
next
  case (pause cid s')
  then show ?thesis using http_inv_next [OF assms(2), of cid None s'] by simp
next
  case (take cid q s')
  then show ?thesis using http_inv_next [OF assms(2), of cid "Some q" s'] by simp
next
  case (throw cid e)
  then show ?thesis using http_inv_throw [OF assms(2)] by simp
next
  case (answer cid q date sent goes_on s')
  then show ?thesis using http_inv_answer [OF assms(2)] by simp
next
  case (stop)
  then show ?thesis using http_inv_stop [OF assms(2)] by simp
qed (simp_all add: http_inv_other [OF assms(2)] requestTimedOut_def ask_tcp_def registerHandler_def
     registerStaticFileHandler_def setRequestHandler_def)

interpretation https: invariant_system http_init "http_step fs" http_inv for fs
  by unfold_locales (simp_all add: http_inv_init http_step_inv)

abbreviation http_reachable :: "fsys \<Rightarrow> http_run \<Rightarrow> bool" where
  "http_reachable fs \<equiv> reach http_init (http_step fs)"


subsection \<open>Requests that the client builder writes\<close>

lemma findHeader_put_CL:
  "list_all (\<lambda>e. \<not> isCL (fst e)) hs \<Longrightarrow> findHeader (omap_put nameContentLength v hs) ''Content-Length'' = Some v"
  by (induction nameContentLength v hs rule: omap_put.induct)
    (auto simp: nameContentLength_def [symmetric] caseInsensitiveCompare_iff)

lemma findHeader_None: "list_all (\<lambda>e. \<not> caseInsensitiveCompare (fst e) name) hs \<Longrightarrow> findHeader hs name = None"
  by (induction hs) auto

text \<open>The head of a message does not depend on what follows it.\<close>

lemma parseRequestHead_cut:
  assumes "find_str (CRLF @ CRLF) data = Some e" "parseRequestHead data = Some view"
  shows "parseRequestHead (substr data 0 (e + 4)) = Some view"
proof -
  let ?cut = "take (e + 4) data"
  obtain l where l: "find_str CRLF data = Some l" "parseHeaderLines (headerSection data l e) \<noteq> None"
    using assms by (auto simp: parseRequestHead_def Let_def split: option.splits if_splits prod.splits)
  have le: "e + 4 \<le> length data" using find_str_Some_le [OF assms(1)] by simp
  have at: "take 4 (drop e data) = [CR, LF, CR, LF]" using find_str_Some_take [OF assms(1)] by (simp add: eval_nat_numeral)
  have "take 2 (drop e data) = CRLF" using arg_cong [OF at, of "take 2"] by simp
  then have e2: "take (length CRLF) (drop e data) = CRLF" "data ! e = CR"
    using arg_cong [OF at, of hd] le by (simp_all add: hd_drop_conv_nth numeral_2_eq_2)
  have "l \<le> e" using find_str_Some_min [OF l(1), of e] e2(1) by fastforce
  moreover have "l \<noteq> e" using headerless_section [OF assms(1)] l by auto
  moreover have "data ! (l + 1) = LF"
    using find_str_Some_take [OF l(1)] find_str_Some_le [OF l(1)] by (auto simp: take_Suc_conv_app_nth numeral_2_eq_2)
  then have "l + 1 \<noteq> e" using e2(2) by auto
  ultimately have l2: "l + 2 \<le> e" by simp
  have cut: "data = ?cut @ drop (e + 4) data" by simp
  have f: "find_str (CRLF @ CRLF) ?cut = Some e" "find_str CRLF ?cut = Some l"
    using find_str_restrict [of "CRLF @ CRLF" ?cut "drop (e + 4) data" e]
      find_str_restrict [of CRLF ?cut "drop (e + 4) data" l] assms(1) l l2 le by simp_all
  have eq: "substr ?cut 0 l = substr data 0 l" "headerSection ?cut l e = headerSection data l e"
  proof -
    show "substr ?cut 0 l = substr data 0 l" using l2 by (simp add: substr_def min_def)
    have "e + 2 ^ 64 - (l + 2) = e - (l + 2) + 2 ^ 64" using l2 by simp
    then have "wrap64 (e + 2 ^ 64 - (l + 2)) \<le> e - (l + 2)"
      by (simp only: wrap64_def mod_add_self2) simp
    then show "headerSection ?cut l e = headerSection data l e"
      by (simp add: headerSection_def Let_def substr_def drop_take min_def)
  qed
  have "data \<noteq> []" "?cut \<noteq> []" using le by auto
  then have "parseRequestHead ?cut = parseRequestHead data"
    unfolding parseRequestHead_def assms(1) l(1) f option.case eq by simp
  then have "parseRequestHead ?cut = Some view" using assms(2) by simp
  then show ?thesis by (simp add: substr_def)
qed

lemma splitTarget_fields [simp]:
  "rq_method (splitTarget r) = rq_method r" "rq_target (splitTarget r) = rq_target r" "rq_version (splitTarget r) = rq_version r"
  by (simp_all add: splitTarget_def Let_def split: option.splits)

lemma built_request_complete:
  assumes "request_ok meth uri hs body" "tryStringToMethod meth = Some m" "length (buildRequest meth uri hs body) < 2 ^ 63"
  shows "\<exists>q. complete_message a (buildRequest meth uri hs body) q \<and> hr_method (pr_request q) = m \<and>
    hr_methodName (pr_request q) = meth \<and> hr_target (pr_request q) = uri \<and> hr_body (pr_request q) = body \<and>
    hr_headers (pr_request q) = omap_put nameContentLength (to_chars 10 (length body)) hs \<and>
    (list_all (\<lambda>e. \<not> caseInsensitiveCompare (fst e) ''Connection'') hs \<longrightarrow> pr_keepAlive q)"
proof -
  let ?data = "buildRequest meth uri hs body" and ?hs = "omap_put nameContentLength (to_chars 10 (length body)) hs"
  let ?split = "splitTarget (HttpRequestView_clear\<lparr>rq_method := meth, rq_target := uri, rq_version := ''HTTP/1.1''\<rparr>)"
  let ?view = "?split\<lparr>rq_headers := ?hs, rq_body := []\<rparr>"
  have hb: "headers_buildable hs" "length body \<le> size_max" using assms(1) by (simp_all add: request_ok_def)
  obtain e where e: "find_str (CRLF @ CRLF) ?data = Some e" using buildRequest_head(3) [OF assms(1)] by blast
  have body: "drop (e + 4) ?data = body" using buildRequest_head(2) [OF assms(1)] e by (simp add: messageRest_def)
  have head: "parseRequestHead (substr ?data 0 (e + 4)) = Some ?view"
    by (rule parseRequestHead_cut [OF e buildRequest_head(1) [OF assms(1)]])
  have len: "length ?data = e + 4 + length body"
    using find_str_Some_le [OF e] arg_cong [OF body, of length] by simp
  have keys: "set ?hs = insert (nameContentLength, to_chars 10 (length body)) {x \<in> set hs. fst x \<noteq> nameContentLength}"
    by (rule om.set_entries_put) (use hb(1) in \<open>simp add: headers_buildable_def\<close>)
  have "findHeader ?hs ''Transfer-Encoding'' = None"
    by (rule findHeader_None) (use hb keys in \<open>auto simp: list_all_iff headers_buildable_def nameTransferEncoding_def nameContentLength_def caseInsensitiveCompare_def\<close>)
  then have ch: "\<not> isChunked (?view\<lparr>rq_body := b\<rparr>)" for b by (simp add: isChunked_def request_getHeader_def)
  have "findHeader ?hs ''Content-Length'' = Some (to_chars 10 (length body))"
    by (rule findHeader_put_CL) (use hb in \<open>auto simp: headers_buildable_def list_all_iff\<close>)
  moreover have "stoull 10 (to_chars 10 (length body)) = Some (length body)"
    using hb(2) by (intro stoull_decimal) (simp add: parseUnsignedDecimal_to_chars)
  moreover have "wrap64 (e + 4 + length body) = e + 4 + length body" using assms(3) len by (simp add: wrap64_def)
  ultimately have ext: "messageExtent ?view (e + 4) ?data = Some (UpTo (length ?data))"
    using ch [of "[]"] len by (simp add: messageExtent_def request_getHeader_def Let_def)
  let ?q = "\<lparr>pr_request = HttpRequest_init\<lparr>hr_method := m, hr_methodName := meth, hr_target := uri,
      hr_path := normalizeRequestPath (rq_uri ?split), hr_queryString := rq_queryString ?split, hr_version := ''HTTP/1.1'',
      hr_clientAddress := a, hr_queryParams := foldl (\<lambda>m (key, value). omap_put (urlDecode key) (urlDecode value) m) [] (rq_queryParams ?split),
      hr_headers := ?hs, hr_body := body\<rparr>,
    consumedBytes = length ?data, pr_keepAlive = shouldKeepAlive (?view\<lparr>rq_body := body\<rparr>), immediateResponse = None\<rparr>"
  have "omap_inv ?hs" using hb(1) by (simp add: headers_buildable_def omap_inv_put)
  then have "srv_buildRequest (?view\<lparr>rq_body := body\<rparr>) m a = Inr (pr_request ?q)"
    using ch [of body] by (simp add: srv_buildRequest_def Let_def fold_put_id)
  moreover have "substr ?data (e + 4) (wrap64 (length ?data + 2 ^ 64 - (e + 4))) = body"
    using body len assms(3) by (simp add: substr_def wrap64_def)
  ultimately have "finishRequest ?view a (e + 4) (length ?data) ?data = Inr (Some ?q)"
    using assms(2) by (simp add: finishRequest_def)
  then have "complete_message a ?data ?q" using e head ext by (simp add: complete_message_def tryExtractRequest_def Let_def)
  moreover have "pr_keepAlive ?q" if "list_all (\<lambda>e. \<not> caseInsensitiveCompare (fst e) ''Connection'') hs"
  proof -
    have "findHeader ?hs ''Connection'' = None"
      by (rule findHeader_None) (use that keys in \<open>auto simp: list_all_iff nameContentLength_def caseInsensitiveCompare_def\<close>)
    then show ?thesis by (simp add: shouldKeepAlive_def request_getHeader_def)
  qed
  ultimately show ?thesis by (intro exI [of _ ?q]) (simp add: HttpRequest_init_def)
qed


subsection \<open>The loop over buffered requests\<close>

lemma tryExtract_Nil: "tryExtractRequest a [] = Some (Inr None)"
  by (simp add: tryExtractRequest_def)

lemma nextRequest_message:
  assumes "hs_clients s cid = Some c" "length (makeBufferedView c) \<le> maxRequestSize s"
    "tryExtractRequest (cs_address c) (makeBufferedView c) = Some (Inr (Some q))" "consumedBytes q \<le> length (makeBufferedView c)"
  obtains c' where "nextRequest cid s = Some (Inr (Some q, put_client cid c' s))" "cs_address c' = cs_address c"
    "makeBufferedView c' = drop (consumedBytes q) (makeBufferedView c)"
proof -
  let ?c = "compactClientBuffer (c\<lparr>cs_bufferOffset := cs_bufferOffset c + consumedBytes q\<rparr>)"
  let ?c' = "if makeBufferedView ?c = [] then stopRequestTimer ?c else armRequestTimer s ?c"
  show ?thesis by (rule that [of ?c']) (use assms in \<open>simp_all add: nextRequest_def Let_def view_advance\<close>)
qed

lemma answer_keeps:
  assumes "answerRequest fs date True cid q s = (goes_on, s')"
  shows "length (tcp_requests s') = length (tcp_requests s) + (if pr_keepAlive q then 1 else 2)"
proof -
  obtain response cache where d: "(case immediateResponse q of Some response \<Rightarrow> (response, staticFileCache s)
     | None \<Rightarrow> dispatchRequest fs s (pr_request q)) = (response, cache)" by fastforce
  show ?thesis using assms unfolding answerRequest_def d Let_def prod.case ask_tcp_def by (auto split: if_splits)
qed


text \<open>C39: A request whose \<open>Content-Length\<close> brings the length of the message to exactly \<open>2\<^sup>6\<^sup>4\<close> wraps around to a
  message of no bytes. The server answers it without consuming it, over and over: the loop never ends.\<close>

theorem content_length_loops:
  assumes "parseRequestHead raw = Some view" "find_str (CRLF @ CRLF) raw = Some (length raw - 4)" "\<not> isChunked view"
    "request_getHeader view ''Content-Length'' = Some value" "stoull 10 value = Some (2 ^ 64 - length raw)"
    "tryStringToMethod (rq_method view) \<noteq> None" "shouldKeepAlive view"
    "hs_clients s cid = Some c" "makeBufferedView c = raw" "length raw \<le> maxRequestSize s" "length raw < 2 ^ 63"
  shows "processBufferedRequests fs date cid s = None"
proof -
  have n: "4 \<le> length raw" "substr raw 0 (length raw - 4 + 4) = raw"
    using find_str_Some_le [OF assms(2)] by (simp_all add: substr_def)
  have ext: "messageExtent view (length raw) raw = Some (UpTo 0)"
    using assms(3-5,11) n(1) by (simp add: messageExtent_def Let_def wrap64_def)
  have "isChunked (view\<lparr>rq_body := b\<rparr>) = isChunked view" "shouldKeepAlive (view\<lparr>rq_body := b\<rparr>) = shouldKeepAlive view" for b
    by (simp_all add: isChunked_def shouldKeepAlive_def request_getHeader_def)
  then have "\<exists>q. finishRequest view a (length raw) 0 raw = Inr (Some q) \<and> consumedBytes q = 0 \<and> pr_keepAlive q" for a
    using assms(3,6,7) by (auto simp: finishRequest_def srv_buildRequest_def Let_def)
  then have again: "\<exists>q. tryExtractRequest a raw = Some (Inr (Some q)) \<and> consumedBytes q = 0 \<and> pr_keepAlive q" for a
    using assms(1,2) n ext by (simp add: tryExtractRequest_def Let_def)
  have "\<not> (\<exists>c. hs_clients s cid = Some c \<and> makeBufferedView c = raw \<and> length raw \<le> maxRequestSize s)"
    if "processBufferedRequests fs date cid s = Some x" for s x
    using that
  proof (induction fs date cid s x rule: processBufferedRequests.raw_induct [rotated, consumes 1, case_names pass])
    case (pass loop fs date cid s x)
    show ?case
    proof
      assume "\<exists>c. hs_clients s cid = Some c \<and> makeBufferedView c = raw \<and> length raw \<le> maxRequestSize s"
      then obtain c where c: "hs_clients s cid = Some c" "makeBufferedView c = raw" "length raw \<le> maxRequestSize s" by blast
      obtain q where q: "tryExtractRequest (cs_address c) raw = Some (Inr (Some q))" "consumedBytes q = 0" "pr_keepAlive q"
        using again by blast
      obtain c' where c': "nextRequest cid s = Some (Inr (Some q, put_client cid c' s))" "makeBufferedView c' = raw"
        using nextRequest_message [OF c(1), of q] c q by auto
      obtain g s2 where a: "answerRequest fs date True cid q (put_client cid c' s) = (g, s2)" by fastforce
      note f = answerRequest_fields [OF a]
      have "loop fs date cid s2 = Some x" using pass.hyps c'(1) a f(3) q(3) by simp
      then have "\<not> (\<exists>c. hs_clients s2 cid = Some c \<and> makeBufferedView c = raw \<and> length raw \<le> maxRequestSize s2)"
        by (rule pass.IH)
      then show False using f c' c(3) by (simp add: put_client_def)
    qed
  qed
  then show ?thesis using assms(8-10) by (cases "processBufferedRequests fs date cid s") auto
qed

subsection \<open>The scan of a chunked body\<close>

lemma find_str_from_hit: "no_break line \<Longrightarrow> find_str_from CRLF (length pre) (pre @ line @ CRLF @ post) = Some (length pre + length line)"
  by (rule find_from_CRLF) (simp_all add: find_from_CRLF)

text \<open>C40: A chunk whose size wraps the scan position around to the beginning of its own line is scanned again and again: the
  loop of \<open>getChunkedMessageSize\<close>, which runs under the mutex of the clients, never ends.\<close>

theorem chunk_scan_loops:
  assumes "no_break line" "stoull 16 line = Some (2 ^ 64 - (length line + 4))"
    "data = before @ CRLF @ line @ CRLF @ post" "length data < 2 ^ 63"
  shows "chunkedSize_loop data (length before + 2) = None"
proof -
  let ?o = "length before + 2"
  have f: "find_str_from CRLF ?o data = Some (?o + length line)"
    using find_str_from_hit [OF assms(1), of "before @ CRLF" post] unfolding assms(3) by simp
  have line: "substr data ?o (length line) = line" by (simp add: assms(3) substr_def)
  have len: "length line + 4 < 2 ^ 64" "length before < 2 ^ 64" using assms(3,4) by simp_all
  have "?o + length line + 2 + (2 ^ 64 - (length line + 4)) = length before + 2 ^ 64" using len by simp
  then have w: "wrap64 (?o + length line + 2 + (2 ^ 64 - (length line + 4))) = length before"
    using len(2) by (simp only: wrap64_def mod_add_self2 mod_less)
  have "wrap64 (?o + length line + 2 + (2 ^ 64 - (length line + 4)) + 2) = length before + 2"
    using wrap64_add_two [of "?o + length line + 2 + (2 ^ 64 - (length line + 4))"] assms(3,4) unfolding w by simp
  moreover have "substr data (length before) 2 = CRLF" by (simp add: assms(3) substr_def)
  moreover have "length before + 2 \<le> length data" by (simp add: assms(3))
  ultimately have step: "chunk_step data ?o = Inr ?o"
    using f line w assms(2) len by (simp add: chunk_step_def Let_def)
  have "\<not> (d = data \<and> off = ?o)" if "chunkedSize_loop d off = Some x" for d off x
    using that
  proof (induction d off x rule: chunkedSize_induct)
    case (pass loop d off x)
    then show ?case using step pass.IH [of data ?o x] by auto
  qed
  then show ?thesis by (cases "chunkedSize_loop data ?o") auto
qed

definition chunk_attack :: string where
  "chunk_attack = ''1'' @ CRLF @ ''x'' @ CRLF @ ''ffffffffffffffec'' @ CRLF @ []"

lemmas http_eval = chunk_step_def find_str_from_def find_char_from_def substr_def stoull_def digit_value_def hexDigit_def
  Let_def size_max_def wrap64_def isspace_def char_consts

theorem chunk_scan_loops_witness: "getChunkedMessageSize chunk_attack = None"
proof -
  have "stoull 16 ''ffffffffffffffec'' = Some (2 ^ 64 - (length ''ffffffffffffffec'' + 4))"
    by (simp add: http_eval)
  moreover have "no_break ''ffffffffffffffec''" by (rule no_break_notin) (simp add: CR_def)
  ultimately have "chunkedSize_loop chunk_attack (length (''1'' @ CRLF @ ''x'') + 2) = None"
    by (intro chunk_scan_loops [where post = "[]"]) (simp_all add: chunk_attack_def)
  moreover have "chunk_step chunk_attack 0 = Inr 6" by (simp add: chunk_attack_def http_eval)
  ultimately show ?thesis unfolding getChunkedMessageSize_def by (subst chunkedSize_loop.simps) (simp add: eval_nat_numeral)
qed

definition length_attack :: string where
  "length_attack = ''GET / HTTP/1.1'' @ CRLF @ ''Content-Length: 18446744073709551560'' @ CRLF @ CRLF"

definition length_attack_view :: HttpRequestView where
  "length_attack_view =
     \<lparr>rq_method = ''GET'', rq_target = ''/'', rq_uri = ''/'', rq_queryString = [], rq_version = ''HTTP/1.1'',
      rq_headers = [(''Content-Length'', ''18446744073709551560'')], rq_body = [], rq_queryParams = []\<rparr>"

lemma length_attack_head: "parseRequestHead length_attack = Some length_attack_view"
  by (simp add: length_attack_def length_attack_view_def parseRequestHead_def http_eval http_limits splitRequestLine_def
    isValidHeaderName_def isTokenCharacter_def isalnum_def isupper_def islower_def isdigit_def isValidHttpVersion_def
    splitTarget_def HttpRequestView_clear_def headerSection_def parseHeaderLines_def parseHeaderLines_loop.simps
    parseHeaderLine_def trim_def caseInsensitiveCompare_def nameContentLength_def nameTransferEncoding_def
    tolower_def parseUnsignedDecimal_def)

subsection \<open>Example runs\<close>

definition no_files :: fsys where
  "no_files = \<lparr>fs_canonical = \<lambda>p. None, fs_exists = \<lambda>p. False, fs_regular = \<lambda>p. False, fs_time = \<lambda>p. None,
     fs_size = \<lambda>p. None, fs_data = \<lambda>p. None, fs_date = \<lambda>t. []\<rparr>"

definition local_address :: Address where
  "local_address = \<lparr>addr_ip = ''127.0.0.1'', addr_port = 50000\<rparr>"

definition client_with :: "string \<Rightarrow> ClientState" where
  "client_with data =
     \<lparr>cs_buffer = data, cs_bufferOffset = 0, cs_address = local_address, cs_processing = True, cs_timerArmed = True\<rparr>"

definition server_with :: "string \<Rightarrow> http_server" where
  "server_with data = put_client 7 (client_with data) http_server_new"

lemma server_with_fields [simp]:
  "hs_clients (server_with data) 7 = Some (client_with data)" "makeBufferedView (client_with data) = data"
  "cs_address (client_with data) = local_address" "maxRequestSize (server_with data) = 16 * 1024 * 1024"
  "tcp_requests (server_with data) = []"
  by (simp_all add: server_with_def client_with_def put_client_def http_server_new_def makeBufferedView_def)

theorem content_length_loops_witness: "processBufferedRequests no_files [] 7 (server_with length_attack) = None"
proof (rule content_length_loops [OF length_attack_head, where c = "client_with length_attack"])
  show "find_str (CRLF @ CRLF) length_attack = Some (length length_attack - 4)"
    by (simp add: length_attack_def http_eval)
  show "\<not> isChunked length_attack_view" "request_getHeader length_attack_view ''Content-Length'' = Some ''18446744073709551560''"
    "tryStringToMethod (rq_method length_attack_view) \<noteq> None" "shouldKeepAlive length_attack_view"
    by (simp_all add: length_attack_view_def isChunked_def request_getHeader_def caseInsensitiveCompare_def tolower_def
      isupper_def tryStringToMethod_def equalsAsciiIgnoreCase_def shouldKeepAlive_def)
  show "stoull 10 ''18446744073709551560'' = Some (2 ^ 64 - length length_attack)"
    by (simp add: length_attack_def http_eval)
qed (simp_all add: length_attack_def)

definition hello :: string where
  "hello = buildRequest ''GET'' ''/a?b=1'' [(''Host'', ''h'')] ''xy''"

lemma hello_ok: "request_ok ''GET'' ''/a?b=1'' [(''Host'', ''h'')] ''xy''"
  by (simp add: request_ok_def headers_buildable_def buildable_def omap_inv_def isValidHeaderName_def
    isTokenCharacter_def isalnum_def isupper_def islower_def trimmed_def isspace_def char_consts http_limits
    caseInsensitiveCompare_def nameContentLength_def nameTransferEncoding_def estimateHeaderBytes_def
    decimalDigitCount.simps size_max_def)

lemma hello_length: "length hello = 53"
  by (simp add: hello_def buildRequest_def appendHeaders_def appendHeaderLine_def appendUnsignedDecimal_def
    nameContentLength_def nameTransferEncoding_def caseInsensitiveCompare_def to_chars.simps)

lemma method_GET: "tryStringToMethod ''GET'' = Some GET"
  by (simp add: tryStringToMethod_def equalsAsciiIgnoreCase_def)


lemma hello_complete: "\<exists>q. complete_message local_address hello q \<and> pr_keepAlive q"
  using built_request_complete [OF hello_ok method_GET, of local_address] hello_length
  by (auto simp: hello_def [symmetric] caseInsensitiveCompare_def)

lemma hello_messages:
  "complete_message local_address hello q \<Longrightarrow> pr_keepAlive q \<Longrightarrow> complete_messages local_address [(hello, q), (hello, q)]"
  by (simp add: complete_messages_def hello_length)


text \<open>A client connects, and a request arrives in two pieces.\<close>

definition run0 :: http_run where
  "run0 = \<lparr>server = http_server_new, arrived = (\<lambda>cid. []), answered = (\<lambda>cid. []), serving = (\<lambda>cid. Off), dropped = {}\<rparr>"

definition run1 :: http_run where
  "run1 = run0\<lparr>server := handleClientConnected 7 local_address http_server_new\<rparr>"

definition client0 :: ClientState where
  "client0 = \<lparr>cs_buffer = [], cs_bufferOffset = 0, cs_address = local_address, cs_processing = False, cs_timerArmed = False\<rparr>"

lemma run1_reachable: "http_reachable no_files run1"
proof -
  have r: "http_reachable no_files run0" by (rule reach_init) (simp add: http_init_def run0_def http_server_new_def)
  have "http_step no_files run0 (run0\<lparr>server := handleClientConnected 7 local_address (server run0),
      arrived := (arrived run0)(7 := []), answered := (answered run0)(7 := []), dropped := dropped run0 - {7}\<rparr>)"
    by (rule http_step.connect) (simp_all add: run0_def http_server_new_def)
  from reach_step [OF r this] show ?thesis by (simp add: run0_def run1_def fun_upd_idem)
qed

lemma run1_fields:
  "hs_clients (server run1) 7 = Some client0" "arrived run1 = (\<lambda>cid. [])" "answered run1 = (\<lambda>cid. [])" "dropped run1 = {}"
  "serving run1 = (\<lambda>cid. Off)" "maxRequestSize (server run1) = 16 * 1024 * 1024"
  by (simp_all add: run1_def run0_def handleClientConnected_def put_client_def client0_def http_server_new_def)


end
