(* ===== verification/Spec2Isabelle.thy ===== *)
theory Spec2Isabelle
  imports WS_Frames Http_Multipart Fast_Buffer Flat_Hash_Map Connection_Invariant Timer_Manager Tcp_Connection_Pool
    Http_Static_Files Http_Server_Runs
begin

text \<open>
  A verification development for FastNet, a C++17 networking library (\<open>src/src\<close>, \<open>src/include/FastNet\<close>).

  \<^bold>\<open>The program.\<close> At the bottom are sockets, pollers and the thread pool \<open>IoService\<close>; over them
  \<open>TcpServer\<close> and \<open>TcpClient\<close> move bytes. \<open>HttpServer\<close> buffers the bytes of a connection, has
  \<open>HttpParser\<close> take requests from them, chooses a handler or a file and writes the response back.
  \<open>WebSocketProtocol\<close>, with its own SHA-1 and the Base64 helpers, encodes and decodes frames and handshakes.
  \<open>TcpConnectionPool\<close> and \<open>ConnectionManager\<close> keep connections for reuse, the latter with load balancing
  and a circuit breaker configured through \<open>Configuration\<close>. \<open>Timer\<close> runs callbacks at a time.
  \<open>FastBuffer\<close> and \<open>FlatHashMap\<close> are the containers.

  \<^bold>\<open>Theories and sources.\<close> Definitions carry the names of the functions they translate; a prefix is added where a
  name is taken.

  \<^item> \<open>FN_Prelude\<close>: characters and bytes, \<open>find\<close> and \<open>substr\<close> of strings, 64-bit wrap-around of sizes,
    clocks, reachability (\<open>reach\<close>), and the contracts of codecs and of systems with an invariant as locales.
  \<^item> \<open>Ordered_Map\<close>: \<open>std::map\<close> as a sorted association list, with its contract.
  \<^item> \<open>Base64\<close>: \<open>base64.cpp\<close>. Decoding inverts encoding; the decoder accepts exactly the padded alphabet strings.
  \<^item> \<open>Sha1\<close>: the class \<open>Sha1\<close> of \<open>WebSocketProtocol.cpp\<close>, equal to the algorithm of FIPS 180-4.
  \<^item> \<open>WS_Frames\<close>: frames and handshake keys of \<open>WebSocketProtocol.cpp\<close>. The decoder accepts exactly the
    frames with a minimal length field and reads back what the encoder writes.
  \<^item> \<open>Http_Text\<close>, \<open>Http_Parser\<close>, \<open>Http_Messages\<close>: \<open>HttpParser.cpp\<close>. Numbers, tokens and
    percent-encoding; heads, bodies and chunked bodies; what accepted messages look like and the round trips of
    the builders.
  \<^item> \<open>Http_Multipart\<close>: the form builder of \<open>HttpCommon.h\<close>.
  \<^item> \<open>Http_Server\<close>: \<open>HttpServer.cpp\<close>, with \<open>Http_Static_Files\<close> (ranges, containment of files in
    the registered directory, the cache, routing) and \<open>Http_Server_Runs\<close> (the step relation \<open>http_step\<close>,
    requests answered in order, the loop over buffered requests).
  \<^item> \<open>Fast_Buffer\<close>: \<open>FastBuffer.h\<close>, refined to lists of bytes.
  \<^item> \<open>Flat_Hash_Map\<close>: \<open>FlatHashMap.h\<close>, the Robin Hood invariant and the refinement to finite maps.
  \<^item> \<open>Configuration\<close>: \<open>Configuration.cpp\<close>. Validity is preserved; saving and loading round trips.
  \<^item> \<open>Connection_Manager\<close>: the operations of \<open>ConnectionManager.cpp\<close>, and \<open>Connection_Invariant\<close>:
    the invariant of its counters and queues over all histories (\<open>cm_step\<close>), what \<open>acquireConnection\<close> returns,
    the circuit breaker, and the selection of a backend.
  \<^item> \<open>Timer_Manager\<close>: \<open>Timer.cpp\<close>, the worker thread as a state machine (\<open>tm_step\<close>); when timers fire,
    that cancelled ones do not, and the two clients of the manager.
  \<^item> \<open>Tcp_Connection_Pool\<close>: \<open>TcpConnectionPool.cpp\<close>, with one step per critical section (\<open>pool_step\<close>).
  \<^item> This theory: the strategy names that \<open>Configuration\<close> validates against those \<open>ConnectionManager\<close>
    understands.

  \<^bold>\<open>State and effects.\<close> An object is a record, and an operation a function from the record to the record and a
  result. Exceptions are the left side of a sum, and a missing value is \<^term>\<open>None\<close>. Where threads share an
  object, what one of them does under the mutex is one step of an inductive relation and the theorems hold for every
  order of steps; the clock, random numbers, hash functions, the file system and the outcome of connection attempts
  are arguments. Contracts between parts are locales, each interpreted on the model: codecs, ordered maps, byte
  streams, hash tables, priority queues and systems with an invariant.

  \<^bold>\<open>Bounds and loops.\<close> Sizes are natural numbers with the wrap-around modulo \<open>2\<^sup>6\<^sup>4\<close> written out where
  the code computes a sum or difference that an input can push over the edge; hashes, frames and the counters of the
  pool are machine words. No fuel is used: loops that end for every input have a termination proof. The loops that may
  not end are \<open>partial_function (option)\<close>, and theorems state when they return: the insertion of
  \<open>FlatHashMap\<close> for every history, the scan of the timer queue always, and the request loop of the server on
  complete messages. Two further theorems give inputs on which the server's loops do not return. The weights of
  weighted round robin and the identifiers of timers are unbounded numbers: the theorems say nothing of weights so
  large that their sums overflow, or of more than \<open>2\<^sup>6\<^sup>4\<close> timers.

  \<^bold>\<open>Defects.\<close> Several theorems are about behaviour the code does not intend: chunk sizes that wrap around in the
  parser and in the server, a \<open>Content-Length\<close> that wraps around, messages without header lines, shrinking a
  buffer whose read cursor has moved, destroying a pair of the hash map twice, cancelling a repeating timer during its
  callback, a pool that opens one connection too many, does not serve a waiting caller or counts below zero, and
  strategy names that are accepted and then ignored.

  \<^bold>\<open>Not modelled.\<close> \<open>TcpServer\<close>, \<open>TcpClient\<close>, \<open>UdpSocket\<close>, \<open>SocketWrapper\<close>, the pollers, the
  completion-port transport and \<open>SSLContext\<close> are dominated by system and OpenSSL calls whose results decide every
  branch. \<open>HttpClient\<close> and the WebSocket client and server are sessions over them; the messages and frames they
  exchange are modelled. \<open>IoService\<close>, \<open>MpscQueue\<close>, \<open>SpinLock\<close> and \<open>MemoryPool\<close> are about threads,
  memory orderings and raw memory, which the models take for granted. \<open>Error\<close>, \<open>Logger\<close>,
  \<open>PerformanceMonitor\<close> and \<open>BenchmarkUtils\<close> report and format; examples and tests use the library.
\<close>



end
